theory Spec2Isabelle
  imports Complex_Main
begin


section \<open>Data model of the constraint tableau\<close>

text \<open>
  The embedding follows \<^verbatim>\<open>src/math/simplex/model_based_opt.cpp\<close>. Exact rationals
  (\<^verbatim>\<open>rational\<close>) are \<^typ>\<open>rat\<close>; \<^verbatim>\<open>unsigned\<close> row and variable ids are
  \<^typ>\<open>nat\<close> (no arithmetic in the file can overflow them; the only use of the
  machine width is the sentinel \<^verbatim>\<open>UINT_MAX\<close>). Vectors are lists, \<^verbatim>\<open>v[i]\<close> is
  \<open>v ! i\<close> and \<^verbatim>\<open>v[i] = e\<close> is \<open>v[i := e]\<close>; the source reads and writes out of
  range only when an assertion of its own has failed, and the theorems below exclude those
  states by the well-formedness predicate \<open>wf\<close>. The scratch vectors \<^verbatim>\<open>m_above\<close>,
  \<^verbatim>\<open>m_below\<close>, \<^verbatim>\<open>m_lub\<close>, \<^verbatim>\<open>m_glb\<close> and \<^verbatim>\<open>m_new_vars\<close> are reset by every
  function that uses them, so they are results of the loops instead of fields of the state.
\<close>

datatype ineq_type = t_eq | t_lt | t_le

text \<open>Modelled from the spec: the header \<^verbatim>\<open>model_based_opt.h\<close> is missing; a variable
  reference is \<^verbatim>\<open>{ id, coeff }\<close>, with the field names the source file uses.\<close>

record var =
  m_id :: nat
  m_coeff :: rat

text \<open>Modelled from the spec: a row is \<^verbatim>\<open>{ vars, constant, relation, cached_value, alive }\<close>;
  the source file calls the fields \<^verbatim>\<open>m_vars\<close>, \<^verbatim>\<open>m_coeff\<close> (the constant),
  \<^verbatim>\<open>m_type\<close>, \<^verbatim>\<open>m_value\<close> and \<^verbatim>\<open>m_alive\<close>.\<close>

record row =
  m_vars :: "var list"
  m_coeff :: rat
  m_type :: ineq_type
  m_value :: rat
  m_alive :: bool

record model_based_opt =
  m_rows :: "row list"
  m_var2value :: "rat list"
  m_var2row_ids :: "nat list list"

text \<open>Modelled from the spec: row 0 is reserved as the objective row.\<close>

definition m_objective_id :: nat where
  "m_objective_id = 0"

definition UINT_MAX :: nat where
  "UINT_MAX = 4294967295"

text \<open>Modelled from the spec: the result of \<^verbatim>\<open>maximize\<close> is positive infinity or a
  finite value paired with the coefficient of an infinitesimal (\<open>0\<close> for an exact value,
  \<open>-1\<close> for a value approached from below).\<close>

datatype inf_eps = infinity | inf_rational rat rat

definition objective :: "model_based_opt \<Rightarrow> row" where
  "objective s = m_rows s ! m_objective_id"

definition kill_row :: "nat \<Rightarrow> model_based_opt \<Rightarrow> model_based_opt" where
  \<comment> \<open>\<^verbatim>\<open>m_rows[row_id].m_alive = false\<close>\<close>
  "kill_row row_id s = s\<lparr>m_rows := (m_rows s)[row_id := (m_rows s ! row_id)\<lparr>m_alive := False\<rparr>]\<rparr>"

section \<open>Row value and coefficient lookup\<close>

fun get_row_value_loop :: "rat list \<Rightarrow> var list \<Rightarrow> rat \<Rightarrow> rat" where
  "get_row_value_loop vals [] val = val"
| "get_row_value_loop vals (v # vs) val =
     get_row_value_loop vals vs (val + var.m_coeff v * (vals ! m_id v))"

definition get_row_value :: "model_based_opt \<Rightarrow> row \<Rightarrow> rat" where
  "get_row_value s r = get_row_value_loop (m_var2value s) (m_vars r) (row.m_coeff r)"

text \<open>The binary search of \<^verbatim>\<open>get_coefficient\<close>; the result is the final \<^verbatim>\<open>lo\<close>.\<close>

function bsearch :: "var list \<Rightarrow> nat \<Rightarrow> nat \<Rightarrow> nat \<Rightarrow> nat" where
  "bsearch vs var_id lo hi =
     (if lo < hi then
        let mid = lo + (hi - lo) div 2; id = m_id (vs ! mid) in
        if id = var_id then mid
        else if id < var_id then bsearch vs var_id (mid + 1) hi
        else bsearch vs var_id lo mid
      else lo)"
  by pat_completeness auto
termination
  by (relation "measure (\<lambda>(vs, var_id, lo, hi). hi - lo)") auto

declare bsearch.simps [simp del]

definition get_coefficient :: "model_based_opt \<Rightarrow> nat \<Rightarrow> nat \<Rightarrow> rat" where
  "get_coefficient s row_id var_id =
     (let vs = m_vars (m_rows s ! row_id) in
      if vs = [] then 0
      else
        let lo = bsearch vs var_id 0 (length vs) in
        if lo = length vs then 0
        else if m_id (vs ! lo) = var_id then var.m_coeff (vs ! lo)
        else 0)"

section \<open>Sparse linear combination\<close>

definition push_row_id :: "nat \<Rightarrow> nat \<Rightarrow> nat list list \<Rightarrow> nat list list" where
  \<comment> \<open>\<^verbatim>\<open>if (row_id1 != m_objective_id) m_var2row_ids[v].push_back(row_id1)\<close>\<close>
  "push_row_id row_id1 v idx =
     (if row_id1 \<noteq> m_objective_id then idx[v := idx ! v @ [row_id1]] else idx)"

definition scale_var :: "rat \<Rightarrow> var \<Rightarrow> var" where
  \<comment> \<open>\<^verbatim>\<open>m_new_vars.push_back(v); m_new_vars.back().m_coeff *= c\<close>\<close>
  "scale_var c v = v\<lparr>var.m_coeff := var.m_coeff v * c\<rparr>"

text \<open>The merge loop of \<^verbatim>\<open>mul_add\<close> over the remaining entries of \<^verbatim>\<open>r1.m_vars\<close>
  (from \<^verbatim>\<open>i\<close>) and \<^verbatim>\<open>r2.m_vars\<close> (from \<^verbatim>\<open>j\<close>); the accumulator is
  \<^verbatim>\<open>m_new_vars\<close> and the variable index.\<close>

fun mul_add_loop ::
  "nat \<Rightarrow> rat \<Rightarrow> var list \<Rightarrow> var list \<Rightarrow> var list \<times> nat list list \<Rightarrow> var list \<times> nat list list"
where
  "mul_add_loop row_id1 c xs [] (new_vars, idx) = (new_vars @ xs, idx)"
| "mul_add_loop row_id1 c [] (y # ys) (new_vars, idx) =
     mul_add_loop row_id1 c [] ys
       (new_vars @ [scale_var c y], push_row_id row_id1 (m_id y) idx)"
| "mul_add_loop row_id1 c (x # xs) (y # ys) (new_vars, idx) =
     (if m_id x = m_id y then
        (let coeff = var.m_coeff x + c * var.m_coeff y in
         mul_add_loop row_id1 c xs ys
           (if coeff = 0 then new_vars else new_vars @ [x\<lparr>var.m_coeff := coeff\<rparr>], idx))
      else if m_id x < m_id y then
        mul_add_loop row_id1 c xs (y # ys) (new_vars @ [x], idx)
      else
        mul_add_loop row_id1 c (x # xs) ys
          (new_vars @ [scale_var c y], push_row_id row_id1 (m_id y) idx))"

definition mul_add_type :: "bool \<Rightarrow> ineq_type \<Rightarrow> ineq_type \<Rightarrow> ineq_type" where
  "mul_add_type same_sign ty1 ty2 =
     (if \<not> same_sign \<and> ty2 = t_lt then t_lt
      else if same_sign \<and> ty1 = t_lt \<and> ty2 = t_lt then t_le
      else ty1)"

definition mul_add :: "bool \<Rightarrow> nat \<Rightarrow> rat \<Rightarrow> nat \<Rightarrow> model_based_opt \<Rightarrow> model_based_opt" where
  "mul_add same_sign row_id1 c row_id2 s =
     (if c = 0 then s
      else
        let r1 = m_rows s ! row_id1;
            r2 = m_rows s ! row_id2;
            res = mul_add_loop row_id1 c (m_vars r1) (m_vars r2) ([], m_var2row_ids s);
            r1' = r1\<lparr>m_vars := fst res,
                     row.m_coeff := row.m_coeff r1 + c * row.m_coeff r2,
                     m_type := mul_add_type same_sign (m_type r1) (m_type r2),
                     m_value := m_value r1 + c * m_value r2\<rparr>
        in s\<lparr>m_rows := (m_rows s)[row_id1 := r1'], m_var2row_ids := snd res\<rparr>)"

definition resolve :: "nat \<Rightarrow> rat \<Rightarrow> nat \<Rightarrow> nat \<Rightarrow> model_based_opt \<Rightarrow> model_based_opt" where
  "resolve row_src a1 row_dst x s =
     (if m_alive (m_rows s ! row_dst) then
        let a2 = get_coefficient s row_dst x in
        mul_add (row_dst \<noteq> m_objective_id \<and> (0 < a1) = (0 < a2)) row_dst (- a2 / a1) row_src s
      else s)"

section \<open>Bound search\<close>

record bound_state =
  bound_row_index :: nat
  bound_coeff :: rat
  lub_val :: rat
  m_above :: "nat list"
  m_below :: "nat list"

definition find_bound_init :: bound_state where
  "find_bound_init =
     \<lparr>bound_row_index = UINT_MAX, bound_coeff = 0, lub_val = 0, m_above = [], m_below = []\<rparr>"

definition find_bound_row ::
  "model_based_opt \<Rightarrow> nat \<Rightarrow> bool \<Rightarrow> nat \<Rightarrow> bound_state \<Rightarrow> bound_state" where
  \<comment> \<open>the body of the scan for a row id that has not been visited\<close>
  "find_bound_row s x is_pos row_id b =
     (let r = m_rows s ! row_id in
      if m_alive r then
        let a = get_coefficient s row_id x in
        if a = 0 then b
        else if (0 < a) = is_pos \<or> m_type r = t_eq then
          let val = m_var2value s ! x - m_value r / a in
          if bound_row_index b = UINT_MAX then
            b\<lparr>bound_state.lub_val := val, bound_row_index := row_id, bound_coeff := a\<rparr>
          else if (val = bound_state.lub_val b \<and> m_type r = t_lt) \<or>
                  (is_pos \<and> val < bound_state.lub_val b) \<or>
                  (\<not> is_pos \<and> val > bound_state.lub_val b) then
            b\<lparr>m_above := m_above b @ [bound_row_index b],
              bound_state.lub_val := val, bound_row_index := row_id, bound_coeff := a\<rparr>
          else b\<lparr>m_above := m_above b @ [row_id]\<rparr>
        else b\<lparr>m_below := m_below b @ [row_id]\<rparr>
      else b)"

fun find_bound_loop ::
  "model_based_opt \<Rightarrow> nat \<Rightarrow> bool \<Rightarrow> nat list \<Rightarrow> nat set \<Rightarrow> bound_state \<Rightarrow> bound_state" where
  "find_bound_loop s x is_pos [] visited b = b"
| "find_bound_loop s x is_pos (row_id # row_ids) visited b =
     (if row_id \<in> visited then find_bound_loop s x is_pos row_ids visited b
      else find_bound_loop s x is_pos row_ids (insert row_id visited)
             (find_bound_row s x is_pos row_id b))"

definition find_bound :: "model_based_opt \<Rightarrow> nat \<Rightarrow> bool \<Rightarrow> bool \<times> bound_state" where
  "find_bound s x is_pos =
     (let b = find_bound_loop s x is_pos (m_var2row_ids s ! x) {} find_bound_init
      in (bound_row_index b \<noteq> UINT_MAX, b))"

section \<open>Back-substitution\<close>

fun update_values_vars :: "rat list \<Rightarrow> nat \<Rightarrow> var list \<Rightarrow> rat \<times> rat \<Rightarrow> rat \<times> rat" where
  \<comment> \<open>the inner loop over the bound row's variables; the pair is \<^verbatim>\<open>(val, x_coeff)\<close>\<close>
  "update_values_vars vals x [] (val, x_coeff) = (val, x_coeff)"
| "update_values_vars vals x (v # vs) (val, x_coeff) =
     (if x = m_id v then update_values_vars vals x vs (val, var.m_coeff v)
      else update_values_vars vals x vs (val + (vals ! m_id v) * var.m_coeff v, x_coeff))"

definition update_values_eps :: "rat \<Rightarrow> rat \<Rightarrow> rat" where
  "update_values_eps old_x_val new_x_val = min 1 (\<bar>old_x_val - new_x_val\<bar> / 2)"

definition update_values_new_val :: "model_based_opt \<Rightarrow> nat \<Rightarrow> row \<Rightarrow> rat" where
  "update_values_new_val s x r =
     (let (val, x_coeff) = update_values_vars (m_var2value s) x (m_vars r) (row.m_coeff r, 0);
          old_x_val = m_var2value s ! x;
          new_x_val = - val / x_coeff
      in if m_type r = t_lt then
           (let eps = update_values_eps old_x_val new_x_val in
            if 0 < x_coeff then new_x_val - eps else new_x_val + eps)
         else new_x_val)"

definition update_values_entry :: "nat \<Rightarrow> nat \<Rightarrow> model_based_opt \<Rightarrow> model_based_opt" where
  \<comment> \<open>one iteration of the first loop, for the trail entry \<^verbatim>\<open>(x, row_id)\<close>\<close>
  "update_values_entry x row_id s =
     (let r = m_rows s ! row_id;
          s1 = s\<lparr>m_var2value := (m_var2value s)[x := update_values_new_val s x r]\<rparr>
      in s1\<lparr>m_rows := (m_rows s1)[row_id := r\<lparr>m_value := get_row_value s1 r\<rparr>]\<rparr>)"

fun update_values_loop1 ::
  "nat list \<Rightarrow> nat list \<Rightarrow> nat \<Rightarrow> model_based_opt \<Rightarrow> model_based_opt" where
  "update_values_loop1 bound_vars bound_trail 0 s = s"
| "update_values_loop1 bound_vars bound_trail (Suc i) s =
     update_values_loop1 bound_vars bound_trail i
       (update_values_entry (bound_vars ! i) (bound_trail ! i) s)"

definition recompute_row :: "nat \<Rightarrow> model_based_opt \<Rightarrow> model_based_opt" where
  \<comment> \<open>\<^verbatim>\<open>r.m_value = get_row_value(r)\<close> for \<^verbatim>\<open>r = m_rows[row_id]\<close>\<close>
  "recompute_row row_id s =
     s\<lparr>m_rows := (m_rows s)[row_id := (m_rows s ! row_id)\<lparr>m_value := get_row_value s (m_rows s ! row_id)\<rparr>]\<rparr>"

fun update_values_loop2 :: "nat list \<Rightarrow> nat \<Rightarrow> model_based_opt \<Rightarrow> model_based_opt" where
  "update_values_loop2 bound_vars 0 s = s"
| "update_values_loop2 bound_vars (Suc i) s =
     update_values_loop2 bound_vars i (fold recompute_row (m_var2row_ids s ! (bound_vars ! i)) s)"

definition update_values :: "nat list \<Rightarrow> nat list \<Rightarrow> model_based_opt \<Rightarrow> model_based_opt" where
  "update_values bound_vars bound_trail s =
     update_values_loop2 bound_vars (length bound_trail)
       (update_values_loop1 bound_vars bound_trail (length bound_trail) s)"

section \<open>Maximization\<close>

definition maximize_step :: "model_based_opt \<Rightarrow> (nat \<times> nat \<times> model_based_opt) option" where
  \<comment> \<open>one iteration of the main loop when the objective still has variables:
      \<open>None\<close> when \<^verbatim>\<open>find_bound\<close> fails, otherwise the bound row, the variable and the new state\<close>
  "maximize_step s =
     (let v = last (m_vars (objective s));
          x = m_id v;
          coeff = var.m_coeff v;
          (found, b) = find_bound s x (0 < coeff)
      in if found then
           (let s1 = fold (\<lambda>row_id. resolve (bound_row_index b) (bound_coeff b) row_id x) (m_above b) s;
                s2 = fold (\<lambda>row_id. resolve (bound_row_index b) (bound_coeff b) row_id x) (m_below b) s1;
                s3 = mul_add False m_objective_id (- coeff / bound_coeff b) (bound_row_index b) s2
            in Some (bound_row_index b, x, kill_row (bound_row_index b) s3))
         else None)"

definition maximize_result :: "model_based_opt \<Rightarrow> inf_eps" where
  "maximize_result s =
     (let val = m_value (objective s) in
      if m_type (objective s) = t_lt then inf_rational val (- 1) else inf_rational val 0)"

partial_function (option) maximize_loop ::
  "model_based_opt \<Rightarrow> nat list \<Rightarrow> nat list \<Rightarrow> (inf_eps \<times> model_based_opt) option" where
  "maximize_loop s bound_trail bound_vars =
     (if m_vars (objective s) \<noteq> [] then
        (case maximize_step s of
           Some (bound_row, x, s') \<Rightarrow> maximize_loop s' (bound_trail @ [bound_row]) (bound_vars @ [x])
         | None \<Rightarrow> Some (infinity, update_values bound_vars bound_trail s))
      else
        (let s' = update_values bound_vars bound_trail s in Some (maximize_result s', s')))"

declare maximize_loop.simps [code]

definition maximize :: "model_based_opt \<Rightarrow> (inf_eps \<times> model_based_opt) option" where
  "maximize s = maximize_loop s [] []"

section \<open>Building the tableau\<close>

definition add_var :: "rat \<Rightarrow> model_based_opt \<Rightarrow> nat \<times> model_based_opt" where
  "add_var val s =
     (length (m_var2value s),
      s\<lparr>m_var2value := m_var2value s @ [val], m_var2row_ids := m_var2row_ids s @ [[]]\<rparr>)"

definition get_value :: "model_based_opt \<Rightarrow> nat \<Rightarrow> rat" where
  "get_value s v = m_var2value s ! v"

fun set_row_val :: "rat list \<Rightarrow> var list \<Rightarrow> rat \<Rightarrow> rat" where
  "set_row_val vals [] val = val"
| "set_row_val vals (v # vs) val = set_row_val vals vs (val + (vals ! m_id v) * var.m_coeff v)"

text \<open>Modelled from the spec: \<^verbatim>\<open>var::compare\<close> is declared in the missing header; rows
  store their variables sorted by id ascending, so the sort is by \<open>m_id\<close>.\<close>

definition set_row ::
  "nat \<Rightarrow> var list \<Rightarrow> rat \<Rightarrow> ineq_type \<Rightarrow> model_based_opt \<Rightarrow> model_based_opt" where
  "set_row row_id coeffs c rel s =
     (let r = m_rows s ! row_id;
          r' = r\<lparr>m_vars := sort_key m_id (m_vars r @ coeffs),
                 m_alive := True,
                 row.m_coeff := c,
                 m_value := set_row_val (m_var2value s) coeffs c,
                 m_type := rel\<rparr>
      in s\<lparr>m_rows := (m_rows s)[row_id := r']\<rparr>)"

text \<open>Modelled from the spec: the default row of the missing header has no variables, is a
  \<open>Le\<close> row with value 0 and is not alive; \<^verbatim>\<open>set_row\<close> overwrites every field.\<close>

definition default_row :: row where
  "default_row = \<lparr>m_vars = [], row.m_coeff = 0, m_type = t_le, m_value = 0, m_alive = False\<rparr>"

fun add_constraint_ids :: "nat \<Rightarrow> var list \<Rightarrow> nat list list \<Rightarrow> nat list list" where
  "add_constraint_ids row_id [] idx = idx"
| "add_constraint_ids row_id (v # vs) idx =
     add_constraint_ids row_id vs (idx[m_id v := idx ! m_id v @ [row_id]])"

definition add_constraint ::
  "var list \<Rightarrow> rat \<Rightarrow> ineq_type \<Rightarrow> model_based_opt \<Rightarrow> model_based_opt" where
  "add_constraint coeffs c rel s =
     (let row_id = length (m_rows s);
          s1 = set_row row_id coeffs c rel (s\<lparr>m_rows := m_rows s @ [default_row]\<rparr>)
      in s1\<lparr>m_var2row_ids := add_constraint_ids row_id coeffs (m_var2row_ids s1)\<rparr>)"

definition set_objective :: "var list \<Rightarrow> rat \<Rightarrow> model_based_opt \<Rightarrow> model_based_opt" where
  "set_objective coeffs c s = set_row m_objective_id coeffs c t_le s"

definition init_opt :: model_based_opt where
  \<comment> \<open>the constructor: one default row, the objective\<close>
  "init_opt = \<lparr>m_rows = [default_row], m_var2value = [], m_var2row_ids = []\<rparr>"

definition get_live_rows :: "model_based_opt \<Rightarrow> row list" where
  "get_live_rows s = filter m_alive (m_rows s)"

section \<open>Projection\<close>

text \<open>\<^verbatim>\<open>solve_for\<close> iterates over \<^verbatim>\<open>m_var2row_ids[x]\<close> by reference while \<^verbatim>\<open>mul_add\<close>
  may append to it; every id appended during the loop is the destination of the current
  resolution, which is already in \<^verbatim>\<open>visited\<close>, so the loop over the list as it was on
  entry performs the same resolutions.\<close>

fun solve_for_loop ::
  "nat \<Rightarrow> rat \<Rightarrow> nat \<Rightarrow> nat list \<Rightarrow> nat set \<Rightarrow> model_based_opt \<Rightarrow> model_based_opt" where
  "solve_for_loop row_id1 a x [] visited s = s"
| "solve_for_loop row_id1 a x (row_id2 # row_ids) visited s =
     (if row_id2 \<notin> visited then
        solve_for_loop row_id1 a x row_ids (insert row_id2 visited) (resolve row_id1 a row_id2 x s)
      else solve_for_loop row_id1 a x row_ids visited s)"

definition solve_for :: "nat \<Rightarrow> nat \<Rightarrow> model_based_opt \<Rightarrow> model_based_opt" where
  "solve_for row_id1 x s =
     (let a = get_coefficient s row_id1 x in
      kill_row row_id1 (solve_for_loop row_id1 a x (m_var2row_ids s ! x) {row_id1} s))"

record project_state =
  lub_index :: nat
  glb_index :: nat
  lub_strict :: bool
  glb_strict :: bool
  lub_val :: rat
  glb_val :: rat
  lub_rows :: "nat list"
  glb_rows :: "nat list"

definition project_init :: project_state where
  "project_init =
     \<lparr>lub_index = UINT_MAX, glb_index = UINT_MAX, lub_strict = False, glb_strict = False,
      lub_val = 0, glb_val = 0, lub_rows = [], glb_rows = []\<rparr>"

definition project_row ::
  "model_based_opt \<Rightarrow> nat \<Rightarrow> nat \<Rightarrow> rat \<Rightarrow> project_state \<Rightarrow> project_state" where
  \<comment> \<open>the lub/glb update for a live inequality row with coefficient \<open>a \<noteq> 0\<close> on \<open>x\<close>\<close>
  "project_row s x row_id a p =
     (let r = m_rows s ! row_id in
      if 0 < a then
        (let lub_value = m_var2value s ! x - m_value r / a;
             p' = (if lub_rows p = [] \<or> lub_value < lub_val p \<or>
                      (lub_value = lub_val p \<and> m_type r = t_lt \<and> \<not> lub_strict p)
                   then p\<lparr>lub_val := lub_value, lub_index := row_id, lub_strict := (m_type r = t_lt)\<rparr>
                   else p)
         in p'\<lparr>lub_rows := lub_rows p' @ [row_id]\<rparr>)
      else
        (let glb_value = m_var2value s ! x - m_value r / a;
             p' = (if glb_rows p = [] \<or> glb_value > glb_val p \<or>
                      (glb_value = glb_val p \<and> m_type r = t_lt \<and> \<not> glb_strict p)
                   then p\<lparr>glb_val := glb_value, glb_index := row_id, glb_strict := (m_type r = t_lt)\<rparr>
                   else p)
         in p'\<lparr>glb_rows := glb_rows p' @ [row_id]\<rparr>))"

text \<open>The selection loop of \<^verbatim>\<open>project\<close>: \<open>Inl row_id\<close> when it meets a live equality
  with a non-zero coefficient on \<open>x\<close> (the source then calls \<^verbatim>\<open>solve_for\<close> and
  returns), \<open>Inr\<close> the selection otherwise.\<close>

fun project_loop ::
  "model_based_opt \<Rightarrow> nat \<Rightarrow> nat list \<Rightarrow> nat set \<Rightarrow> project_state \<Rightarrow> nat + project_state" where
  "project_loop s x [] visited p = Inr p"
| "project_loop s x (row_id # row_ids) visited p =
     (if row_id \<in> visited then project_loop s x row_ids visited p
      else if \<not> m_alive (m_rows s ! row_id) then project_loop s x row_ids (insert row_id visited) p
      else
        (let a = get_coefficient s row_id x in
         if a = 0 then project_loop s x row_ids (insert row_id visited) p
         else if m_type (m_rows s ! row_id) = t_eq then Inl row_id
         else project_loop s x row_ids (insert row_id visited) (project_row s x row_id a p)))"

definition project_row_index :: "project_state \<Rightarrow> nat" where
  "project_row_index p =
     (if length (lub_rows p) \<le> length (glb_rows p) then lub_index p else glb_index p)"

definition project :: "nat \<Rightarrow> model_based_opt \<Rightarrow> model_based_opt" where
  "project x s =
     (case project_loop s x (m_var2row_ids s ! x) {} project_init of
        Inl row_id \<Rightarrow> solve_for row_id x s
      | Inr p \<Rightarrow>
          (let row_index = project_row_index p;
               rows = glb_rows p @ lub_rows p
           in if row_index = UINT_MAX then fold kill_row rows s
              else
                (let coeff = get_coefficient s row_index x;
                     s' = fold (\<lambda>row_id s. if row_id \<noteq> row_index
                                            then resolve row_index coeff row_id x s else s) rows s
                 in kill_row row_index s')))"

definition project_vars :: "nat list \<Rightarrow> model_based_opt \<Rightarrow> model_based_opt" where
  \<comment> \<open>\<^verbatim>\<open>project(num_vars, vars)\<close>\<close>
  "project_vars vars s = fold project vars s"

section \<open>Specification-level notions\<close>

fun coeff_of :: "var list \<Rightarrow> nat \<Rightarrow> rat" where
  "coeff_of [] x = 0"
| "coeff_of (v # vs) x = (if m_id v = x then var.m_coeff v else coeff_of vs x)"

definition vars_ok :: "var list \<Rightarrow> bool" where
  "vars_ok vs \<longleftrightarrow> sorted_wrt (<) (map m_id vs) \<and> (\<forall>v\<in>set vs. var.m_coeff v \<noteq> 0)"

definition cons_nonzero :: "var \<Rightarrow> rat \<Rightarrow> var list \<Rightarrow> var list" where
  "cons_nonzero x coeff vs = (if coeff = 0 then vs else x\<lparr>var.m_coeff := coeff\<rparr> # vs)"

fun merge_vars :: "rat \<Rightarrow> var list \<Rightarrow> var list \<Rightarrow> var list" where
  "merge_vars c xs [] = xs"
| "merge_vars c [] (y # ys) = scale_var c y # merge_vars c [] ys"
| "merge_vars c (x # xs) (y # ys) =
     (if m_id x = m_id y then
        cons_nonzero x (var.m_coeff x + c * var.m_coeff y) (merge_vars c xs ys)
      else if m_id x < m_id y then x # merge_vars c xs (y # ys)
      else scale_var c y # merge_vars c (x # xs) ys)"

fun merge_ids :: "nat \<Rightarrow> var list \<Rightarrow> var list \<Rightarrow> nat list list \<Rightarrow> nat list list" where
  "merge_ids row_id1 xs [] idx = idx"
| "merge_ids row_id1 [] (y # ys) idx = merge_ids row_id1 [] ys (push_row_id row_id1 (m_id y) idx)"
| "merge_ids row_id1 (x # xs) (y # ys) idx =
     (if m_id x = m_id y then merge_ids row_id1 xs ys idx
      else if m_id x < m_id y then merge_ids row_id1 xs (y # ys) idx
      else merge_ids row_id1 (x # xs) ys (push_row_id row_id1 (m_id y) idx))"

definition row_sum :: "rat list \<Rightarrow> var list \<Rightarrow> rat" where
  "row_sum vals vs = (\<Sum>v\<leftarrow>vs. var.m_coeff v * (vals ! m_id v))"

definition bound_val :: "model_based_opt \<Rightarrow> nat \<Rightarrow> nat \<Rightarrow> rat" where
  "bound_val s x i = m_var2value s ! x - m_value (m_rows s ! i) / get_coefficient s i x"

definition is_candidate :: "model_based_opt \<Rightarrow> nat \<Rightarrow> bool \<Rightarrow> nat \<Rightarrow> bool" where
  "is_candidate s x is_pos i \<longleftrightarrow>
     m_alive (m_rows s ! i) \<and> get_coefficient s i x \<noteq> 0 \<and>
     ((0 < get_coefficient s i x) = is_pos \<or> m_type (m_rows s ! i) = t_eq)"

definition is_opposite :: "model_based_opt \<Rightarrow> nat \<Rightarrow> bool \<Rightarrow> nat \<Rightarrow> bool" where
  "is_opposite s x is_pos i \<longleftrightarrow>
     m_alive (m_rows s ! i) \<and> get_coefficient s i x \<noteq> 0 \<and>
     \<not> ((0 < get_coefficient s i x) = is_pos \<or> m_type (m_rows s ! i) = t_eq)"

definition tightest :: "model_based_opt \<Rightarrow> nat \<Rightarrow> bool \<Rightarrow> nat \<Rightarrow> nat \<Rightarrow> bool" where
  \<comment> \<open>row \<open>p\<close> is at least as tight as row \<open>i\<close>, and strict if \<open>i\<close> is strict on a tie\<close>
  "tightest s x is_pos p i \<longleftrightarrow>
     (if is_pos then bound_val s x p \<le> bound_val s x i else bound_val s x i \<le> bound_val s x p) \<and>
     (bound_val s x i = bound_val s x p \<and> m_type (m_rows s ! i) = t_lt \<longrightarrow> m_type (m_rows s ! p) = t_lt)"

definition find_bound_inv :: "model_based_opt \<Rightarrow> nat \<Rightarrow> bool \<Rightarrow> nat set \<Rightarrow> bound_state \<Rightarrow> bool" where
  "find_bound_inv s x is_pos V b \<longleftrightarrow>
     (if bound_row_index b = UINT_MAX then (\<forall>i\<in>V. \<not> is_candidate s x is_pos i) \<and> m_above b = []
      else bound_row_index b \<in> V \<and> is_candidate s x is_pos (bound_row_index b) \<and>
           bound_coeff b = get_coefficient s (bound_row_index b) x \<and>
           bound_state.lub_val b = bound_val s x (bound_row_index b) \<and>
           (\<forall>i\<in>V. is_candidate s x is_pos i \<longrightarrow> tightest s x is_pos (bound_row_index b) i)) \<and>
     set (m_above b) = {i\<in>V. is_candidate s x is_pos i \<and> i \<noteq> bound_row_index b} \<and>
     distinct (m_above b) \<and>
     set (m_below b) = {i\<in>V. is_opposite s x is_pos i} \<and>
     distinct (m_below b)"

definition row_invariant :: "model_based_opt \<Rightarrow> row \<Rightarrow> bool" where
  "row_invariant s r \<longleftrightarrow> vars_ok (m_vars r) \<and> m_value r = get_row_value s r"

definition satisfied :: "row \<Rightarrow> bool" where
  "satisfied r \<longleftrightarrow>
     (m_type r = t_eq \<longrightarrow> m_value r = 0) \<and>
     (m_type r = t_lt \<longrightarrow> m_value r < 0) \<and>
     (m_type r = t_le \<longrightarrow> m_value r \<le> 0)"

definition invariant_row :: "model_based_opt \<Rightarrow> nat \<Rightarrow> row \<Rightarrow> bool" where
  "invariant_row s index r \<longleftrightarrow>
     vars_ok (m_vars r) \<and>
     m_value r = get_row_value s r \<and>
     (m_type r \<noteq> t_eq \<or> m_value r = 0) \<and>
     (index = 0 \<or> m_type r \<noteq> t_lt \<or> m_value r < 0) \<and>
     (index = 0 \<or> m_type r \<noteq> t_le \<or> \<not> 0 < m_value r)"

text \<open>Well-formedness of the storage. The row store holds at least the objective row and
  fewer rows than \<^verbatim>\<open>UINT_MAX\<close>, so that no row id is the sentinel; the index has one list
  per variable; the index lists hold ids of existing constraint rows, never row 0; every
  variable of a row has been declared, and a constraint row is listed in the index under each
  of its variables; the objective row is live or still empty. The constructor establishes
  these properties and every public operation preserves them.\<close>

definition wf :: "model_based_opt \<Rightarrow> bool" where
  "wf s \<longleftrightarrow>
     m_rows s \<noteq> [] \<and>
     length (m_rows s) \<le> UINT_MAX \<and>
     length (m_var2row_ids s) = length (m_var2value s) \<and>
     (\<forall>x<length (m_var2row_ids s). \<forall>i\<in>set (m_var2row_ids s ! x). 0 < i \<and> i < length (m_rows s)) \<and>
     (\<forall>i<length (m_rows s). \<forall>v\<in>set (m_vars (m_rows s ! i)).
        m_id v < length (m_var2value s) \<and> (0 < i \<longrightarrow> i \<in> set (m_var2row_ids s ! m_id v))) \<and>
     (m_alive (m_rows s ! 0) \<or> m_vars (m_rows s ! 0) = [])"

text \<open>The two invariants of the tableau: the row invariant for every live row and the
  satisfaction invariant for every live row other than the objective.\<close>

definition tableau_invariant :: "model_based_opt \<Rightarrow> bool" where
  "tableau_invariant s \<longleftrightarrow>
     (\<forall>i<length (m_rows s). m_alive (m_rows s ! i) \<longrightarrow> row_invariant s (m_rows s ! i)) \<and>
     (\<forall>i<length (m_rows s). 0 < i \<and> m_alive (m_rows s ! i) \<longrightarrow> satisfied (m_rows s ! i))"

definition mul_add_row :: "bool \<Rightarrow> rat \<Rightarrow> row \<Rightarrow> row \<Rightarrow> row" where
  "mul_add_row same_sign c r1 r2 =
     r1\<lparr>m_vars := merge_vars c (m_vars r1) (m_vars r2),
        row.m_coeff := row.m_coeff r1 + c * row.m_coeff r2,
        m_type := mul_add_type same_sign (m_type r1) (m_type r2),
        m_value := m_value r1 + c * m_value r2\<rparr>"

definition resolve_row :: "bool \<Rightarrow> rat \<Rightarrow> nat \<Rightarrow> row \<Rightarrow> row \<Rightarrow> row" where
  "resolve_row is_obj a1 x src dst =
     (let a2 = coeff_of (m_vars dst) x in
      if - a2 / a1 = 0 then dst
      else mul_add_row (\<not> is_obj \<and> (0 < a1) = (0 < a2)) (- a2 / a1) dst src)"






definition sat_rel :: "ineq_type \<Rightarrow> rat \<Rightarrow> bool" where
  "sat_rel t v = (case t of t_eq \<Rightarrow> v = 0 | t_lt \<Rightarrow> v < 0 | t_le \<Rightarrow> v \<le> 0)"

text \<open>The row ids of a list in order of first occurrence, without those already visited:
  the rows that a scan with a visited-set processes.\<close>

fun dedup :: "nat list \<Rightarrow> nat set \<Rightarrow> nat list" where
  "dedup [] V = []"
| "dedup (i # ids) V = (if i \<in> V then dedup ids V else i # dedup ids (insert i V))"

definition mentions :: "model_based_opt \<Rightarrow> nat \<Rightarrow> bool" where
  \<comment> \<open>variable \<open>z\<close> occurs in the objective or in a live row\<close>
  "mentions s z \<longleftrightarrow>
     (\<exists>i<length (m_rows s). (i = 0 \<or> m_alive (m_rows s ! i)) \<and> z \<in> m_id ` set (m_vars (m_rows s ! i)))"

text \<open>State \<open>s'\<close> is state \<open>s\<close> with every live row of \<open>D\<close> replaced by its resolvent
  against row \<open>src\<close> on variable \<open>x\<close>; the model is unchanged and the index has grown by
  row ids of \<open>D\<close> only.\<close>

definition resolved ::
  "nat \<Rightarrow> rat \<Rightarrow> nat \<Rightarrow> nat set \<Rightarrow> model_based_opt \<Rightarrow> model_based_opt \<Rightarrow> bool" where
  "resolved src a1 x D s s' \<longleftrightarrow>
     m_var2value s' = m_var2value s \<and>
     length (m_rows s') = length (m_rows s) \<and>
     length (m_var2row_ids s') = length (m_var2row_ids s) \<and>
     (\<forall>i<length (m_rows s).
        m_rows s' ! i =
          (if i \<in> D \<and> m_alive (m_rows s ! i)
           then resolve_row (i = m_objective_id) a1 x (m_rows s ! src) (m_rows s ! i)
           else m_rows s ! i)) \<and>
     (\<forall>w. set (m_var2row_ids s ! w) \<subseteq> set (m_var2row_ids s' ! w) \<and>
          set (m_var2row_ids s' ! w) \<subseteq> set (m_var2row_ids s ! w) \<union> D)"

text \<open>Row \<open>p\<close> is a pivot for eliminating \<open>x\<close> and \<open>D\<close> holds the other rows to be resolved:
  \<open>p\<close> is a live row of the index of \<open>x\<close> with a non-zero coefficient on \<open>x\<close>, and \<open>D\<close>
  is a set of rows of that index that contains every other live row with a non-zero
  coefficient on \<open>x\<close>.\<close>

definition pivot_for :: "model_based_opt \<Rightarrow> nat \<Rightarrow> nat \<Rightarrow> nat set \<Rightarrow> bool" where
  "pivot_for s x p D \<longleftrightarrow>
     x < length (m_var2value s) \<and>
     p \<in> set (m_var2row_ids s ! x) \<and>
     m_alive (m_rows s ! p) \<and>
     get_coefficient s p x \<noteq> 0 \<and>
     p \<notin> D \<and>
     D \<subseteq> set (m_var2row_ids s ! x) \<and>
     {i \<in> set (m_var2row_ids s ! x). m_alive (m_rows s ! i) \<and> get_coefficient s i x \<noteq> 0 \<and> i \<noteq> p} \<subseteq> D"

definition resolvent_satisfied :: "model_based_opt \<Rightarrow> nat \<Rightarrow> nat \<Rightarrow> nat \<Rightarrow> bool" where
  \<comment> \<open>the resolvent of row \<open>i\<close> against the pivot \<open>p\<close> holds in the model\<close>
  "resolvent_satisfied s x p i \<longleftrightarrow>
     sat_rel
       (mul_add_type ((0 < get_coefficient s p x) = (0 < get_coefficient s i x))
          (m_type (m_rows s ! i)) (m_type (m_rows s ! p)))
       (m_value (m_rows s ! i) + (- get_coefficient s i x / get_coefficient s p x) * m_value (m_rows s ! p))"

text \<open>The effect of one successful elimination step on variable \<open>x\<close> with pivot row \<open>p\<close>:
  the invariants are kept, the model is unchanged, exactly the pivot dies, dead rows are not
  touched, and \<open>x\<close> no longer occurs in the objective or in a live row.\<close>

definition step_ok :: "model_based_opt \<Rightarrow> nat \<Rightarrow> nat \<Rightarrow> model_based_opt \<Rightarrow> bool" where
  "step_ok s x p s' \<longleftrightarrow>
     wf s' \<and> tableau_invariant s' \<and>
     m_var2value s' = m_var2value s \<and>
     length (m_rows s') = length (m_rows s) \<and>
     0 < p \<and> p < length (m_rows s) \<and> m_alive (m_rows s ! p) \<and>
     m_rows s' ! p = (m_rows s ! p)\<lparr>m_alive := False\<rparr> \<and>
     (\<forall>i<length (m_rows s). i \<noteq> p \<longrightarrow> m_alive (m_rows s' ! i) = m_alive (m_rows s ! i)) \<and>
     (\<forall>i<length (m_rows s). \<not> m_alive (m_rows s ! i) \<longrightarrow> m_rows s' ! i = m_rows s ! i) \<and>
     \<not> mentions s' x \<and>
     (\<forall>z. mentions s' z \<longrightarrow> mentions s z)"

text \<open>State \<open>s'\<close> has the rows of \<open>s\<close> up to their cached values, the same index and as many
  variables.\<close>

definition same_shape :: "model_based_opt \<Rightarrow> model_based_opt \<Rightarrow> bool" where
  "same_shape s s' \<longleftrightarrow>
     m_var2row_ids s' = m_var2row_ids s \<and>
     length (m_rows s') = length (m_rows s) \<and>
     length (m_var2value s') = length (m_var2value s) \<and>
     (\<forall>i<length (m_rows s). m_rows s' ! i = (m_rows s ! i)\<lparr>m_value := m_value (m_rows s' ! i)\<rparr>)"

definition agree_off :: "nat set \<Rightarrow> model_based_opt \<Rightarrow> model_based_opt \<Rightarrow> bool" where
  \<comment> \<open>the models agree outside the variables of \<open>X\<close>\<close>
  "agree_off X s s' \<longleftrightarrow> (\<forall>z. z \<notin> X \<longrightarrow> m_var2value s' ! z = m_var2value s ! z)"

definition value_ok :: "model_based_opt \<Rightarrow> nat \<Rightarrow> bool" where
  \<comment> \<open>the cached value of row \<open>i\<close> is its value in the model\<close>
  "value_ok s i \<longleftrightarrow> m_value (m_rows s ! i) = get_row_value s (m_rows s ! i)"

definition free_of :: "nat set \<Rightarrow> model_based_opt \<Rightarrow> nat \<Rightarrow> bool" where
  \<comment> \<open>row \<open>i\<close> has no variable of \<open>X\<close>\<close>
  "free_of X s i \<longleftrightarrow> (\<forall>v\<in>set (m_vars (m_rows s ! i)). m_id v \<notin> X)"

text \<open>The states of the main loop of \<^verbatim>\<open>maximize\<close> started in \<open>s\<close>: the tableau together
  with \<^verbatim>\<open>bound_trail\<close> and \<^verbatim>\<open>bound_vars\<close> at the head of an iteration.\<close>

inductive maximize_reaches ::
  "model_based_opt \<Rightarrow> model_based_opt \<Rightarrow> nat list \<Rightarrow> nat list \<Rightarrow> bool" for s where
  start: "maximize_reaches s s [] []"
| iterate: "maximize_reaches s s1 bound_trail bound_vars \<Longrightarrow> m_vars (objective s1) \<noteq> [] \<Longrightarrow>
     maximize_step s1 = Some (p, x, s2) \<Longrightarrow>
     maximize_reaches s s2 (bound_trail @ [p]) (bound_vars @ [x])"

definition live_rows :: "model_based_opt \<Rightarrow> nat set" where
  "live_rows s = {i. i < length (m_rows s) \<and> m_alive (m_rows s ! i)}"

definition loop_inv :: "model_based_opt \<Rightarrow> nat list \<Rightarrow> nat list \<Rightarrow> bool" where
  "loop_inv s bound_trail bound_vars \<longleftrightarrow>
     wf s \<and> tableau_invariant s \<and>
     length bound_vars = length bound_trail \<and>
     (\<forall>z\<in>set bound_vars. \<not> mentions s z) \<and>
     (\<forall>i\<in>set bound_trail. 0 < i \<and> i < length (m_rows s) \<and> \<not> m_alive (m_rows s ! i))"

definition all_rows_invariant :: "model_based_opt \<Rightarrow> bool" where
  \<comment> \<open>the row invariant for every row, dead rows included\<close>
  "all_rows_invariant s \<longleftrightarrow> (\<forall>i<length (m_rows s). row_invariant s (m_rows s ! i))"

definition residual_result :: "model_based_opt \<Rightarrow> inf_eps" where
  \<comment> \<open>the objective's residual constant, exact for \<open>Le\<close> and infinitesimally below for \<open>Lt\<close>\<close>
  "residual_result s =
     inf_rational (row.m_coeff (objective s)) (if m_type (objective s) = t_lt then - 1 else 0)"

text \<open>The upper-bound and lower-bound rows of \<open>x\<close>: live rows with a positive, respectively
  negative, coefficient on \<open>x\<close>.\<close>

definition is_upper :: "model_based_opt \<Rightarrow> nat \<Rightarrow> nat \<Rightarrow> bool" where
  "is_upper s x i \<longleftrightarrow> m_alive (m_rows s ! i) \<and> 0 < get_coefficient s i x"

definition is_lower :: "model_based_opt \<Rightarrow> nat \<Rightarrow> nat \<Rightarrow> bool" where
  "is_lower s x i \<longleftrightarrow> m_alive (m_rows s ! i) \<and> get_coefficient s i x < 0"

definition is_equality :: "model_based_opt \<Rightarrow> nat \<Rightarrow> nat \<Rightarrow> bool" where
  "is_equality s x i \<longleftrightarrow>
     m_alive (m_rows s ! i) \<and> get_coefficient s i x \<noteq> 0 \<and> m_type (m_rows s ! i) = t_eq"

definition project_inv :: "model_based_opt \<Rightarrow> nat \<Rightarrow> nat set \<Rightarrow> project_state \<Rightarrow> bool" where
  "project_inv s x V p \<longleftrightarrow>
     (\<forall>i\<in>V. \<not> is_equality s x i) \<and>
     set (lub_rows p) = {i\<in>V. is_upper s x i} \<and> distinct (lub_rows p) \<and>
     set (glb_rows p) = {i\<in>V. is_lower s x i} \<and> distinct (glb_rows p) \<and>
     (if lub_rows p = [] then lub_index p = UINT_MAX
      else lub_index p \<in> V \<and> is_upper s x (lub_index p) \<and>
           lub_val p = bound_val s x (lub_index p) \<and>
           lub_strict p = (m_type (m_rows s ! lub_index p) = t_lt) \<and>
           (\<forall>i\<in>V. is_upper s x i \<longrightarrow> tightest s x True (lub_index p) i)) \<and>
     (if glb_rows p = [] then glb_index p = UINT_MAX
      else glb_index p \<in> V \<and> is_lower s x (glb_index p) \<and>
           glb_val p = bound_val s x (glb_index p) \<and>
           glb_strict p = (m_type (m_rows s ! glb_index p) = t_lt) \<and>
           (\<forall>i\<in>V. is_lower s x i \<longrightarrow> tightest s x False (glb_index p) i))"

text \<open>What a projection of \<open>x\<close> guarantees: the invariants, an unchanged model and objective
  row, no revived and no modified dead row, no new variable, and no occurrence of \<open>x\<close> in a
  live row other than the objective.\<close>

definition project_ok :: "model_based_opt \<Rightarrow> nat \<Rightarrow> model_based_opt \<Rightarrow> bool" where
  "project_ok s x s' \<longleftrightarrow>
     wf s' \<and> tableau_invariant s' \<and>
     m_var2value s' = m_var2value s \<and>
     length (m_rows s') = length (m_rows s) \<and>
     m_rows s' ! 0 = m_rows s ! 0 \<and>
     (\<forall>i<length (m_rows s). m_alive (m_rows s' ! i) \<longrightarrow> m_alive (m_rows s ! i)) \<and>
     (\<forall>i<length (m_rows s). \<not> m_alive (m_rows s ! i) \<longrightarrow> m_rows s' ! i = m_rows s ! i) \<and>
     (\<forall>i<length (m_rows s). 0 < i \<and> m_alive (m_rows s' ! i) \<longrightarrow>
        x \<notin> m_id ` set (m_vars (m_rows s' ! i))) \<and>
     (\<forall>z. mentions s' z \<longrightarrow> mentions s z)"

definition killed :: "nat set \<Rightarrow> model_based_opt \<Rightarrow> model_based_opt \<Rightarrow> bool" where
  \<comment> \<open>\<open>s'\<close> is \<open>s\<close> with exactly the rows of \<open>D\<close> marked dead\<close>
  "killed D s s' \<longleftrightarrow>
     m_var2value s' = m_var2value s \<and>
     m_var2row_ids s' = m_var2row_ids s \<and>
     length (m_rows s') = length (m_rows s) \<and>
     (\<forall>i<length (m_rows s).
        m_rows s' ! i = (if i \<in> D then (m_rows s ! i)\<lparr>m_alive := False\<rparr> else m_rows s ! i))"

definition upper_rows :: "model_based_opt \<Rightarrow> nat \<Rightarrow> nat set" where
  "upper_rows s x = set (filter (is_upper s x) (m_var2row_ids s ! x))"

definition lower_rows :: "model_based_opt \<Rightarrow> nat \<Rightarrow> nat set" where
  "lower_rows s x = set (filter (is_lower s x) (m_var2row_ids s ! x))"

definition equality_rows :: "model_based_opt \<Rightarrow> nat \<Rightarrow> nat list" where
  "equality_rows s x = filter (is_equality s x) (m_var2row_ids s ! x)"

text \<open>What the callers of \<^verbatim>\<open>add_constraint\<close> and \<^verbatim>\<open>set_objective\<close> must supply: each
  variable at most once, with a non-zero coefficient, and declared by \<^verbatim>\<open>add_var\<close>.\<close>

definition coeffs_ok :: "model_based_opt \<Rightarrow> var list \<Rightarrow> bool" where
  "coeffs_ok s coeffs \<longleftrightarrow>
     distinct (map m_id coeffs) \<and>
     (\<forall>v\<in>set coeffs. var.m_coeff v \<noteq> 0 \<and> m_id v < length (m_var2value s))"

section \<open>Concrete tableaux\<close>

definition mk_var :: "nat \<Rightarrow> rat \<Rightarrow> var" where
  "mk_var i c = \<lparr>m_id = i, var.m_coeff = c\<rparr>"

definition mk_row :: "var list \<Rightarrow> rat \<Rightarrow> ineq_type \<Rightarrow> rat \<Rightarrow> bool \<Rightarrow> row" where
  "mk_row vs c rel val alive =
     \<lparr>m_vars = vs, row.m_coeff = c, m_type = rel, m_value = val, m_alive = alive\<rparr>"

text \<open>Maximize \<open>x\<close> subject to \<open>x \<le> 2y\<close>, \<open>x \<le> y + 5\<close>, \<open>x \<le> 20 - y\<close>, at the model
  \<open>x = 0, y = 0\<close> (variable 0 is \<open>x\<close>, variable 1 is \<open>y\<close>).\<close>

definition lp_tableau :: model_based_opt where
  "lp_tableau =
     \<lparr>m_rows =
        [mk_row [mk_var 0 1] 0 t_le 0 True,
         mk_row [mk_var 0 1, mk_var 1 (- 2)] 0 t_le 0 True,
         mk_row [mk_var 0 1, mk_var 1 (- 1)] (- 5) t_le (- 5) True,
         mk_row [mk_var 0 1, mk_var 1 1] (- 20) t_le (- 20) True],
      m_var2value = [0, 0],
      m_var2row_ids = [[1, 2, 3], [1, 2, 3]]\<rparr>"

text \<open>Maximize \<open>x - 3y\<close> subject to \<open>x < y\<close> and \<open>y \<ge> 0\<close>, at the model \<open>y = 1, x = 0\<close>
  (variable 0 is \<open>y\<close>, variable 1 is \<open>x\<close>).\<close>

definition strict_tableau :: model_based_opt where
  "strict_tableau =
     \<lparr>m_rows =
        [mk_row [mk_var 0 (- 3), mk_var 1 1] 0 t_le (- 3) True,
         mk_row [mk_var 0 (- 1), mk_var 1 1] 0 t_lt (- 1) True,
         mk_row [mk_var 0 (- 1)] 0 t_le (- 1) True],
      m_var2value = [1, 0],
      m_var2row_ids = [[1, 2], [1]]\<rparr>"

text \<open>The rows \<open>x \<le> 5\<close>, \<open>x \<le> 7\<close>, \<open>x \<ge> -3\<close>, \<open>x \<ge> -4\<close>, \<open>x \<ge> -6\<close> at the model \<open>x = 0\<close>;
  no objective has been set.\<close>

definition project_tableau :: model_based_opt where
  "project_tableau =
     \<lparr>m_rows =
        [default_row,
         mk_row [mk_var 0 1] (- 5) t_le (- 5) True,
         mk_row [mk_var 0 1] (- 7) t_le (- 7) True,
         mk_row [mk_var 0 (- 1)] (- 3) t_le (- 3) True,
         mk_row [mk_var 0 (- 1)] (- 4) t_le (- 4) True,
         mk_row [mk_var 0 (- 1)] (- 6) t_le (- 6) True],
      m_var2value = [0],
      m_var2row_ids = [[1, 2, 3, 4, 5]]\<rparr>"

text \<open>Maximize \<open>z\<close> subject to \<open>x + y + z \<le> 0\<close> at the model \<open>x = y = z = 0\<close>.\<close>

definition grow_tableau :: model_based_opt where
  "grow_tableau =
     \<lparr>m_rows =
        [mk_row [mk_var 2 1] 0 t_le 0 True,
         mk_row [mk_var 0 1, mk_var 1 1, mk_var 2 1] 0 t_le 0 True],
      m_var2value = [0, 0, 0],
      m_var2row_ids = [[1], [1], [1]]\<rparr>"




definition strict_tableau_1 :: model_based_opt where
  "strict_tableau_1 =
     \<lparr>m_rows =
        [mk_row [mk_var 0 (- 2)] 0 t_lt (- 2) True,
         mk_row [mk_var 0 (- 1), mk_var 1 1] 0 t_lt (- 1) False,
         mk_row [mk_var 0 (- 1)] 0 t_le (- 1) True],
      m_var2value = [1, 0],
      m_var2row_ids = [[1, 2], [1]]\<rparr>"

definition strict_tableau_2 :: model_based_opt where
  "strict_tableau_2 =
     \<lparr>m_rows =
        [mk_row [] 0 t_lt 0 True,
         mk_row [mk_var 0 (- 1), mk_var 1 1] 0 t_lt (- 1) False,
         mk_row [mk_var 0 (- 1)] 0 t_le (- 1) False],
      m_var2value = [1, 0],
      m_var2row_ids = [[1, 2], [1]]\<rparr>"

definition strict_tableau_final :: model_based_opt where
  "strict_tableau_final =
     \<lparr>m_rows =
        [mk_row [] 0 t_lt 0 True,
         mk_row [mk_var 0 (- 1), mk_var 1 1] 0 t_lt 0 False,
         mk_row [mk_var 0 (- 1)] 0 t_le 0 False],
      m_var2value = [0, 0],
      m_var2row_ids = [[1, 2], [1]]\<rparr>"

text \<open>The rows \<open>x = y\<close>, \<open>x \<le> 5\<close>, \<open>x + y \<ge> 1\<close> at the model \<open>x = 1, y = 1\<close> (variable 0 is
  \<open>x\<close>, variable 1 is \<open>y\<close>); no objective has been set.\<close>

definition equality_tableau :: model_based_opt where
  "equality_tableau =
     \<lparr>m_rows =
        [default_row,
         mk_row [mk_var 0 1, mk_var 1 (- 1)] 0 t_eq 0 True,
         mk_row [mk_var 0 1] (- 5) t_le (- 4) True,
         mk_row [mk_var 0 (- 1), mk_var 1 (- 1)] 1 t_le (- 1) True],
      m_var2value = [1, 1],
      m_var2row_ids = [[1, 2, 3], [1, 3]]\<rparr>"

text \<open>Maximize \<open>x + y\<close> subject to \<open>y \<le> x\<close> and \<open>y \<le> 10\<close> at the model \<open>x = 0, y = 0\<close>
  (variable 0 is \<open>x\<close>, variable 1 is \<open>y\<close>).\<close>

definition late_bound_tableau :: model_based_opt where
  "late_bound_tableau =
     \<lparr>m_rows =
        [mk_row [mk_var 0 1, mk_var 1 1] 0 t_le 0 True,
         mk_row [mk_var 0 (- 1), mk_var 1 1] 0 t_le 0 True,
         mk_row [mk_var 1 1] (- 10) t_le (- 10) True],
      m_var2value = [0, 0],
      m_var2row_ids = [[1], [1, 2]]\<rparr>"

definition late_bound_tableau_1 :: model_based_opt where
  "late_bound_tableau_1 =
     \<lparr>m_rows =
        [mk_row [mk_var 0 2] 0 t_le 0 True,
         mk_row [mk_var 0 (- 1), mk_var 1 1] 0 t_le 0 False,
         mk_row [mk_var 0 1] (- 10) t_le (- 10) True],
      m_var2value = [0, 0],
      m_var2row_ids = [[1, 2], [1, 2]]\<rparr>"

definition late_bound_tableau_2 :: model_based_opt where
  "late_bound_tableau_2 =
     \<lparr>m_rows =
        [mk_row [] 20 t_le 20 True,
         mk_row [mk_var 0 (- 1), mk_var 1 1] 0 t_le 0 False,
         mk_row [mk_var 0 1] (- 10) t_le (- 10) False],
      m_var2value = [0, 0],
      m_var2row_ids = [[1, 2], [1, 2]]\<rparr>"

definition late_bound_tableau_final :: model_based_opt where
  "late_bound_tableau_final =
     \<lparr>m_rows =
        [mk_row [] 20 t_le 20 True,
         mk_row [mk_var 0 (- 1), mk_var 1 1] 0 t_le 0 False,
         mk_row [mk_var 0 1] (- 10) t_le 0 False],
      m_var2value = [10, 10],
      m_var2row_ids = [[1, 2], [1, 2]]\<rparr>"

text \<open>The tableau \<open>project_tableau\<close> with a second variable that no row mentions.\<close>

definition spare_tableau :: model_based_opt where
  "spare_tableau = snd (add_var 0 project_tableau)"

text \<open>The tableau \<open>grow_tableau\<close> after the first iteration of \<^verbatim>\<open>maximize\<close>.\<close>

definition grow_tableau_1 :: model_based_opt where
  "grow_tableau_1 =
     \<lparr>m_rows =
        [mk_row [mk_var 0 (- 1), mk_var 1 (- 1)] 0 t_le 0 True,
         mk_row [mk_var 0 1, mk_var 1 1, mk_var 2 1] 0 t_le 0 False],
      m_var2value = [0, 0, 0],
      m_var2row_ids = [[1], [1], [1]]\<rparr>"

section \<open>Lemmas about the primitives\<close>

lemma coeff_of_notin: "x \<notin> m_id ` set vs \<Longrightarrow> coeff_of vs x = 0"
  by (induction vs) auto

lemma coeff_of_nth:
  "distinct (map m_id vs) \<Longrightarrow> k < length vs \<Longrightarrow> coeff_of vs (m_id (vs ! k)) = var.m_coeff (vs ! k)"
proof (induction vs arbitrary: k)
  case Nil
  then show ?case by simp
next
  case (Cons v vs)
  show ?case
  proof (cases k)
    case 0
    then show ?thesis by simp
  next
    case (Suc j)
    with Cons.prems have "j < length vs" and "m_id (vs ! j) \<in> m_id ` set vs" by auto
    with Cons.prems have "m_id v \<noteq> m_id (vs ! j)" by auto
    with Cons Suc show ?thesis by simp
  qed
qed

lemma coeff_of_nonzero_iff:
  "vars_ok vs \<Longrightarrow> coeff_of vs x \<noteq> 0 \<longleftrightarrow> x \<in> m_id ` set vs"
proof (induction vs)
  case Nil
  then show ?case by simp
next
  case (Cons v vs)
  then have "vars_ok vs" by (simp add: vars_ok_def)
  with Cons show ?case by (auto simp: vars_ok_def)
qed

lemma sorted_ids_distinct: "sorted_wrt (<) (map m_id vs) \<Longrightarrow> distinct (map m_id vs)"
  by (simp add: strict_sorted_iff)

lemma bsearch_spec:
  assumes "sorted_wrt (<) (map m_id vs)" "lo \<le> hi" "hi \<le> length vs"
    and "\<forall>k<lo. m_id (vs ! k) < x"
    and "\<forall>k. hi \<le> k \<and> k < length vs \<longrightarrow> x < m_id (vs ! k)"
  shows "bsearch vs x lo hi \<le> length vs \<and>
         (bsearch vs x lo hi < length vs \<and> m_id (vs ! bsearch vs x lo hi) = x \<or> x \<notin> m_id ` set vs)"
  using assms
proof (induction vs x lo hi rule: bsearch.induct)
  case (1 vs var_id lo hi)
  let ?mid = "lo + (hi - lo) div 2"
  have sorted: "\<And>i j. i < j \<Longrightarrow> j < length vs \<Longrightarrow> m_id (vs ! i) < m_id (vs ! j)"
    using "1.prems"(1) by (simp add: sorted_wrt_iff_nth_less)
  show ?case
  proof (cases "lo < hi")
    case False
    with "1.prems" have eq: "lo = hi" by simp
    have "var_id \<notin> m_id ` set vs" if "\<not> (lo < length vs \<and> m_id (vs ! lo) = var_id)"
    proof
      assume "var_id \<in> m_id ` set vs"
      then obtain k where k: "k < length vs" "m_id (vs ! k) = var_id"
        by (auto simp: in_set_conv_nth)
      show False
      proof (cases "k < lo")
        case True
        with "1.prems"(4) k show False by auto
      next
        case False
        from "1.prems"(5) have "hi \<le> k \<and> k < length vs \<longrightarrow> var_id < m_id (vs ! k)" by blast
        with False eq k show False by simp
      qed
    qed
    note notin = this
    have res: "bsearch vs var_id lo hi = lo"
      using False by (subst bsearch.simps) simp
    show ?thesis
    proof (cases "lo < length vs \<and> m_id (vs ! lo) = var_id")
      case True
      with res show ?thesis by simp
    next
      case False
      from notin[OF False] eq "1.prems"(3) res show ?thesis by simp
    qed
  next
    case True
    then have mid: "lo \<le> ?mid" "?mid < hi" by auto
    with "1.prems" have midlen: "?mid < length vs" by simp
    consider (eq) "m_id (vs ! ?mid) = var_id" | (lt) "m_id (vs ! ?mid) < var_id"
      | (gt) "var_id < m_id (vs ! ?mid)" by linarith
    then show ?thesis
    proof cases
      case eq
      with True midlen show ?thesis
        by (subst (1 2 3) bsearch.simps) (simp add: Let_def)
    next
      case lt
      have a: "\<forall>k<?mid + 1. m_id (vs ! k) < var_id"
      proof (intro allI impI)
        fix k assume "k < ?mid + 1"
        then have "k = ?mid \<or> k < ?mid" by auto
        with lt sorted[of k ?mid] midlen show "m_id (vs ! k) < var_id" by auto
      qed
      have "bsearch vs var_id (?mid + 1) hi \<le> length vs \<and>
         (bsearch vs var_id (?mid + 1) hi < length vs \<and> m_id (vs ! bsearch vs var_id (?mid + 1) hi) = var_id
            \<or> var_id \<notin> m_id ` set vs)"
        using "1.IH"(1)[OF True refl refl _ _ "1.prems"(1) _ "1.prems"(3) a "1.prems"(5)] lt mid
        by auto
      moreover have "bsearch vs var_id lo hi = bsearch vs var_id (?mid + 1) hi"
        using True lt by (subst bsearch.simps) (simp add: Let_def)
      ultimately show ?thesis by simp
    next
      case gt
      have b: "\<forall>k. ?mid \<le> k \<and> k < length vs \<longrightarrow> var_id < m_id (vs ! k)"
      proof (intro allI impI)
        fix k assume "?mid \<le> k \<and> k < length vs"
        then have "k = ?mid \<or> (?mid < k \<and> k < length vs)" by auto
        with gt sorted[of ?mid k] show "var_id < m_id (vs ! k)" by auto
      qed
      have "bsearch vs var_id lo ?mid \<le> length vs \<and>
         (bsearch vs var_id lo ?mid < length vs \<and> m_id (vs ! bsearch vs var_id lo ?mid) = var_id
            \<or> var_id \<notin> m_id ` set vs)"
        using "1.IH"(2)[OF True refl refl _ _ "1.prems"(1) _ _ "1.prems"(4) b] gt mid midlen
        by auto
      moreover have "bsearch vs var_id lo hi = bsearch vs var_id lo ?mid"
        using True gt by (subst bsearch.simps) (simp add: Let_def)
      ultimately show ?thesis by simp
    qed
  qed
qed

lemma get_coefficient_coeff_of:
  assumes "sorted_wrt (<) (map m_id (m_vars (m_rows s ! row_id)))"
  shows "get_coefficient s row_id x = coeff_of (m_vars (m_rows s ! row_id)) x"
proof -
  let ?vs = "m_vars (m_rows s ! row_id)"
  let ?r = "bsearch ?vs x 0 (length ?vs)"
  have spec: "?r \<le> length ?vs \<and> (?r < length ?vs \<and> m_id (?vs ! ?r) = x \<or> x \<notin> m_id ` set ?vs)"
    using bsearch_spec[OF assms, of 0 "length ?vs" x] by simp
  show ?thesis
  proof (cases "?r < length ?vs \<and> m_id (?vs ! ?r) = x")
    case True
    then have "coeff_of ?vs x = var.m_coeff (?vs ! ?r)"
      using coeff_of_nth[OF sorted_ids_distinct[OF assms], of ?r] by simp
    with True show ?thesis by (auto simp: get_coefficient_def Let_def)
  next
    case False
    with spec have "x \<notin> m_id ` set ?vs" by blast
    then have "coeff_of ?vs x = 0" by (rule coeff_of_notin)
    with False spec show ?thesis by (auto simp: get_coefficient_def Let_def)
  qed
qed

lemma row_sum_simps [simp]:
  "row_sum vals [] = 0"
  "row_sum vals (v # vs) = var.m_coeff v * (vals ! m_id v) + row_sum vals vs"
  by (simp_all add: row_sum_def)

lemma get_row_value_loop_sum: "get_row_value_loop vals vs val = val + row_sum vals vs"
  by (induction vs arbitrary: val) (simp_all add: algebra_simps)

lemma get_row_value_sum: "get_row_value s r = row.m_coeff r + row_sum (m_var2value s) (m_vars r)"
  by (simp add: get_row_value_def get_row_value_loop_sum)

lemma set_row_val_sum: "set_row_val vals vs val = val + row_sum vals vs"
  by (induction vs arbitrary: val) (simp_all add: algebra_simps)

lemma mul_add_loop_eq:
  "mul_add_loop i c xs ys (nv, idx) = (nv @ merge_vars c xs ys, merge_ids i xs ys idx)"
  by (induction i c xs ys "(nv, idx)" arbitrary: nv idx rule: mul_add_loop.induct)
     (simp_all add: Let_def cons_nonzero_def)

lemma merge_vars_ids_elem:
  "v \<in> set (merge_vars c xs ys) \<Longrightarrow> (\<exists>w\<in>set xs. m_id w = m_id v) \<or> (\<exists>w\<in>set ys. m_id w = m_id v)"
  by (induction c xs ys rule: merge_vars.induct)
     (auto simp: scale_var_def cons_nonzero_def split: if_splits)

lemma merge_vars_ids: "m_id ` set (merge_vars c xs ys) \<subseteq> m_id ` set xs \<union> m_id ` set ys"
  using merge_vars_ids_elem[of _ c xs ys] by (auto simp: image_iff) metis+

lemma merge_vars_lower:
  assumes "\<forall>v\<in>set xs. k < m_id v" "\<forall>v\<in>set ys. k < m_id v"
  shows "\<forall>v\<in>set (merge_vars c xs ys). k < m_id v"
proof
  fix v assume "v \<in> set (merge_vars c xs ys)"
  then have "m_id v \<in> m_id ` set xs \<union> m_id ` set ys"
    using merge_vars_ids[of c xs ys] by blast
  then have "(\<exists>w\<in>set xs. m_id v = m_id w) \<or> (\<exists>w\<in>set ys. m_id v = m_id w)" by auto
  with assms show "k < m_id v" by auto
qed

lemma merge_vars_sum:
  "row_sum vals (merge_vars c xs ys) = row_sum vals xs + c * row_sum vals ys"
proof (induction c xs ys rule: merge_vars.induct)
  case (3 c x xs y ys)
  show ?case
  proof (cases "m_id x = m_id y")
    case True
    show ?thesis
    proof (cases "var.m_coeff x + c * var.m_coeff y = 0")
      case z: True
      then have "(var.m_coeff x + c * var.m_coeff y) * (vals ! m_id y) = 0" by simp
      then have "var.m_coeff x * (vals ! m_id y) + c * (var.m_coeff y * (vals ! m_id y)) = 0"
        by (simp add: algebra_simps)
      with True z 3 show ?thesis by (simp add: algebra_simps cons_nonzero_def)
    next
      case False
      with True 3 show ?thesis by (simp add: algebra_simps cons_nonzero_def)
    qed
  next
    case False
    with 3 show ?thesis by (simp add: algebra_simps scale_var_def)
  qed
qed (simp_all add: scale_var_def algebra_simps)

lemma coeff_of_scale_Nil: "coeff_of (merge_vars c [] ys) z = c * coeff_of ys z"
  by (induction ys) (simp_all add: scale_var_def)

lemma merge_vars_coeff:
  "sorted_wrt (<) (map m_id xs) \<Longrightarrow> sorted_wrt (<) (map m_id ys) \<Longrightarrow>
   coeff_of (merge_vars c xs ys) z = coeff_of xs z + c * coeff_of ys z"
proof (induction c xs ys rule: merge_vars.induct)
  case (1 c xs)
  then show ?case by simp
next
  case (2 c y ys)
  then show ?case using coeff_of_scale_Nil[of c "y # ys" z] by simp
next
  case (3 c x xs y ys)
  from "3.prems" have sx: "sorted_wrt (<) (map m_id xs)" and sy: "sorted_wrt (<) (map m_id ys)"
    and xlt: "\<forall>v\<in>set xs. m_id x < m_id v" and ylt: "\<forall>v\<in>set ys. m_id y < m_id v"
    by auto
  have nx: "coeff_of xs (m_id x) = 0" using xlt by (intro coeff_of_notin) auto
  have ny: "coeff_of ys (m_id y) = 0" using ylt by (intro coeff_of_notin) auto
  consider (eq) "m_id x = m_id y" | (lt) "m_id x < m_id y" | (gt) "m_id y < m_id x" by linarith
  then show ?case
  proof cases
    case eq
    have ih: "coeff_of (merge_vars c xs ys) z = coeff_of xs z + c * coeff_of ys z"
      using "3.IH"(1)[OF eq] sx sy by simp
    show ?thesis
    proof (cases "z = m_id x")
      case True
      have "\<forall>v\<in>set (merge_vars c xs ys). m_id x < m_id v"
        using merge_vars_lower[of xs "m_id x" ys c] xlt ylt eq by simp
      then have "m_id x \<notin> m_id ` set (merge_vars c xs ys)" by auto
      then have "coeff_of (merge_vars c xs ys) (m_id x) = 0" by (rule coeff_of_notin)
      with True eq nx ny show ?thesis by (simp add: cons_nonzero_def)
    next
      case False
      with eq ih show ?thesis by (simp add: cons_nonzero_def)
    qed
  next
    case lt
    have ih: "coeff_of (merge_vars c xs (y # ys)) z = coeff_of xs z + c * coeff_of (y # ys) z"
      using "3.IH"(2) lt sx "3.prems"(2) by simp
    have "coeff_of (y # ys) (m_id x) = 0"
      using lt ylt by (intro coeff_of_notin) auto
    with lt ih nx show ?thesis by (cases "z = m_id x") auto
  next
    case gt
    have ih: "coeff_of (merge_vars c (x # xs) ys) z = coeff_of (x # xs) z + c * coeff_of ys z"
      using "3.IH"(3) gt sy "3.prems"(1) by simp
    have "coeff_of (x # xs) (m_id y) = 0"
      using gt xlt by (intro coeff_of_notin) auto
    with gt ih ny show ?thesis by (cases "z = m_id y") (auto simp: scale_var_def)
  qed
qed

lemma merge_vars_sorted:
  "sorted_wrt (<) (map m_id xs) \<Longrightarrow> sorted_wrt (<) (map m_id ys) \<Longrightarrow>
   sorted_wrt (<) (map m_id (merge_vars c xs ys))"
proof (induction c xs ys rule: merge_vars.induct)
  case (1 c xs)
  then show ?case by simp
next
  case (2 c y ys)
  then have "sorted_wrt (<) (map m_id (merge_vars c [] ys))" by simp
  moreover have "\<forall>v\<in>set (merge_vars c [] ys). m_id y < m_id v"
    using merge_vars_lower[of "[]" "m_id y" ys c] "2.prems" by simp
  ultimately show ?case by (simp add: scale_var_def)
next
  case (3 c x xs y ys)
  from "3.prems" have sx: "sorted_wrt (<) (map m_id xs)" and sy: "sorted_wrt (<) (map m_id ys)"
    and xlt: "\<forall>v\<in>set xs. m_id x < m_id v" and ylt: "\<forall>v\<in>set ys. m_id y < m_id v"
    by auto
  consider (eq) "m_id x = m_id y" | (lt) "m_id x < m_id y" | (gt) "m_id y < m_id x" by linarith
  then show ?case
  proof cases
    case eq
    have ih: "sorted_wrt (<) (map m_id (merge_vars c xs ys))"
      using "3.IH"(1)[OF eq] sx sy by simp
    have "\<forall>v\<in>set (merge_vars c xs ys). m_id x < m_id v"
      using merge_vars_lower[of xs "m_id x" ys c] xlt ylt eq by simp
    with eq ih show ?thesis by (simp add: cons_nonzero_def)
  next
    case lt
    have ih: "sorted_wrt (<) (map m_id (merge_vars c xs (y # ys)))"
      using "3.IH"(2) lt sx "3.prems"(2) by simp
    have "\<forall>v\<in>set (y # ys). m_id x < m_id v" using lt ylt by fastforce
    then have "\<forall>v\<in>set (merge_vars c xs (y # ys)). m_id x < m_id v"
      using merge_vars_lower[of xs "m_id x" "y # ys" c] xlt by blast
    with lt ih show ?thesis by simp
  next
    case gt
    have ih: "sorted_wrt (<) (map m_id (merge_vars c (x # xs) ys))"
      using "3.IH"(3) gt sy "3.prems"(1) by simp
    have "\<forall>v\<in>set (x # xs). m_id y < m_id v" using gt xlt by fastforce
    then have "\<forall>v\<in>set (merge_vars c (x # xs) ys). m_id y < m_id v"
      using merge_vars_lower[of "x # xs" "m_id y" ys c] ylt by blast
    with gt ih show ?thesis by (simp add: scale_var_def)
  qed
qed

lemma merge_vars_nonzero:
  "c \<noteq> 0 \<Longrightarrow> \<forall>v\<in>set xs. var.m_coeff v \<noteq> 0 \<Longrightarrow> \<forall>v\<in>set ys. var.m_coeff v \<noteq> 0 \<Longrightarrow>
   \<forall>v\<in>set (merge_vars c xs ys). var.m_coeff v \<noteq> 0"
  by (induction c xs ys rule: merge_vars.induct) (auto simp: scale_var_def cons_nonzero_def)

lemma merge_vars_ok: "c \<noteq> 0 \<Longrightarrow> vars_ok xs \<Longrightarrow> vars_ok ys \<Longrightarrow> vars_ok (merge_vars c xs ys)"
  using merge_vars_sorted[of xs ys c] merge_vars_nonzero[of c xs ys] by (simp add: vars_ok_def)

lemma push_row_id_length [simp]: "length (push_row_id i v idx) = length idx"
  by (simp add: push_row_id_def)

lemma push_row_id_nth:
  "push_row_id i v idx ! w =
     (if i \<noteq> m_objective_id \<and> w = v \<and> v < length idx then idx ! v @ [i] else idx ! w)"
  by (cases "v < length idx") (simp_all add: push_row_id_def list_update_beyond)

lemma merge_ids_length [simp]: "length (merge_ids i xs ys idx) = length idx"
  by (induction i xs ys idx rule: merge_ids.induct) simp_all

lemma merge_ids_objective [simp]: "merge_ids m_objective_id xs ys idx = idx"
  by (induction m_objective_id xs ys idx rule: merge_ids.induct) (simp_all add: push_row_id_def)

lemma merge_ids_mono: "set (idx ! w) \<subseteq> set (merge_ids i xs ys idx ! w)"
  by (induction i xs ys idx rule: merge_ids.induct) (auto simp: push_row_id_nth split: if_splits)

lemma merge_ids_upper: "set (merge_ids i xs ys idx ! w) \<subseteq> insert i (set (idx ! w))"
  by (induction i xs ys idx rule: merge_ids.induct) (auto simp: push_row_id_nth split: if_splits)

lemma merge_ids_same:
  "w \<notin> m_id ` set ys \<Longrightarrow> merge_ids i xs ys idx ! w = idx ! w"
  by (induction i xs ys idx rule: merge_ids.induct) (auto simp: push_row_id_nth)

lemma merge_ids_complete:
  "i \<noteq> m_objective_id \<Longrightarrow> y \<in> set ys \<Longrightarrow> m_id y < length idx \<Longrightarrow>
   m_id y \<in> m_id ` set xs \<or> i \<in> set (merge_ids i xs ys idx ! m_id y)"
proof (induction i xs ys idx rule: merge_ids.induct)
  case (1 row_id1 xs idx)
  then show ?case by simp
next
  case (2 row_id1 y' ys idx)
  show ?case
  proof (cases "y = y'")
    case True
    have "row_id1 \<in> set (push_row_id row_id1 (m_id y') idx ! m_id y')"
      using 2 True by (simp add: push_row_id_nth)
    with merge_ids_mono[of "push_row_id row_id1 (m_id y') idx" "m_id y'" row_id1 "[]" ys] True
    show ?thesis by auto
  next
    case False
    with 2 show ?thesis by simp
  qed
next
  case (3 row_id1 x xs y' ys idx)
  consider (eq) "m_id x = m_id y'" | (lt) "m_id x < m_id y'" | (gt) "m_id y' < m_id x" by linarith
  then show ?case
  proof cases
    case eq
    show ?thesis
    proof (cases "y = y'")
      case True
      with eq show ?thesis by simp
    next
      case False
      with 3 eq show ?thesis by auto
    qed
  next
    case lt
    with 3 show ?thesis by auto
  next
    case gt
    show ?thesis
    proof (cases "y = y'")
      case True
      have "row_id1 \<in> set (push_row_id row_id1 (m_id y') idx ! m_id y')"
        using 3 True by (simp add: push_row_id_nth)
      with merge_ids_mono[of "push_row_id row_id1 (m_id y') idx" "m_id y'" row_id1 "x # xs" ys] True gt
      show ?thesis by auto
    next
      case False
      with 3 gt show ?thesis by auto
    qed
  qed
qed

lemma find_bound_inv_init: "find_bound_inv s x is_pos {} find_bound_init"
  by (simp add: find_bound_inv_def find_bound_init_def)

lemma find_bound_row_inv:
  assumes inv: "find_bound_inv s x is_pos V b" and nv: "row_id \<notin> V" and nm: "row_id \<noteq> UINT_MAX"
  shows "find_bound_inv s x is_pos (insert row_id V) (find_bound_row s x is_pos row_id b)"
proof -
  let ?a = "get_coefficient s row_id x"
  let ?r = "m_rows s ! row_id"
  let ?val = "m_var2value s ! x - m_value ?r / ?a"
  have bv: "bound_val s x row_id = ?val" by (simp add: bound_val_def)
  consider (skip) "\<not> m_alive ?r \<or> ?a = 0"
    | (below) "m_alive ?r" "?a \<noteq> 0" "\<not> ((0 < ?a) = is_pos \<or> m_type ?r = t_eq)"
    | (first) "m_alive ?r" "?a \<noteq> 0" "(0 < ?a) = is_pos \<or> m_type ?r = t_eq" "bound_row_index b = UINT_MAX"
    | (switch) "m_alive ?r" "?a \<noteq> 0" "(0 < ?a) = is_pos \<or> m_type ?r = t_eq" "bound_row_index b \<noteq> UINT_MAX"
        "(?val = bound_state.lub_val b \<and> m_type ?r = t_lt) \<or> (is_pos \<and> ?val < bound_state.lub_val b) \<or>
         (\<not> is_pos \<and> ?val > bound_state.lub_val b)"
    | (keep) "m_alive ?r" "?a \<noteq> 0" "(0 < ?a) = is_pos \<or> m_type ?r = t_eq" "bound_row_index b \<noteq> UINT_MAX"
        "\<not> ((?val = bound_state.lub_val b \<and> m_type ?r = t_lt) \<or> (is_pos \<and> ?val < bound_state.lub_val b) \<or>
         (\<not> is_pos \<and> ?val > bound_state.lub_val b))"
    by blast
  then show ?thesis
  proof cases
    case skip
    then have eq: "find_bound_row s x is_pos row_id b = b"
      by (auto simp: find_bound_row_def Let_def)
    from skip have nc: "\<not> is_candidate s x is_pos row_id" "\<not> is_opposite s x is_pos row_id"
      by (auto simp: is_candidate_def is_opposite_def)
    from inv nc nv show ?thesis unfolding eq find_bound_inv_def by auto
  next
    case below
    then have eq: "find_bound_row s x is_pos row_id b = b\<lparr>m_below := m_below b @ [row_id]\<rparr>"
      by (auto simp: find_bound_row_def Let_def)
    from below have nc: "\<not> is_candidate s x is_pos row_id" "is_opposite s x is_pos row_id"
      by (auto simp: is_candidate_def is_opposite_def)
    from inv nc nv show ?thesis unfolding eq find_bound_inv_def by auto
  next
    case first
    then have eq: "find_bound_row s x is_pos row_id b =
        b\<lparr>bound_state.lub_val := ?val, bound_row_index := row_id, bound_coeff := ?a\<rparr>"
      by (auto simp: find_bound_row_def Let_def)
    from first have nc: "is_candidate s x is_pos row_id" "\<not> is_opposite s x is_pos row_id"
      by (auto simp: is_candidate_def is_opposite_def)
    have t: "tightest s x is_pos row_id row_id" by (simp add: tightest_def)
    from inv nc nv nm first(4) t bv show ?thesis unfolding eq find_bound_inv_def by auto
  next
    case switch
    then have eq: "find_bound_row s x is_pos row_id b =
        b\<lparr>m_above := m_above b @ [bound_row_index b],
          bound_state.lub_val := ?val, bound_row_index := row_id, bound_coeff := ?a\<rparr>"
      by (auto simp: find_bound_row_def Let_def)
    from switch have nc: "is_candidate s x is_pos row_id" "\<not> is_opposite s x is_pos row_id"
      by (auto simp: is_candidate_def is_opposite_def)
    let ?p = "bound_row_index b"
    from inv switch(4) have p: "?p \<in> V" "is_candidate s x is_pos ?p"
      "bound_state.lub_val b = bound_val s x ?p"
      "\<forall>i\<in>V. is_candidate s x is_pos i \<longrightarrow> tightest s x is_pos ?p i"
      and ab: "set (m_above b) = {i\<in>V. is_candidate s x is_pos i \<and> i \<noteq> ?p}" "distinct (m_above b)"
      and be: "set (m_below b) = {i\<in>V. is_opposite s x is_pos i}" "distinct (m_below b)"
      by (auto simp: find_bound_inv_def)
    have t: "tightest s x is_pos row_id i" if "i \<in> V" "is_candidate s x is_pos i" for i
      using p(4) that switch(5) p(3) bv unfolding tightest_def
      by (auto split: if_splits)
    have t2: "tightest s x is_pos row_id row_id" by (simp add: tightest_def)
    have pne: "?p \<noteq> row_id" using p(1) nv by auto
    have "set (m_above b @ [?p]) = {i \<in> insert row_id V. is_candidate s x is_pos i \<and> i \<noteq> row_id}"
      using ab p nv by auto
    moreover have "distinct (m_above b @ [?p])" using ab by auto
    moreover have "set (m_below b) = {i \<in> insert row_id V. is_opposite s x is_pos i}"
      using be nc by auto
    ultimately show ?thesis
      unfolding eq find_bound_inv_def using nm nc t t2 bv be(2) by auto
  next
    case keep
    then have eq: "find_bound_row s x is_pos row_id b = b\<lparr>m_above := m_above b @ [row_id]\<rparr>"
      by (auto simp: find_bound_row_def Let_def)
    from keep have nc: "is_candidate s x is_pos row_id" "\<not> is_opposite s x is_pos row_id"
      by (auto simp: is_candidate_def is_opposite_def)
    let ?p = "bound_row_index b"
    from inv keep(4) have p: "?p \<in> V" "is_candidate s x is_pos ?p"
      "bound_coeff b = get_coefficient s ?p x"
      "bound_state.lub_val b = bound_val s x ?p"
      "\<forall>i\<in>V. is_candidate s x is_pos i \<longrightarrow> tightest s x is_pos ?p i"
      and ab: "set (m_above b) = {i\<in>V. is_candidate s x is_pos i \<and> i \<noteq> ?p}" "distinct (m_above b)"
      and be: "set (m_below b) = {i\<in>V. is_opposite s x is_pos i}" "distinct (m_below b)"
      by (auto simp: find_bound_inv_def)
    have t: "tightest s x is_pos ?p row_id"
      using keep(5) p(4) bv unfolding tightest_def by (auto split: if_splits)
    have pne: "?p \<noteq> row_id" using p(1) nv by auto
    have "set (m_above b @ [row_id]) = {i \<in> insert row_id V. is_candidate s x is_pos i \<and> i \<noteq> ?p}"
      using ab nc pne by auto
    moreover have "distinct (m_above b @ [row_id])" using ab nv by auto
    moreover have "set (m_below b) = {i \<in> insert row_id V. is_opposite s x is_pos i}"
      using be nc by auto
    ultimately show ?thesis
      unfolding eq find_bound_inv_def using keep(4) p t be(2) by auto
  qed
qed

lemma find_bound_loop_inv:
  "find_bound_inv s x is_pos V b \<Longrightarrow> \<forall>i\<in>set ids. i \<noteq> UINT_MAX \<Longrightarrow>
   find_bound_inv s x is_pos (V \<union> set ids) (find_bound_loop s x is_pos ids V b)"
proof (induction ids arbitrary: V b)
  case Nil
  then show ?case by simp
next
  case (Cons i ids)
  show ?case
  proof (cases "i \<in> V")
    case True
    then have "V \<union> set (i # ids) = V \<union> set ids" by auto
    with Cons True show ?thesis by simp
  next
    case False
    have "insert i V \<union> set ids = V \<union> set (i # ids)" by auto
    with Cons.IH[OF find_bound_row_inv[OF Cons.prems(1) False]] Cons.prems(2) False
    show ?thesis by simp
  qed
qed

lemma find_bound_inv_final:
  assumes "\<forall>i\<in>set (m_var2row_ids s ! x). i \<noteq> UINT_MAX"
  shows "find_bound_inv s x is_pos (set (m_var2row_ids s ! x)) (snd (find_bound s x is_pos))"
  using find_bound_loop_inv[OF find_bound_inv_init assms]
  by (simp add: find_bound_def Let_def)

lemma mul_add_zero [simp]: "mul_add same_sign i 0 j s = s"
  by (simp add: mul_add_def)

lemma mul_add_nonzero:
  "c \<noteq> 0 \<Longrightarrow> mul_add same_sign i c j s =
     s\<lparr>m_rows := (m_rows s)[i := mul_add_row same_sign c (m_rows s ! i) (m_rows s ! j)],
       m_var2row_ids := merge_ids i (m_vars (m_rows s ! i)) (m_vars (m_rows s ! j)) (m_var2row_ids s)\<rparr>"
  by (simp add: mul_add_def mul_add_loop_eq mul_add_row_def Let_def)

lemma mul_add_vals [simp]: "m_var2value (mul_add same_sign i c j s) = m_var2value s"
  by (cases "c = 0") (simp_all add: mul_add_nonzero)

lemma mul_add_length [simp]: "length (m_rows (mul_add same_sign i c j s)) = length (m_rows s)"
  by (cases "c = 0") (simp_all add: mul_add_nonzero)

lemma mul_add_idx_length [simp]:
  "length (m_var2row_ids (mul_add same_sign i c j s)) = length (m_var2row_ids s)"
  by (cases "c = 0") (simp_all add: mul_add_nonzero)

lemma mul_add_other: "k \<noteq> i \<Longrightarrow> m_rows (mul_add same_sign i c j s) ! k = m_rows s ! k"
  by (cases "c = 0") (simp_all add: mul_add_nonzero)

lemma mul_add_idx_mono:
  "set (m_var2row_ids s ! w) \<subseteq> set (m_var2row_ids (mul_add same_sign i c j s) ! w)"
  by (cases "c = 0") (simp_all add: mul_add_nonzero merge_ids_mono)

lemma mul_add_idx_upper:
  "set (m_var2row_ids (mul_add same_sign i c j s) ! w) \<subseteq> insert i (set (m_var2row_ids s ! w))"
  by (cases "c = 0") (auto simp: mul_add_nonzero dest: subsetD[OF merge_ids_upper])

lemma mul_add_idx_objective [simp]:
  "m_var2row_ids (mul_add same_sign m_objective_id c j s) = m_var2row_ids s"
  by (cases "c = 0") (simp_all add: mul_add_nonzero)

lemma row_invariant_cong:
  "m_var2value s' = m_var2value s \<Longrightarrow> row_invariant s' r = row_invariant s r"
  by (simp add: row_invariant_def get_row_value_def)

lemma mul_add_row_invariant:
  assumes "c \<noteq> 0" "row_invariant s r1" "row_invariant s r2"
  shows "row_invariant s (mul_add_row same_sign c r1 r2)"
  using assms merge_vars_ok[of c "m_vars r1" "m_vars r2"]
  by (simp add: row_invariant_def mul_add_row_def get_row_value_sum merge_vars_sum algebra_simps)

lemma mul_add_row_coeff:
  "vars_ok (m_vars r1) \<Longrightarrow> vars_ok (m_vars r2) \<Longrightarrow>
   coeff_of (m_vars (mul_add_row same_sign c r1 r2)) z =
     coeff_of (m_vars r1) z + c * coeff_of (m_vars r2) z"
  by (simp add: mul_add_row_def vars_ok_def merge_vars_coeff)

lemma mul_add_row_fields [simp]:
  "m_alive (mul_add_row same_sign c r1 r2) = m_alive r1"
  "m_type (mul_add_row same_sign c r1 r2) = mul_add_type same_sign (m_type r1) (m_type r2)"
  "m_value (mul_add_row same_sign c r1 r2) = m_value r1 + c * m_value r2"
  "row.m_coeff (mul_add_row same_sign c r1 r2) = row.m_coeff r1 + c * row.m_coeff r2"
  "m_vars (mul_add_row same_sign c r1 r2) = merge_vars c (m_vars r1) (m_vars r2)"
  by (simp_all add: mul_add_row_def)

lemma wf_mul_add:
  assumes wf: "wf s" and i: "i < length (m_rows s)" and j: "j < length (m_rows s)"
    and obj: "i = 0 \<longrightarrow> m_alive (m_rows s ! 0)"
  shows "wf (mul_add same_sign i c j s)"
proof (cases "c = 0")
  case True
  with wf show ?thesis by simp
next
  case False
  let ?s' = "mul_add same_sign i c j s"
  let ?r1 = "m_rows s ! i" and ?r2 = "m_rows s ! j"
  let ?idx' = "merge_ids i (m_vars ?r1) (m_vars ?r2) (m_var2row_ids s)"
  have rows': "m_rows ?s' = (m_rows s)[i := mul_add_row same_sign c ?r1 ?r2]"
    and idx': "m_var2row_ids ?s' = ?idx'"
    using False by (simp_all add: mul_add_nonzero)
  from wf have w1: "m_rows s \<noteq> []" and w2: "length (m_rows s) \<le> UINT_MAX"
    and w3: "length (m_var2row_ids s) = length (m_var2value s)"
    and w4: "\<And>x k. x < length (m_var2row_ids s) \<Longrightarrow> k \<in> set (m_var2row_ids s ! x) \<Longrightarrow>
                0 < k \<and> k < length (m_rows s)"
    and w5: "\<And>k v. k < length (m_rows s) \<Longrightarrow> v \<in> set (m_vars (m_rows s ! k)) \<Longrightarrow>
                m_id v < length (m_var2value s) \<and> (0 < k \<longrightarrow> k \<in> set (m_var2row_ids s ! m_id v))"
    and w6: "m_alive (m_rows s ! 0) \<or> m_vars (m_rows s ! 0) = []"
    by (auto simp: wf_def)
  have c4: "0 < k \<and> k < length (m_rows ?s')"
    if "x < length (m_var2row_ids ?s')" "k \<in> set (m_var2row_ids ?s' ! x)" for x k
  proof -
    from that(2) have "k = i \<or> k \<in> set (m_var2row_ids s ! x)"
      using mul_add_idx_upper[of same_sign i c j s x] by auto
    then show ?thesis
    proof
      assume k: "k = i"
      have "i \<noteq> 0"
      proof
        assume "i = 0"
        then have "m_var2row_ids ?s' = m_var2row_ids s"
          using mul_add_idx_objective[of same_sign c j s] by (simp add: m_objective_id_def)
        with that(2) \<open>i = 0\<close> k have "0 \<in> set (m_var2row_ids s ! x)" by simp
        with w4[of x 0] that(1) show False by simp
      qed
      with k i show ?thesis by simp
    next
      assume "k \<in> set (m_var2row_ids s ! x)"
      with w4[of x k] that(1) show ?thesis by simp
    qed
  qed
  have c5: "m_id v < length (m_var2value ?s') \<and> (0 < k \<longrightarrow> k \<in> set (m_var2row_ids ?s' ! m_id v))"
    if "k < length (m_rows ?s')" "v \<in> set (m_vars (m_rows ?s' ! k))" for k v
  proof (cases "k = i")
    case False
    with that have "v \<in> set (m_vars (m_rows s ! k))" by (simp add: mul_add_other)
    with w5[of k v] that(1) mul_add_idx_mono[of s "m_id v" same_sign i c j]
    show ?thesis by auto
  next
    case True
    with that i rows' have "v \<in> set (merge_vars c (m_vars ?r1) (m_vars ?r2))" by simp
    from merge_vars_ids_elem[OF this]
    consider w where "w \<in> set (m_vars ?r1)" "m_id w = m_id v"
      | w where "w \<in> set (m_vars ?r2)" "m_id w = m_id v" by blast
    then show ?thesis
    proof cases
      case 1
      with w5[of i w] i mul_add_idx_mono[of s "m_id v" same_sign i c j] True
      show ?thesis by auto
    next
      case 2
      with w5[of j w] j have rng: "m_id v < length (m_var2value s)" by simp
      have "0 < i \<longrightarrow> i \<in> set (?idx' ! m_id v)"
      proof
        assume "0 < i"
        then have "i \<noteq> m_objective_id" by (simp add: m_objective_id_def)
        from merge_ids_complete[OF this 2(1), of "m_var2row_ids s" "m_vars ?r1"] rng w3 2(2)
        have "m_id v \<in> m_id ` set (m_vars ?r1) \<or> i \<in> set (?idx' ! m_id v)" by simp
        then show "i \<in> set (?idx' ! m_id v)"
        proof
          assume "m_id v \<in> m_id ` set (m_vars ?r1)"
          then obtain u where "u \<in> set (m_vars ?r1)" "m_id u = m_id v" by auto
          with w5[of i u] i \<open>0 < i\<close> merge_ids_mono[of "m_var2row_ids s" "m_id v" i "m_vars ?r1" "m_vars ?r2"]
          show ?thesis by auto
        qed
      qed
      with rng True idx' show ?thesis by simp
    qed
  qed
  have c6: "m_alive (m_rows ?s' ! 0) \<or> m_vars (m_rows ?s' ! 0) = []"
  proof (cases "i = 0")
    case True
    with obj rows' i show ?thesis by simp
  next
    case False
    with w6 show ?thesis by (simp add: mul_add_other)
  qed
  show ?thesis
    unfolding wf_def using w1 w2 w3 c4 c5 c6 by (simp add: rows')
qed

lemma satisfied_sat_rel: "satisfied r \<longleftrightarrow> sat_rel (m_type r) (m_value r)"
  by (cases "m_type r") (simp_all add: satisfied_def sat_rel_def)

lemma sat_rel_le: "sat_rel t v \<Longrightarrow> v \<le> 0"
  by (cases t) (simp_all add: sat_rel_def)

lemma resolve_satisfied_opposite:
  fixes a1 a2 v1 v2 :: rat
  assumes "a1 \<noteq> 0" "a2 \<noteq> 0" "(0 < a1) = is_pos \<or> t2 = t_eq"
    and "sat_rel t2 v2" "sat_rel t1 v1"
    and "(0 < a2) \<noteq> is_pos" "t1 \<noteq> t_eq"
  shows "sat_rel (mul_add_type ((0 < a1) = (0 < a2)) t1 t2) (v1 + (- a2 / a1) * v2)"
proof (cases "(0 < a1) = is_pos")
  case True
  with assms have opp: "(0 < a1) \<noteq> (0 < a2)" by auto
  have c: "0 < - a2 / a1"
  proof (cases "0 < a1")
    case True
    with opp assms(2) have "a2 < 0" by auto
    with True show ?thesis by (simp add: divide_neg_pos)
  next
    case False
    with opp assms(1) have "a1 < 0" "0 < a2" by auto
    then show ?thesis by (simp add: divide_pos_neg)
  qed
  have le: "v1 \<le> 0" "v2 \<le> 0" using assms(4,5) by (auto dest: sat_rel_le)
  have "0 \<le> - a2 / a1" using c by simp
  then have m: "(- a2 / a1) * v2 \<le> 0" using le(2) by (rule mult_nonneg_nonpos)
  show ?thesis
  proof (cases "t2 = t_lt")
    case True
    with assms(4) have "v2 < 0" by (simp add: sat_rel_def)
    with c have "(- a2 / a1) * v2 < 0" by (rule mult_pos_neg)
    with le(1) have "v1 + (- a2 / a1) * v2 < 0" by simp
    with opp True show ?thesis by (simp add: mul_add_type_def sat_rel_def)
  next
    case False
    with opp have t: "mul_add_type ((0 < a1) = (0 < a2)) t1 t2 = t1" by (simp add: mul_add_type_def)
    from assms(5,7) m show ?thesis unfolding t by (cases t1) (auto simp: sat_rel_def)
  qed
next
  case False
  with assms(3) have e: "t2 = t_eq" by simp
  with assms(4) have "v2 = 0" by (simp add: sat_rel_def)
  with e assms(5) show ?thesis by (simp add: mul_add_type_def)
qed

lemma resolve_satisfied_candidate:
  fixes a1 a2 v1 v2 X :: rat
  assumes "a1 \<noteq> 0" "a2 \<noteq> 0" "(0 < a1) = is_pos \<or> t2 = t_eq"
    and "sat_rel t2 v2" "sat_rel t1 v1"
    and "(0 < a2) = is_pos \<or> t1 = t_eq"
    and tight: "if is_pos then X - v2 / a1 \<le> X - v1 / a2 else X - v1 / a2 \<le> X - v2 / a1"
    and tie: "X - v1 / a2 = X - v2 / a1 \<and> t1 = t_lt \<longrightarrow> t2 = t_lt"
  shows "sat_rel (mul_add_type ((0 < a1) = (0 < a2)) t1 t2) (v1 + (- a2 / a1) * v2)"
proof -
  define d where "d = v1 / a2 - v2 / a1"
  have v2le: "v2 \<le> 0" and v1le: "v1 \<le> 0" using assms(4,5) by (auto dest: sat_rel_le)
  have expr: "v1 + (- a2 / a1) * v2 = a2 * d"
    using assms(1,2) by (simp add: d_def field_simps)
  have dpos: "d \<le> 0" if "is_pos" using tight that by (simp add: d_def)
  have dneg: "0 \<le> d" if "\<not> is_pos" using tight that by (simp add: d_def)
  have tie': "d = 0 \<and> t1 = t_lt \<longrightarrow> t2 = t_lt" using tie by (simp add: d_def)
  text \<open>an equality among the candidates forces a tight pivot with value 0\<close>
  have piv0: "v2 = 0" if "(0 < a1) = is_pos" "v1 = 0"
  proof (cases is_pos)
    case True
    with that have "0 < a1" by simp
    moreover from dpos[OF True] that(2) have "0 \<le> v2 / a1" by (simp add: d_def)
    ultimately have "0 \<le> v2" by (simp add: zero_le_divide_iff)
    with v2le show ?thesis by simp
  next
    case False
    with that assms(1) have "a1 < 0" by auto
    moreover from dneg[OF False] that(2) have "v2 / a1 \<le> 0" by (simp add: d_def)
    ultimately have "0 \<le> v2" by (simp add: divide_le_0_iff)
    with v2le show ?thesis by simp
  qed
  consider (both) "(0 < a1) = is_pos" "(0 < a2) = is_pos"
    | (eq1) "(0 < a1) = is_pos" "(0 < a2) \<noteq> is_pos" "t1 = t_eq"
    | (eq2) "(0 < a1) \<noteq> is_pos" "t2 = t_eq"
    using assms(3,6) by blast
  then show ?thesis
  proof cases
    case both
    then have ss: "(0 < a1) = (0 < a2)" by simp
    have le: "a2 * d \<le> 0"
    proof (cases is_pos)
      case True
      with both have "0 \<le> a2" by simp
      then show ?thesis using dpos[OF True] by (rule mult_nonneg_nonpos)
    next
      case False
      with both assms(2) have "a2 \<le> 0" by auto
      then show ?thesis using dneg[OF False] by (rule mult_nonpos_nonneg)
    qed
    have z: "a2 * d = 0 \<longleftrightarrow> d = 0" using assms(2) by simp
    show ?thesis
    proof (cases t1)
      case t_eq
      with assms(5) have "v1 = 0" by (simp add: sat_rel_def)
      with piv0[OF both(1)] have "v2 = 0" by simp
      with \<open>v1 = 0\<close> t_eq ss show ?thesis by (simp add: mul_add_type_def sat_rel_def)
    next
      case t_lt
      show ?thesis
      proof (cases "t2 = t_lt")
        case True
        with t_lt ss le show ?thesis unfolding expr by (simp add: mul_add_type_def sat_rel_def)
      next
        case False
        with tie' t_lt have "d \<noteq> 0" by auto
        with z have "a2 * d \<noteq> 0" by blast
        with le have "a2 * d < 0" by (rule order.not_eq_order_implies_strict[rotated])
        with False t_lt ss show ?thesis unfolding expr by (simp add: mul_add_type_def sat_rel_def)
      qed
    next
      case t_le
      with ss le show ?thesis unfolding expr by (simp add: mul_add_type_def sat_rel_def)
    qed
  next
    case eq1
    with assms(5) have "v1 = 0" by (simp add: sat_rel_def)
    with piv0[OF eq1(1)] have v2: "v2 = 0" by simp
    with assms(4) have "t2 \<noteq> t_lt" by (auto simp: sat_rel_def)
    with \<open>v1 = 0\<close> v2 eq1 show ?thesis by (simp add: mul_add_type_def sat_rel_def)
  next
    case eq2
    with assms(4) have "v2 = 0" by (simp add: sat_rel_def)
    with eq2 assms(5) show ?thesis by (simp add: mul_add_type_def)
  qed
qed

lemma resolve_vals [simp]: "m_var2value (resolve src a1 dst x s) = m_var2value s"
  by (simp add: resolve_def Let_def)

lemma resolve_length [simp]: "length (m_rows (resolve src a1 dst x s)) = length (m_rows s)"
  by (simp add: resolve_def Let_def)

lemma resolve_idx_length [simp]:
  "length (m_var2row_ids (resolve src a1 dst x s)) = length (m_var2row_ids s)"
  by (simp add: resolve_def Let_def)

lemma resolve_idx_mono:
  "set (m_var2row_ids s ! w) \<subseteq> set (m_var2row_ids (resolve src a1 dst x s) ! w)"
  by (simp add: resolve_def Let_def mul_add_idx_mono)

lemma resolve_idx_upper:
  "set (m_var2row_ids (resolve src a1 dst x s) ! w) \<subseteq> insert dst (set (m_var2row_ids s ! w))"
  using mul_add_idx_upper[of _ dst _ src s w] by (auto simp: resolve_def Let_def)

lemma resolve_rows:
  assumes "m_alive (m_rows s ! dst) \<longrightarrow> sorted_wrt (<) (map m_id (m_vars (m_rows s ! dst)))"
  shows "m_rows (resolve src a1 dst x s) =
           (if m_alive (m_rows s ! dst)
            then (m_rows s)[dst := resolve_row (dst = m_objective_id) a1 x (m_rows s ! src) (m_rows s ! dst)]
            else m_rows s)"
proof (cases "m_alive (m_rows s ! dst)")
  case False
  then show ?thesis by (simp add: resolve_def)
next
  case True
  with assms have g: "get_coefficient s dst x = coeff_of (m_vars (m_rows s ! dst)) x"
    by (simp add: get_coefficient_coeff_of)
  show ?thesis
  proof (cases "- coeff_of (m_vars (m_rows s ! dst)) x / a1 = 0")
    case z: True
    from z g have c0: "- get_coefficient s dst x / a1 = 0" by simp
    have "resolve src a1 dst x s = s"
      unfolding resolve_def Let_def c0 by simp
    moreover have "resolve_row (dst = m_objective_id) a1 x (m_rows s ! src) (m_rows s ! dst) = m_rows s ! dst"
      unfolding resolve_row_def Let_def z by simp
    ultimately show ?thesis using True by simp
  next
    case False
    with True g show ?thesis
      by (simp add: resolve_def resolve_row_def Let_def mul_add_nonzero)
  qed
qed

lemma resolve_wf:
  assumes "wf s" "src < length (m_rows s)" "dst < length (m_rows s)"
  shows "wf (resolve src a1 dst x s)"
  using assms by (auto simp: resolve_def Let_def intro!: wf_mul_add)

lemma resolve_row_alive [simp]: "m_alive (resolve_row is_obj a1 x src dst) = m_alive dst"
  by (simp add: resolve_row_def Let_def)

lemma resolve_row_ids:
  "v \<in> set (m_vars (resolve_row is_obj a1 x src dst)) \<Longrightarrow>
   (\<exists>w\<in>set (m_vars dst). m_id w = m_id v) \<or> (\<exists>w\<in>set (m_vars src). m_id w = m_id v)"
  by (auto simp: resolve_row_def Let_def split: if_splits dest: merge_vars_ids_elem)

lemma resolve_row_invariant:
  assumes "row_invariant s dst" "row_invariant s src"
  shows "row_invariant s (resolve_row is_obj a1 x src dst)"
  using assms by (simp add: resolve_row_def Let_def mul_add_row_invariant)

lemma resolve_row_eliminates:
  assumes "vars_ok (m_vars dst)" "vars_ok (m_vars src)" "coeff_of (m_vars src) x = a1" "a1 \<noteq> 0"
  shows "coeff_of (m_vars (resolve_row is_obj a1 x src dst)) x = 0"
proof (cases "- coeff_of (m_vars dst) x / a1 = 0")
  case True
  with assms(4) have "coeff_of (m_vars dst) x = 0" by simp
  with True show ?thesis by (simp add: resolve_row_def)
next
  case False
  then show ?thesis
    using assms by (simp add: resolve_row_def Let_def mul_add_row_coeff del: mul_add_row_fields)
qed

lemma resolve_row_vars_ok:
  assumes "vars_ok (m_vars dst)" "vars_ok (m_vars src)"
  shows "vars_ok (m_vars (resolve_row is_obj a1 x src dst))"
  using assms by (simp add: resolve_row_def Let_def merge_vars_ok)

lemma resolved_refl: "resolved src a1 x {} s s"
  by (simp add: resolved_def)

lemma fold_resolve:
  assumes "wf s" "src < length (m_rows s)"
    and "\<forall>d\<in>set ds. d < length (m_rows s) \<and> d \<noteq> src" "distinct ds"
    and "\<forall>d\<in>set ds. m_alive (m_rows s ! d) \<longrightarrow> sorted_wrt (<) (map m_id (m_vars (m_rows s ! d)))"
  shows "wf (fold (\<lambda>d. resolve src a1 d x) ds s) \<and>
         resolved src a1 x (set ds) s (fold (\<lambda>d. resolve src a1 d x) ds s)"
  using assms
proof (induction ds arbitrary: s)
  case Nil
  then show ?case by (simp add: resolved_refl)
next
  case (Cons d ds)
  let ?s1 = "resolve src a1 d x s"
  let ?s' = "fold (\<lambda>d. resolve src a1 d x) ds ?s1"
  from Cons.prems have d: "d < length (m_rows s)" "d \<noteq> src" "d \<notin> set ds" by auto
  have rows1: "m_rows ?s1 =
           (if m_alive (m_rows s ! d)
            then (m_rows s)[d := resolve_row (d = m_objective_id) a1 x (m_rows s ! src) (m_rows s ! d)]
            else m_rows s)"
    using Cons.prems(5) by (intro resolve_rows) simp
  have same: "m_rows ?s1 ! i = m_rows s ! i" if "i \<noteq> d" for i
    using that by (simp add: rows1)
  have wf1: "wf ?s1" using Cons.prems(1,2) d(1) by (rule resolve_wf)
  have ih: "wf ?s' \<and> resolved src a1 x (set ds) ?s1 ?s'"
  proof (rule Cons.IH[OF wf1])
    show "src < length (m_rows ?s1)" using Cons.prems(2) by simp
    show "\<forall>d\<in>set ds. d < length (m_rows ?s1) \<and> d \<noteq> src" using Cons.prems(3) by simp
    show "distinct ds" using Cons.prems(4) by simp
    show "\<forall>e\<in>set ds. m_alive (m_rows ?s1 ! e) \<longrightarrow>
            sorted_wrt (<) (map m_id (m_vars (m_rows ?s1 ! e)))"
    proof (intro ballI impI)
      fix e assume e: "e \<in> set ds" and al: "m_alive (m_rows ?s1 ! e)"
      from e d(3) have "e \<noteq> d" by auto
      then have "m_rows ?s1 ! e = m_rows s ! e" by (rule same)
      with al Cons.prems(5) e show "sorted_wrt (<) (map m_id (m_vars (m_rows ?s1 ! e)))" by simp
    qed
  qed
  then have r: "resolved src a1 x (set ds) ?s1 ?s'" and w: "wf ?s'" by simp_all
  have "resolved src a1 x (set (d # ds)) s ?s'"
    unfolding resolved_def
  proof (intro conjI allI impI)
    show "m_var2value ?s' = m_var2value s" using r by (simp add: resolved_def)
    show "length (m_rows ?s') = length (m_rows s)" using r by (simp add: resolved_def)
    show "length (m_var2row_ids ?s') = length (m_var2row_ids s)" using r by (simp add: resolved_def)
  next
    fix i assume i: "i < length (m_rows s)"
    from r i have ri: "m_rows ?s' ! i =
        (if i \<in> set ds \<and> m_alive (m_rows ?s1 ! i)
         then resolve_row (i = m_objective_id) a1 x (m_rows ?s1 ! src) (m_rows ?s1 ! i)
         else m_rows ?s1 ! i)"
      by (simp add: resolved_def)
    show "m_rows ?s' ! i =
        (if i \<in> set (d # ds) \<and> m_alive (m_rows s ! i)
         then resolve_row (i = m_objective_id) a1 x (m_rows s ! src) (m_rows s ! i)
         else m_rows s ! i)"
    proof (cases "i = d")
      case True
      with d(3) ri have "m_rows ?s' ! i = m_rows ?s1 ! d" by simp
      with True d(1) show ?thesis by (simp add: rows1)
    next
      case False
      with ri same[of i] same[of src] d(2) show ?thesis by auto
    qed
  next
    fix w
    from r have m1: "set (m_var2row_ids ?s1 ! w) \<subseteq> set (m_var2row_ids ?s' ! w)"
      and u1: "set (m_var2row_ids ?s' ! w) \<subseteq> set (m_var2row_ids ?s1 ! w) \<union> set ds"
      by (simp_all add: resolved_def)
    show "set (m_var2row_ids s ! w) \<subseteq> set (m_var2row_ids ?s' ! w)"
      using m1 resolve_idx_mono[of s w src a1 d x] by blast
    show "set (m_var2row_ids ?s' ! w) \<subseteq> set (m_var2row_ids s ! w) \<union> set (d # ds)"
      using u1 resolve_idx_upper[of src a1 d x s w] by auto
  qed
  with w show ?case by simp
qed

lemma dedup_set: "set (dedup ids V) = set ids - V"
  by (induction ids arbitrary: V) auto

lemma dedup_distinct: "distinct (dedup ids V)"
  by (induction ids arbitrary: V) (auto simp: dedup_set)

lemma solve_for_loop_fold:
  "solve_for_loop row_id1 a x ids V s = fold (\<lambda>d. resolve row_id1 a d x) (dedup ids V) s"
  by (induction ids arbitrary: V s) simp_all

lemma fold_skip:
  "fold (\<lambda>d s. if d \<noteq> p then f d s else s) ds s = fold f (filter (\<lambda>d. d \<noteq> p) ds) s"
  by (induction ds arbitrary: s) simp_all

lemma kill_row_simps [simp]:
  "m_var2value (kill_row p s) = m_var2value s"
  "m_var2row_ids (kill_row p s) = m_var2row_ids s"
  "length (m_rows (kill_row p s)) = length (m_rows s)"
  by (simp_all add: kill_row_def)

lemma kill_row_nth:
  "i < length (m_rows s) \<Longrightarrow>
   m_rows (kill_row p s) ! i = (if i = p then (m_rows s ! p)\<lparr>m_alive := False\<rparr> else m_rows s ! i)"
  by (simp add: kill_row_def nth_list_update)

lemma wf_D:
  assumes "wf s"
  shows "m_rows s \<noteq> []" "length (m_rows s) \<le> UINT_MAX"
    "length (m_var2row_ids s) = length (m_var2value s)"
    "\<And>x k. x < length (m_var2value s) \<Longrightarrow> k \<in> set (m_var2row_ids s ! x) \<Longrightarrow>
        0 < k \<and> k < length (m_rows s)"
    "\<And>k v. k < length (m_rows s) \<Longrightarrow> v \<in> set (m_vars (m_rows s ! k)) \<Longrightarrow>
        m_id v < length (m_var2value s) \<and> (0 < k \<longrightarrow> k \<in> set (m_var2row_ids s ! m_id v))"
    "m_alive (m_rows s ! 0) \<or> m_vars (m_rows s ! 0) = []"
  using assms by (auto simp: wf_def)

lemma wf_kill_row:
  assumes "wf s" "0 < p"
  shows "wf (kill_row p s)"
  unfolding wf_def
proof (intro conjI allI impI ballI)
  show "m_rows (kill_row p s) \<noteq> []" using wf_D(1)[OF assms(1)] by (simp add: kill_row_def)
  show "length (m_rows (kill_row p s)) \<le> UINT_MAX" using wf_D(2)[OF assms(1)] by simp
  show "length (m_var2row_ids (kill_row p s)) = length (m_var2value (kill_row p s))"
    using wf_D(3)[OF assms(1)] by simp
next
  fix x i assume "x < length (m_var2row_ids (kill_row p s))" "i \<in> set (m_var2row_ids (kill_row p s) ! x)"
  then show "0 < i" "i < length (m_rows (kill_row p s))"
    using wf_D(4)[OF assms(1), of x i] wf_D(3)[OF assms(1)] by simp_all
next
  fix i v assume i: "i < length (m_rows (kill_row p s))" and v: "v \<in> set (m_vars (m_rows (kill_row p s) ! i))"
  from i v have "v \<in> set (m_vars (m_rows s ! i))" by (simp add: kill_row_nth split: if_splits)
  with wf_D(5)[OF assms(1), of i v] i
  show "m_id v < length (m_var2value (kill_row p s))"
    and "0 < i \<Longrightarrow> i \<in> set (m_var2row_ids (kill_row p s) ! m_id v)" by simp_all
next
  have "0 < length (m_rows s)" using wf_D(1)[OF assms(1)] by simp
  then have "m_rows (kill_row p s) ! 0 = m_rows s ! 0" using assms(2) by (simp add: kill_row_nth)
  with wf_D(6)[OF assms(1)]
  show "m_alive (m_rows (kill_row p s) ! 0) \<or> m_vars (m_rows (kill_row p s) ! 0) = []" by simp
qed

lemma tableau_invariant_D:
  assumes "tableau_invariant s" "i < length (m_rows s)" "m_alive (m_rows s ! i)"
  shows "row_invariant s (m_rows s ! i)" "0 < i \<Longrightarrow> satisfied (m_rows s ! i)"
  using assms by (auto simp: tableau_invariant_def)

lemma row_invariant_vars_ok: "row_invariant s r \<Longrightarrow> vars_ok (m_vars r)"
  by (simp add: row_invariant_def)

lemma vars_ok_sorted: "vars_ok vs \<Longrightarrow> sorted_wrt (<) (map m_id vs)"
  by (simp add: vars_ok_def)

lemma eliminate:
  assumes wf: "wf s" and inv: "tableau_invariant s" and piv: "pivot_for s x p D"
    and wf1: "wf s1" and res: "resolved p (get_coefficient s p x) x D s s1"
    and sat: "\<forall>i\<in>D. m_alive (m_rows s ! i) \<and> get_coefficient s i x \<noteq> 0 \<longrightarrow> resolvent_satisfied s x p i"
  shows "wf (kill_row p s1)"
    and "tableau_invariant (kill_row p s1)"
    and "\<forall>i<length (m_rows s). 0 < i \<and> m_alive (m_rows (kill_row p s1) ! i) \<longrightarrow>
            x \<notin> m_id ` set (m_vars (m_rows (kill_row p s1) ! i))"
    and "\<forall>z. mentions (kill_row p s1) z \<longrightarrow> mentions s z"
    and "m_rows (kill_row p s1) ! 0 = m_rows s ! 0"
    and "m_rows (kill_row p s1) ! p = (m_rows s ! p)\<lparr>m_alive := False\<rparr>"
    and "\<forall>i<length (m_rows s). i \<noteq> p \<longrightarrow> m_alive (m_rows (kill_row p s1) ! i) = m_alive (m_rows s ! i)"
    and "m_var2value (kill_row p s1) = m_var2value s"
    and "length (m_rows (kill_row p s1)) = length (m_rows s)"
    and "\<forall>i<length (m_rows s). \<not> m_alive (m_rows s ! i) \<longrightarrow> m_rows (kill_row p s1) ! i = m_rows s ! i"
proof -
  let ?a1 = "get_coefficient s p x"
  let ?s2 = "kill_row p s1"
  from piv have x: "x < length (m_var2value s)" and pin: "p \<in> set (m_var2row_ids s ! x)"
    and pal: "m_alive (m_rows s ! p)" and a1: "?a1 \<noteq> 0" and pD: "p \<notin> D"
    and Dsub: "D \<subseteq> set (m_var2row_ids s ! x)"
    and Dall: "\<And>i. i \<in> set (m_var2row_ids s ! x) \<Longrightarrow> m_alive (m_rows s ! i) \<Longrightarrow>
                 get_coefficient s i x \<noteq> 0 \<Longrightarrow> i \<noteq> p \<Longrightarrow> i \<in> D"
    by (auto simp: pivot_for_def)
  from wf_D(4)[OF wf x pin] have p0: "0 < p" and plen: "p < length (m_rows s)" by simp_all
  have Drange: "0 < i \<and> i < length (m_rows s)" if "i \<in> D" for i
    using wf_D(4)[OF wf x, of i] Dsub that by auto
  from res have vals1: "m_var2value s1 = m_var2value s" and len1: "length (m_rows s1) = length (m_rows s)"
    and rows1: "\<And>i. i < length (m_rows s) \<Longrightarrow> m_rows s1 ! i =
          (if i \<in> D \<and> m_alive (m_rows s ! i)
           then resolve_row (i = m_objective_id) ?a1 x (m_rows s ! p) (m_rows s ! i)
           else m_rows s ! i)"
    by (simp_all add: resolved_def)
  have pinv: "row_invariant s (m_rows s ! p)" using tableau_invariant_D(1)[OF inv plen pal] .
  have pco: "coeff_of (m_vars (m_rows s ! p)) x = ?a1"
    using pinv by (simp add: get_coefficient_coeff_of row_invariant_def vars_ok_def)
  have rows2: "m_rows ?s2 ! i =
      (if i = p then (m_rows s ! p)\<lparr>m_alive := False\<rparr>
       else if i \<in> D \<and> m_alive (m_rows s ! i)
       then resolve_row False ?a1 x (m_rows s ! p) (m_rows s ! i)
       else m_rows s ! i)" if "i < length (m_rows s)" for i
  proof -
    have "i \<in> D \<Longrightarrow> i \<noteq> m_objective_id" using Drange[of i] by (simp add: m_objective_id_def)
    with that rows1[of i] rows1[of p] plen pD len1 show ?thesis
      by (auto simp: kill_row_nth)
  qed
  show g1: "wf ?s2" using wf1 p0 by (rule wf_kill_row)
  show g5: "m_rows ?s2 ! 0 = m_rows s ! 0"
  proof -
    have "0 < length (m_rows s)" using wf_D(1)[OF wf] by simp
    moreover have "0 \<notin> D" using Drange[of 0] by auto
    ultimately show ?thesis using rows2[of 0] p0 by simp
  qed
  show g6: "m_rows ?s2 ! p = (m_rows s ! p)\<lparr>m_alive := False\<rparr>"
    using rows2[of p] plen by simp
  have dead: "\<not> m_alive (m_rows ?s2 ! p)" using g6 by simp
  show g7: "\<forall>i<length (m_rows s). i \<noteq> p \<longrightarrow> m_alive (m_rows ?s2 ! i) = m_alive (m_rows s ! i)"
  proof (intro allI impI)
    fix i assume i: "i < length (m_rows s)" and ip: "i \<noteq> p"
    show "m_alive (m_rows ?s2 ! i) = m_alive (m_rows s ! i)"
      unfolding rows2[OF i] using ip by simp
  qed
  show g8: "m_var2value ?s2 = m_var2value s" using vals1 by simp
  show g9: "length (m_rows ?s2) = length (m_rows s)" using len1 by simp
  show g10: "\<forall>i<length (m_rows s). \<not> m_alive (m_rows s ! i) \<longrightarrow> m_rows ?s2 ! i = m_rows s ! i"
  proof (intro allI impI)
    fix i assume i: "i < length (m_rows s)" and d: "\<not> m_alive (m_rows s ! i)"
    with pal have "i \<noteq> p" by auto
    with d show "m_rows ?s2 ! i = m_rows s ! i" unfolding rows2[OF i] by simp
  qed
  have rinv: "row_invariant ?s2 (m_rows ?s2 ! i)"
    if i: "i < length (m_rows s)" and al: "m_alive (m_rows ?s2 ! i)" for i
  proof -
    from al dead have ip: "i \<noteq> p" by auto
    with al g7 i have ali: "m_alive (m_rows s ! i)" by simp
    have ri: "row_invariant s (m_rows s ! i)" using tableau_invariant_D(1)[OF inv i ali] .
    have "row_invariant s (m_rows ?s2 ! i)"
      using rows2[OF i] ip ri pinv by (simp add: resolve_row_invariant)
    then show ?thesis by (simp only: row_invariant_cong[OF g8])
  qed
  have rsat: "satisfied (m_rows ?s2 ! i)"
    if i: "i < length (m_rows s)" and al: "m_alive (m_rows ?s2 ! i)" and i0: "0 < i" for i
  proof -
    from al dead have ip: "i \<noteq> p" by auto
    with al g7 i have ali: "m_alive (m_rows s ! i)" by simp
    have si: "satisfied (m_rows s ! i)" using tableau_invariant_D(2)[OF inv i ali i0] .
    have ri: "row_invariant s (m_rows s ! i)" using tableau_invariant_D(1)[OF inv i ali] .
    have co: "coeff_of (m_vars (m_rows s ! i)) x = get_coefficient s i x"
      using ri by (simp add: get_coefficient_coeff_of row_invariant_def vars_ok_def)
    show ?thesis
    proof (cases "i \<in> D \<and> get_coefficient s i x \<noteq> 0")
      case True
      with sat ali have rs: "resolvent_satisfied s x p i" by simp
      from True a1 have nz: "- get_coefficient s i x / ?a1 \<noteq> 0" by simp
      have "m_rows ?s2 ! i = mul_add_row ((0 < ?a1) = (0 < get_coefficient s i x))
              (- get_coefficient s i x / ?a1) (m_rows s ! i) (m_rows s ! p)"
        using rows2[OF i] ip True ali nz co by (simp add: resolve_row_def Let_def)
      with rs show ?thesis by (simp add: satisfied_sat_rel resolvent_satisfied_def)
    next
      case False
      have "m_rows ?s2 ! i = m_rows s ! i"
      proof (cases "i \<in> D")
        case True
        with False have "get_coefficient s i x = 0" by simp
        with co have "resolve_row False ?a1 x (m_rows s ! p) (m_rows s ! i) = m_rows s ! i"
          by (simp add: resolve_row_def)
        with rows2[OF i] ip show ?thesis by simp
      next
        case False
        with rows2[OF i] ip show ?thesis by simp
      qed
      with si show ?thesis by simp
    qed
  qed
  show g2: "tableau_invariant ?s2"
    unfolding tableau_invariant_def using rinv rsat g9 by simp
  show g3: "\<forall>i<length (m_rows s). 0 < i \<and> m_alive (m_rows ?s2 ! i) \<longrightarrow>
            x \<notin> m_id ` set (m_vars (m_rows ?s2 ! i))"
  proof (intro allI impI)
    fix i assume i: "i < length (m_rows s)" and h: "0 < i \<and> m_alive (m_rows ?s2 ! i)"
    from h dead have ip: "i \<noteq> p" by auto
    with h g7 i have ali: "m_alive (m_rows s ! i)" by simp
    have ri: "row_invariant s (m_rows s ! i)" using tableau_invariant_D(1)[OF inv i ali] .
    have co: "coeff_of (m_vars (m_rows s ! i)) x = get_coefficient s i x"
      using ri by (simp add: get_coefficient_coeff_of row_invariant_def vars_ok_def)
    have ok2: "vars_ok (m_vars (m_rows ?s2 ! i))"
      using rinv[OF i] h by (simp add: row_invariant_def)
    have "coeff_of (m_vars (m_rows ?s2 ! i)) x = 0"
    proof (cases "i \<in> D")
      case True
      have "coeff_of (m_vars (resolve_row False ?a1 x (m_rows s ! p) (m_rows s ! i))) x = 0"
        using row_invariant_vars_ok[OF ri] row_invariant_vars_ok[OF pinv] pco a1
        by (rule resolve_row_eliminates)
      with rows2[OF i] ip True ali show ?thesis by simp
    next
      case False
      have "get_coefficient s i x = 0"
      proof (rule ccontr)
        assume nz: "get_coefficient s i x \<noteq> 0"
        with co have "x \<in> m_id ` set (m_vars (m_rows s ! i))"
          using coeff_of_nonzero_iff[OF row_invariant_vars_ok[OF ri], of x] by simp
        then obtain v where v: "v \<in> set (m_vars (m_rows s ! i))" "m_id v = x" by auto
        with wf_D(5)[OF wf i v(1)] h have "i \<in> set (m_var2row_ids s ! x)" by simp
        from Dall[OF this ali nz ip] False show False by simp
      qed
      with rows2[OF i] ip False co show ?thesis by simp
    qed
    then show "x \<notin> m_id ` set (m_vars (m_rows ?s2 ! i))"
      using coeff_of_nonzero_iff[OF ok2, of x] by simp
  qed
  show g4: "\<forall>z. mentions ?s2 z \<longrightarrow> mentions s z"
  proof (intro allI impI)
    fix z assume "mentions ?s2 z"
    then obtain i where i: "i < length (m_rows s)" and al: "i = 0 \<or> m_alive (m_rows ?s2 ! i)"
      and z: "z \<in> m_id ` set (m_vars (m_rows ?s2 ! i))"
      unfolding mentions_def using g9 by auto
    show "mentions s z"
    proof (cases "i = 0")
      case True
      with z g5 wf_D(1)[OF wf] show ?thesis unfolding mentions_def by auto
    next
      case False
      with al have al2: "m_alive (m_rows ?s2 ! i)" by simp
      from al2 dead have ip: "i \<noteq> p" by auto
      with al2 g7 i have ali: "m_alive (m_rows s ! i)" by simp
      from z obtain v where v: "v \<in> set (m_vars (m_rows ?s2 ! i))" "m_id v = z" by auto
      have "(\<exists>w\<in>set (m_vars (m_rows s ! i)). m_id w = z) \<or> (\<exists>w\<in>set (m_vars (m_rows s ! p)). m_id w = z)"
      proof (cases "i \<in> D")
        case True
        with rows2[OF i] ip ali v(1)
        have "v \<in> set (m_vars (resolve_row False ?a1 x (m_rows s ! p) (m_rows s ! i)))" by simp
        from resolve_row_ids[OF this] v(2) show ?thesis by simp
      next
        case False
        with rows2[OF i] ip v show ?thesis by auto
      qed
      then show ?thesis
      proof
        assume "\<exists>w\<in>set (m_vars (m_rows s ! i)). m_id w = z"
        with i ali show ?thesis unfolding mentions_def by auto
      next
        assume "\<exists>w\<in>set (m_vars (m_rows s ! p)). m_id w = z"
        with plen pal show ?thesis unfolding mentions_def by auto
      qed
    qed
  qed
qed

lemma coeff_of_last:
  assumes "distinct (map m_id vs)" "vs \<noteq> []"
  shows "coeff_of vs (m_id (last vs)) = var.m_coeff (last vs)"
proof -
  from assms(2) have "length vs - 1 < length vs" by simp
  from coeff_of_nth[OF assms(1) this] assms(2) show ?thesis by (simp add: last_conv_nth)
qed

lemma mul_add_row_dead [simp]:
  "mul_add_row same_sign c r1 (r2\<lparr>m_alive := b\<rparr>) = mul_add_row same_sign c r1 r2"
  by (simp add: mul_add_row_def)

lemma kill_row_mul_add_objective:
  assumes "0 < p"
  shows "kill_row p (mul_add same_sign m_objective_id c p s) =
         mul_add same_sign m_objective_id c p (kill_row p s)"
proof (cases "c = 0")
  case True
  then show ?thesis by simp
next
  case False
  have n: "m_rows (kill_row p s) ! p = (if p < length (m_rows s) then (m_rows s ! p)\<lparr>m_alive := False\<rparr> else m_rows s ! p)"
    by (simp add: kill_row_def list_update_beyond)
  have z: "m_rows (kill_row p s) ! 0 = m_rows s ! 0"
    using assms by (simp add: kill_row_def)
  have r: "mul_add_row same_sign c (m_rows (kill_row p s) ! 0) (m_rows (kill_row p s) ! p) =
        mul_add_row same_sign c (m_rows s ! 0) (m_rows s ! p)"
    unfolding n z by simp
  show ?thesis
    using False assms r
    by (simp add: mul_add_nonzero m_objective_id_def merge_ids_objective[unfolded m_objective_id_def])
       (simp add: kill_row_def list_update_swap)
qed

lemma find_bound_fst: "fst (find_bound s x is_pos) \<longleftrightarrow> bound_row_index (snd (find_bound s x is_pos)) \<noteq> UINT_MAX"
  by (simp add: find_bound_def Let_def)

lemma maximize_step_unfold:
  "maximize_step s =
    (let v = last (m_vars (objective s)); x = m_id v; coeff = var.m_coeff v;
         b = snd (find_bound s x (0 < coeff)) in
     if bound_row_index b \<noteq> UINT_MAX then
       Some (bound_row_index b, x,
         kill_row (bound_row_index b)
           (mul_add False m_objective_id (- coeff / bound_coeff b) (bound_row_index b)
              (fold (\<lambda>row_id. resolve (bound_row_index b) (bound_coeff b) row_id x)
                 (m_above b @ m_below b) s)))
     else None)"
  by (simp add: maximize_step_def Let_def case_prod_beta find_bound_fst)

lemma wf_index_not_max:
  assumes "wf s" "x < length (m_var2value s)"
  shows "\<forall>i\<in>set (m_var2row_ids s ! x). i \<noteq> UINT_MAX"
proof
  fix i assume "i \<in> set (m_var2row_ids s ! x)"
  from wf_D(4)[OF assms this] wf_D(2)[OF assms(1)] show "i \<noteq> UINT_MAX" by simp
qed

lemma candidates_resolvent_satisfied:
  assumes inv: "tableau_invariant s"
    and p: "p < length (m_rows s)" "0 < p" "is_candidate s x is_pos p"
    and i: "i < length (m_rows s)" "0 < i" "m_alive (m_rows s ! i)" "get_coefficient s i x \<noteq> 0"
    and t: "is_candidate s x is_pos i \<longrightarrow> tightest s x is_pos p i"
  shows "resolvent_satisfied s x p i"
proof -
  let ?a1 = "get_coefficient s p x" and ?a2 = "get_coefficient s i x"
  let ?rp = "m_rows s ! p" and ?ri = "m_rows s ! i"
  from p(3) have pal: "m_alive ?rp" and a1: "?a1 \<noteq> 0"
    and pc: "(0 < ?a1) = is_pos \<or> m_type ?rp = t_eq"
    by (auto simp: is_candidate_def)
  have sp: "sat_rel (m_type ?rp) (m_value ?rp)"
    using tableau_invariant_D(2)[OF inv p(1) pal p(2)] by (simp add: satisfied_sat_rel)
  have si: "sat_rel (m_type ?ri) (m_value ?ri)"
    using tableau_invariant_D(2)[OF inv i(1) i(3) i(2)] by (simp add: satisfied_sat_rel)
  show ?thesis
  proof (cases "is_candidate s x is_pos i")
    case True
    then have ic: "(0 < ?a2) = is_pos \<or> m_type ?ri = t_eq" by (simp add: is_candidate_def)
    from t True have tt: "tightest s x is_pos p i" by simp
    then have tight: "if is_pos then m_var2value s ! x - m_value ?rp / ?a1 \<le> m_var2value s ! x - m_value ?ri / ?a2
                      else m_var2value s ! x - m_value ?ri / ?a2 \<le> m_var2value s ! x - m_value ?rp / ?a1"
      and tie: "m_var2value s ! x - m_value ?ri / ?a2 = m_var2value s ! x - m_value ?rp / ?a1 \<and>
                m_type ?ri = t_lt \<longrightarrow> m_type ?rp = t_lt"
      unfolding tightest_def bound_val_def by blast+
    show ?thesis
      unfolding resolvent_satisfied_def
      using a1 i(4) pc sp si ic tight tie by (rule resolve_satisfied_candidate)
  next
    case False
    with i(3,4) have opp: "(0 < ?a2) \<noteq> is_pos" "m_type ?ri \<noteq> t_eq"
      by (auto simp: is_candidate_def)
    show ?thesis
      unfolding resolvent_satisfied_def
      using a1 i(4) pc sp si opp by (rule resolve_satisfied_opposite)
  qed
qed

lemma objective_facts:
  assumes wf: "wf s" and inv: "tableau_invariant s" and ne: "m_vars (objective s) \<noteq> []"
  shows "m_alive (m_rows s ! 0)" "row_invariant s (m_rows s ! 0)"
    "m_id (last (m_vars (objective s))) < length (m_var2value s)"
    "var.m_coeff (last (m_vars (objective s))) \<noteq> 0"
    "coeff_of (m_vars (m_rows s ! 0)) (m_id (last (m_vars (objective s)))) =
       var.m_coeff (last (m_vars (objective s)))"
proof -
  have o: "objective s = m_rows s ! 0" by (simp add: objective_def m_objective_id_def)
  have len: "0 < length (m_rows s)" using wf_D(1)[OF wf] by simp
  show al: "m_alive (m_rows s ! 0)" using wf_D(6)[OF wf] ne o by auto
  show ri: "row_invariant s (m_rows s ! 0)" using tableau_invariant_D(1)[OF inv len al] .
  have l: "last (m_vars (objective s)) \<in> set (m_vars (m_rows s ! 0))" using ne o by simp
  from wf_D(5)[OF wf len l] show "m_id (last (m_vars (objective s))) < length (m_var2value s)" by simp
  from ri l show "var.m_coeff (last (m_vars (objective s))) \<noteq> 0"
    by (simp add: row_invariant_def vars_ok_def)
  from ri have "distinct (map m_id (m_vars (m_rows s ! 0)))"
    by (simp add: row_invariant_def vars_ok_def sorted_ids_distinct)
  from coeff_of_last[OF this] ne o
  show "coeff_of (m_vars (m_rows s ! 0)) (m_id (last (m_vars (objective s)))) =
       var.m_coeff (last (m_vars (objective s)))" by simp
qed

lemma maximize_step_None:
  assumes wf: "wf s" and inv: "tableau_invariant s" and ne: "m_vars (objective s) \<noteq> []"
  shows "maximize_step s = None \<longleftrightarrow>
         \<not> (\<exists>i\<in>set (m_var2row_ids s ! m_id (last (m_vars (objective s)))).
               is_candidate s (m_id (last (m_vars (objective s))))
                 (0 < var.m_coeff (last (m_vars (objective s)))) i)"
proof -
  let ?x = "m_id (last (m_vars (objective s)))"
  let ?pos = "0 < var.m_coeff (last (m_vars (objective s)))"
  let ?b = "snd (find_bound s ?x ?pos)"
  have binv: "find_bound_inv s ?x ?pos (set (m_var2row_ids s ! ?x)) ?b"
    using find_bound_inv_final[OF wf_index_not_max[OF wf objective_facts(3)[OF wf inv ne]]] .
  have "maximize_step s = None \<longleftrightarrow> bound_row_index ?b = UINT_MAX"
    by (simp add: maximize_step_unfold Let_def)
  also have "\<dots> \<longleftrightarrow> \<not> (\<exists>i\<in>set (m_var2row_ids s ! ?x). is_candidate s ?x ?pos i)"
    using binv unfolding find_bound_inv_def by (auto split: if_splits)
  finally show ?thesis .
qed

lemma maximize_step_Some:
  assumes wf: "wf s" and inv: "tableau_invariant s" and ne: "m_vars (objective s) \<noteq> []"
    and st: "maximize_step s = Some (p, y, s')"
  shows "y = m_id (last (m_vars (objective s)))" "step_ok s y p s'"
    "is_candidate s y (0 < var.m_coeff (last (m_vars (objective s)))) p"
    "p \<in> set (m_var2row_ids s ! y)"
proof -
  let ?v = "last (m_vars (objective s))"
  define x where "x = m_id ?v"
  define coeff where "coeff = var.m_coeff ?v"
  define b where "b = snd (find_bound s x (0 < coeff))"
  define q where "q = bound_row_index b"
  define a1 where "a1 = bound_coeff b"
  define ds where "ds = m_above b @ m_below b"
  define s1 where "s1 = fold (\<lambda>row_id. resolve q a1 row_id x) ds s"
  define c where "c = - coeff / a1"
  define s2 where "s2 = kill_row q s1"
  define R where "R = mul_add_row False c (m_rows s ! 0) (m_rows s ! q)"
  note of = objective_facts[OF wf inv ne, folded x_def coeff_def]
  have binv: "find_bound_inv s x (0 < coeff) (set (m_var2row_ids s ! x)) b"
    unfolding b_def using find_bound_inv_final[OF wf_index_not_max[OF wf of(3)]] .
  have unf: "maximize_step s =
      (if q \<noteq> UINT_MAX then Some (q, x, kill_row q (mul_add False m_objective_id c q s1)) else None)"
    unfolding maximize_step_unfold Let_def q_def a1_def ds_def s1_def c_def b_def x_def coeff_def ..
  from st unf have found: "q \<noteq> UINT_MAX" by (auto split: if_splits)
  with st unf have eqs: "p = q" "y = x" "s' = kill_row q (mul_add False m_objective_id c q s1)"
    by auto
  show y: "y = m_id (last (m_vars (objective s)))" using eqs(2) by (simp add: x_def)
  from binv found have pin: "q \<in> set (m_var2row_ids s ! x)"
    and pc: "is_candidate s x (0 < coeff) q"
    and a1: "a1 = get_coefficient s q x"
    and tight: "\<And>i. i \<in> set (m_var2row_ids s ! x) \<Longrightarrow> is_candidate s x (0 < coeff) i \<Longrightarrow>
                  tightest s x (0 < coeff) q i"
    and ab: "set (m_above b) = {i \<in> set (m_var2row_ids s ! x). is_candidate s x (0 < coeff) i \<and> i \<noteq> q}"
      "distinct (m_above b)"
    and be: "set (m_below b) = {i \<in> set (m_var2row_ids s ! x). is_opposite s x (0 < coeff) i}"
      "distinct (m_below b)"
    unfolding find_bound_inv_def q_def a1_def by auto
  show "is_candidate s y (0 < var.m_coeff (last (m_vars (objective s)))) p"
    using pc eqs by (simp add: coeff_def)
  show "p \<in> set (m_var2row_ids s ! y)" using pin eqs by simp
  from pc have pal: "m_alive (m_rows s ! q)" and a1nz: "get_coefficient s q x \<noteq> 0"
    by (auto simp: is_candidate_def)
  from wf_D(4)[OF wf of(3) pin] have p0: "0 < q" and plen: "q < length (m_rows s)" by simp_all
  have dsset: "set ds = {i \<in> set (m_var2row_ids s ! x).
       m_alive (m_rows s ! i) \<and> get_coefficient s i x \<noteq> 0 \<and> i \<noteq> q}"
    unfolding ds_def set_append ab be using pc by (auto simp: is_candidate_def is_opposite_def)
  have disj: "set (m_above b) \<inter> set (m_below b) = {}"
    unfolding ab be by (auto simp: is_candidate_def is_opposite_def)
  have dist: "distinct ds" unfolding ds_def using ab(2) be(2) disj by simp
  have pnot: "q \<notin> set ds" unfolding dsset by simp
  have Dsub: "set ds \<subseteq> set (m_var2row_ids s ! x)" unfolding dsset by auto
  have Drange: "0 < d \<and> d < length (m_rows s)" if "d \<in> set ds" for d
    using wf_D(4)[OF wf of(3), of d] Dsub that by auto
  have piv: "pivot_for s x q (set ds)"
    unfolding pivot_for_def using of(3) pin pal a1nz pnot Dsub dsset by simp
  have fr: "wf s1 \<and> resolved q a1 x (set ds) s s1"
    unfolding s1_def
  proof (rule fold_resolve[OF wf plen _ dist])
    show "\<forall>d\<in>set ds. d < length (m_rows s) \<and> d \<noteq> q" using Drange pnot by auto
    show "\<forall>d\<in>set ds. m_alive (m_rows s ! d) \<longrightarrow> sorted_wrt (<) (map m_id (m_vars (m_rows s ! d)))"
    proof (intro ballI impI)
      fix d assume "d \<in> set ds" "m_alive (m_rows s ! d)"
      with Drange[of d] tableau_invariant_D(1)[OF inv, of d]
      show "sorted_wrt (<) (map m_id (m_vars (m_rows s ! d)))"
        by (simp add: row_invariant_def vars_ok_def)
    qed
  qed
  then have wf1: "wf s1" and res: "resolved q (get_coefficient s q x) x (set ds) s s1"
    using a1 by simp_all
  have sat: "\<forall>i\<in>set ds. m_alive (m_rows s ! i) \<and> get_coefficient s i x \<noteq> 0 \<longrightarrow>
               resolvent_satisfied s x q i"
  proof (intro ballI impI)
    fix i assume i: "i \<in> set ds" and h: "m_alive (m_rows s ! i) \<and> get_coefficient s i x \<noteq> 0"
    have t: "is_candidate s x (0 < coeff) i \<longrightarrow> tightest s x (0 < coeff) q i"
      using tight[of i] Dsub i by auto
    show "resolvent_satisfied s x q i"
      using candidates_resolvent_satisfied[OF inv plen p0 pc _ _ _ _ t] Drange[OF i] h by simp
  qed
  note el = eliminate[OF wf inv piv wf1 res sat, folded s2_def]
  have s': "s' = mul_add False m_objective_id c q s2"
    unfolding eqs(3) s2_def using p0 by (rule kill_row_mul_add_objective)
  have cnz: "c \<noteq> 0" unfolding c_def using of(4) a1 a1nz by simp
  have len0: "0 < length (m_rows s)" using wf_D(1)[OF wf] by simp
  have rows': "m_rows s' = (m_rows s2)[0 := R]"
    unfolding s' R_def using cnz el(5,6) by (simp add: mul_add_nonzero m_objective_id_def)
  have nth0: "m_rows s' ! 0 = R" unfolding rows' using len0 el(9) by simp
  have nthS: "m_rows s' ! i = m_rows s2 ! i" if "0 < i" for i
    unfolding rows' using that by simp
  have vals': "m_var2value s' = m_var2value s" unfolding s' using el(8) by simp
  have len': "length (m_rows s') = length (m_rows s)" unfolding rows' using el(9) by simp
  have wf': "wf s'"
    unfolding s' m_objective_id_def
  proof (rule wf_mul_add[OF el(1)])
    show "0 < length (m_rows s2)" using el(9) len0 by simp
    show "q < length (m_rows s2)" using el(9) plen by simp
    show "0 = 0 \<longrightarrow> m_alive (m_rows s2 ! 0)" using el(5) of(1) by simp
  qed
  have pinv: "row_invariant s (m_rows s ! q)" using tableau_invariant_D(1)[OF inv plen pal] .
  have Rinv: "row_invariant s R"
    unfolding R_def using cnz of(2) pinv by (rule mul_add_row_invariant)
  have Ral: "m_alive R" unfolding R_def using of(1) by simp
  have Rx: "coeff_of (m_vars R) x = 0"
  proof -
    have "coeff_of (m_vars (m_rows s ! q)) x = a1"
      using pinv a1 by (simp add: get_coefficient_coeff_of row_invariant_def vars_ok_def)
    then have "coeff_of (m_vars R) x = coeff + c * a1"
      unfolding R_def
      using row_invariant_vars_ok[OF of(2)] row_invariant_vars_ok[OF pinv] of(5)
      by (simp add: mul_add_row_coeff del: mul_add_row_fields)
    also have "\<dots> = 0" unfolding c_def using a1 a1nz by simp
    finally show ?thesis .
  qed
  have Rids: "(\<exists>w\<in>set (m_vars (m_rows s ! 0)). m_id w = m_id v) \<or>
              (\<exists>w\<in>set (m_vars (m_rows s ! q)). m_id w = m_id v)" if "v \<in> set (m_vars R)" for v
    using that merge_vars_ids_elem[of v c "m_vars (m_rows s ! 0)" "m_vars (m_rows s ! q)"]
    by (simp add: R_def)
  have inv': "tableau_invariant s'"
    unfolding tableau_invariant_def
  proof (intro conjI allI impI)
    fix i assume i: "i < length (m_rows s')" and al: "m_alive (m_rows s' ! i)"
    from i len' have i': "i < length (m_rows s)" by simp
    show "row_invariant s' (m_rows s' ! i)"
    proof (cases "i = 0")
      case True
      with nth0 Rinv show ?thesis by (simp only: row_invariant_cong[OF vals'])
    next
      case False
      with nthS[of i] al have "m_alive (m_rows s2 ! i)" "m_rows s' ! i = m_rows s2 ! i" by simp_all
      with tableau_invariant_D(1)[OF el(2), of i] i' el(9)
      have "row_invariant s2 (m_rows s' ! i)" by simp
      then have "row_invariant s (m_rows s' ! i)" by (simp only: row_invariant_cong[OF el(8)])
      then show ?thesis by (simp only: row_invariant_cong[OF vals'])
    qed
  next
    fix i assume i: "i < length (m_rows s')" and h: "0 < i \<and> m_alive (m_rows s' ! i)"
    from i len' have i': "i < length (m_rows s)" by simp
    from h nthS[of i] have "m_alive (m_rows s2 ! i)" "m_rows s' ! i = m_rows s2 ! i" by simp_all
    with tableau_invariant_D(2)[OF el(2), of i] i' el(9) h
    show "satisfied (m_rows s' ! i)" by simp
  qed
  have nm: "\<not> mentions s' x"
  proof
    assume "mentions s' x"
    then obtain i where i: "i < length (m_rows s)" and al: "i = 0 \<or> m_alive (m_rows s' ! i)"
      and z: "x \<in> m_id ` set (m_vars (m_rows s' ! i))"
      unfolding mentions_def using len' by auto
    show False
    proof (cases "i = 0")
      case True
      with z nth0 have "x \<in> m_id ` set (m_vars R)" by simp
      with coeff_of_nonzero_iff[OF row_invariant_vars_ok[OF Rinv], of x] Rx show False by simp
    next
      case False
      with al nthS[of i] z have "m_alive (m_rows s2 ! i)" "x \<in> m_id ` set (m_vars (m_rows s2 ! i))"
        by simp_all
      with el(3) i False show False by simp
    qed
  qed
  have sub: "\<forall>z. mentions s' z \<longrightarrow> mentions s z"
  proof (intro allI impI)
    fix z assume "mentions s' z"
    then obtain i where i: "i < length (m_rows s)" and al: "i = 0 \<or> m_alive (m_rows s' ! i)"
      and z: "z \<in> m_id ` set (m_vars (m_rows s' ! i))"
      unfolding mentions_def using len' by auto
    show "mentions s z"
    proof (cases "i = 0")
      case True
      with z nth0 obtain v where "v \<in> set (m_vars R)" "m_id v = z" by auto
      from Rids[OF this(1)] this(2)
      have "(\<exists>w\<in>set (m_vars (m_rows s ! 0)). m_id w = z) \<or> (\<exists>w\<in>set (m_vars (m_rows s ! q)). m_id w = z)"
        by simp
      then show ?thesis
      proof
        assume "\<exists>w\<in>set (m_vars (m_rows s ! 0)). m_id w = z"
        with len0 show ?thesis unfolding mentions_def by auto
      next
        assume "\<exists>w\<in>set (m_vars (m_rows s ! q)). m_id w = z"
        with plen pal show ?thesis unfolding mentions_def by auto
      qed
    next
      case False
      with al nthS[of i] z have "m_alive (m_rows s2 ! i)" "z \<in> m_id ` set (m_vars (m_rows s2 ! i))"
        by simp_all
      with i el(9) have "mentions s2 z" unfolding mentions_def by auto
      with el(4) show ?thesis by simp
    qed
  qed
  have g1: "m_rows s' ! q = (m_rows s ! q)\<lparr>m_alive := False\<rparr>"
    using nthS[OF p0] el(6) by simp
  have g2: "m_alive (m_rows s' ! i) = m_alive (m_rows s ! i)" if "i < length (m_rows s)" "i \<noteq> q" for i
  proof (cases "i = 0")
    case True
    with nth0 Ral of(1) show ?thesis by simp
  next
    case False
    with nthS[of i] el(7) that show ?thesis by simp
  qed
  have g3: "m_rows s' ! i = m_rows s ! i" if "i < length (m_rows s)" "\<not> m_alive (m_rows s ! i)" for i
  proof -
    from that(2) of(1) have "0 < i" by (cases "i = 0") auto
    with nthS[of i] el(10) that show ?thesis by simp
  qed
  have "step_ok s x q s'"
    unfolding step_ok_def using wf' inv' vals' len' p0 plen pal nm sub g1 g2 g3 by simp
  then show "step_ok s y p s'" using eqs by simp
qed

lemma same_shape_refl [simp]: "same_shape s s"
  by (simp add: same_shape_def)

lemma same_shape_trans:
  assumes "same_shape s s1" "same_shape s1 s2"
  shows "same_shape s s2"
  unfolding same_shape_def
proof (intro conjI allI impI)
  fix i assume i: "i < length (m_rows s)"
  from assms(1) i have a: "m_rows s1 ! i = (m_rows s ! i)\<lparr>m_value := m_value (m_rows s1 ! i)\<rparr>"
    by (simp add: same_shape_def)
  from assms i have b: "m_rows s2 ! i = (m_rows s1 ! i)\<lparr>m_value := m_value (m_rows s2 ! i)\<rparr>"
    by (simp add: same_shape_def)
  show "m_rows s2 ! i = (m_rows s ! i)\<lparr>m_value := m_value (m_rows s2 ! i)\<rparr>"
    by (subst b, subst a) simp
qed (use assms in \<open>simp_all add: same_shape_def\<close>)

lemma same_shape_fields:
  assumes "same_shape s s'" "i < length (m_rows s)"
  shows "m_vars (m_rows s' ! i) = m_vars (m_rows s ! i)"
    "m_alive (m_rows s' ! i) = m_alive (m_rows s ! i)"
    "m_type (m_rows s' ! i) = m_type (m_rows s ! i)"
    "row.m_coeff (m_rows s' ! i) = row.m_coeff (m_rows s ! i)"
proof -
  from assms have e: "m_rows s' ! i = (m_rows s ! i)\<lparr>m_value := m_value (m_rows s' ! i)\<rparr>"
    by (simp add: same_shape_def)
  show "m_vars (m_rows s' ! i) = m_vars (m_rows s ! i)" by (subst e) simp
  show "m_alive (m_rows s' ! i) = m_alive (m_rows s ! i)" by (subst e) simp
  show "m_type (m_rows s' ! i) = m_type (m_rows s ! i)" by (subst e) simp
  show "row.m_coeff (m_rows s' ! i) = row.m_coeff (m_rows s ! i)" by (subst e) simp
qed

lemma same_shape_D:
  assumes "same_shape s s'"
  shows "m_var2row_ids s' = m_var2row_ids s" "length (m_rows s') = length (m_rows s)"
    "length (m_var2value s') = length (m_var2value s)"
  using assms by (simp_all add: same_shape_def)

lemma same_shape_wf:
  assumes sh: "same_shape s s'" and wf: "wf s"
  shows "wf s'"
  unfolding wf_def
proof (intro conjI allI impI ballI)
  note d = same_shape_D[OF sh]
  show "m_rows s' \<noteq> []" using wf_D(1)[OF wf] d(2) by auto
  show "length (m_rows s') \<le> UINT_MAX" using wf_D(2)[OF wf] d(2) by simp
  show "length (m_var2row_ids s') = length (m_var2value s')" using wf_D(3)[OF wf] d by simp
  { fix x i assume "x < length (m_var2row_ids s')" "i \<in> set (m_var2row_ids s' ! x)"
    then show "0 < i" "i < length (m_rows s')"
      using wf_D(4)[OF wf, of x i] wf_D(3)[OF wf] d by simp_all }
  { fix i v assume i: "i < length (m_rows s')" and v: "v \<in> set (m_vars (m_rows s' ! i))"
    from i d have i': "i < length (m_rows s)" by simp
    from v same_shape_fields(1)[OF sh i'] have "v \<in> set (m_vars (m_rows s ! i))" by simp
    with wf_D(5)[OF wf i'] d
    show "m_id v < length (m_var2value s')"
      and "0 < i \<Longrightarrow> i \<in> set (m_var2row_ids s' ! m_id v)" by simp_all }
  have "0 < length (m_rows s)" using wf_D(1)[OF wf] by simp
  from same_shape_fields(1,2)[OF sh this] wf_D(6)[OF wf]
  show "m_alive (m_rows s' ! 0) \<or> m_vars (m_rows s' ! 0) = []" by simp
qed

lemma agree_off_refl [simp]: "agree_off X s s"
  by (simp add: agree_off_def)

lemma agree_off_trans: "agree_off X s s1 \<Longrightarrow> agree_off X s1 s2 \<Longrightarrow> agree_off X s s2"
  by (simp add: agree_off_def)

lemma row_sum_agree:
  "\<forall>v\<in>set vs. vals' ! m_id v = vals ! m_id v \<Longrightarrow> row_sum vals' vs = row_sum vals vs"
  by (induction vs) simp_all

lemma get_row_value_agree:
  assumes "agree_off X s s'" "\<forall>v\<in>set (m_vars r). m_id v \<notin> X"
    "m_vars r' = m_vars r" "row.m_coeff r' = row.m_coeff r"
  shows "get_row_value s' r' = get_row_value s r"
proof -
  have "row_sum (m_var2value s') (m_vars r) = row_sum (m_var2value s) (m_vars r)"
    using assms(1,2) by (intro row_sum_agree) (simp add: agree_off_def)
  with assms(3,4) show ?thesis by (simp add: get_row_value_sum)
qed

lemma get_row_value_same_vals:
  assumes "m_var2value s' = m_var2value s" "m_vars r' = m_vars r" "row.m_coeff r' = row.m_coeff r"
  shows "get_row_value s' r' = get_row_value s r"
  using assms by (simp add: get_row_value_sum)

lemma free_of_shape:
  "same_shape s s' \<Longrightarrow> i < length (m_rows s) \<Longrightarrow> free_of X s' i = free_of X s i"
  by (simp add: free_of_def same_shape_fields)

text \<open>One trail entry of the first loop.\<close>

lemma update_values_entry_effect:
  assumes x: "x \<in> X"
  shows "same_shape s (update_values_entry x row_id s)"
    and "agree_off X s (update_values_entry x row_id s)"
    and "\<forall>i<length (m_rows s). free_of X s i \<and> value_ok s i \<longrightarrow> value_ok (update_values_entry x row_id s) i"
    and "\<forall>i<length (m_rows s). i \<noteq> row_id \<longrightarrow>
           m_value (m_rows (update_values_entry x row_id s) ! i) = m_value (m_rows s ! i)"
    and "row_id < length (m_rows s) \<longrightarrow> value_ok (update_values_entry x row_id s) row_id"
proof -
  let ?nv = "update_values_new_val s x (m_rows s ! row_id)"
  let ?s1 = "s\<lparr>m_var2value := (m_var2value s)[x := ?nv]\<rparr>"
  let ?r = "m_rows s ! row_id"
  let ?s' = "update_values_entry x row_id s"
  have s': "?s' = ?s1\<lparr>m_rows := (m_rows s)[row_id := ?r\<lparr>m_value := get_row_value ?s1 ?r\<rparr>]\<rparr>"
    by (simp add: update_values_entry_def Let_def)
  have vals: "m_var2value ?s' = (m_var2value s)[x := ?nv]" by (simp add: s')
  have rows: "m_rows ?s' = (m_rows s)[row_id := ?r\<lparr>m_value := get_row_value ?s1 ?r\<rparr>]"
    by (simp add: s')
  have idx: "m_var2row_ids ?s' = m_var2row_ids s" by (simp add: s')
  have "m_rows ?s' ! i = (m_rows s ! i)\<lparr>m_value := m_value (m_rows ?s' ! i)\<rparr>"
    if "i < length (m_rows s)" for i
    unfolding rows using that by (cases "i = row_id") simp_all
  then show sh: "same_shape s ?s'"
    unfolding same_shape_def using vals rows idx by simp
  show ag: "agree_off X s ?s'"
    unfolding agree_off_def vals
  proof (intro allI impI)
    fix z assume "z \<notin> X"
    with x have "x \<noteq> z" by auto
    then show "(m_var2value s)[x := ?nv] ! z = m_var2value s ! z" by simp
  qed
  have g: "get_row_value ?s' r = get_row_value ?s1 r" for r
    by (simp add: get_row_value_def vals)
  show "row_id < length (m_rows s) \<longrightarrow> value_ok ?s' row_id"
    by (simp add: value_ok_def rows vals get_row_value_def)
  show "\<forall>i<length (m_rows s). i \<noteq> row_id \<longrightarrow> m_value (m_rows ?s' ! i) = m_value (m_rows s ! i)"
    unfolding rows by simp
  show "\<forall>i<length (m_rows s). free_of X s i \<and> value_ok s i \<longrightarrow> value_ok ?s' i"
  proof (intro allI impI)
    fix i assume i: "i < length (m_rows s)" and h: "free_of X s i \<and> value_ok s i"
    show "value_ok ?s' i"
    proof (cases "i = row_id")
      case True
      with i show ?thesis by (simp add: value_ok_def rows vals get_row_value_def)
    next
      case False
      then have r: "m_rows ?s' ! i = m_rows s ! i" unfolding rows by simp
      have "get_row_value ?s' (m_rows s ! i) = get_row_value s (m_rows s ! i)"
        using ag h by (intro get_row_value_agree[where X = X]) (simp_all add: free_of_def)
      with h show ?thesis unfolding value_ok_def r by simp
    qed
  qed
qed

lemma update_values_loop1_effect:
  assumes "n \<le> length bound_vars" "n \<le> length bound_trail"
  shows "same_shape s (update_values_loop1 bound_vars bound_trail n s) \<and>
         agree_off (set bound_vars) s (update_values_loop1 bound_vars bound_trail n s) \<and>
         (\<forall>i<length (m_rows s). free_of (set bound_vars) s i \<and> value_ok s i \<longrightarrow>
            value_ok (update_values_loop1 bound_vars bound_trail n s) i) \<and>
         (\<forall>i<length (m_rows s). i \<notin> set bound_trail \<longrightarrow>
            m_value (m_rows (update_values_loop1 bound_vars bound_trail n s) ! i) = m_value (m_rows s ! i)) \<and>
         (\<forall>i<length (m_rows s). i \<in> set (take n bound_trail) \<longrightarrow> free_of (set bound_vars) s i \<longrightarrow>
            value_ok (update_values_loop1 bound_vars bound_trail n s) i)"
  using assms
proof (induction n arbitrary: s)
  case 0
  then show ?case by simp
next
  case (Suc n)
  let ?X = "set bound_vars"
  let ?x = "bound_vars ! n" and ?row = "bound_trail ! n"
  let ?s1 = "update_values_entry ?x ?row s"
  let ?s' = "update_values_loop1 bound_vars bound_trail n ?s1"
  from Suc.prems have xin: "?x \<in> ?X" and rin: "?row \<in> set bound_trail" by simp_all
  note e = update_values_entry_effect[OF xin, where s = s and row_id = ?row]
  from Suc.prems have "n \<le> length bound_vars" "n \<le> length bound_trail" by simp_all
  from Suc.IH[OF this, of ?s1]
  have ih1: "same_shape ?s1 ?s'" and ih2: "agree_off ?X ?s1 ?s'"
    and ih3: "\<And>i. i < length (m_rows ?s1) \<Longrightarrow> free_of ?X ?s1 i \<and> value_ok ?s1 i \<Longrightarrow> value_ok ?s' i"
    and ih4: "\<And>i. i < length (m_rows ?s1) \<Longrightarrow> i \<notin> set bound_trail \<Longrightarrow>
                m_value (m_rows ?s' ! i) = m_value (m_rows ?s1 ! i)"
    and ih5: "\<And>i. i < length (m_rows ?s1) \<Longrightarrow> i \<in> set (take n bound_trail) \<Longrightarrow> free_of ?X ?s1 i \<Longrightarrow>
                value_ok ?s' i"
    by simp_all
  have len1: "length (m_rows ?s1) = length (m_rows s)" using same_shape_D(2)[OF e(1)] .
  have "same_shape s ?s'" using e(1) ih1 by (rule same_shape_trans)
  moreover have "agree_off ?X s ?s'" using e(2) ih2 by (rule agree_off_trans)
  moreover have "value_ok ?s' i" if "i < length (m_rows s)" "free_of ?X s i \<and> value_ok s i" for i
  proof -
    from that e(3) have "value_ok ?s1 i" by simp
    moreover from that have "free_of ?X ?s1 i" by (simp add: free_of_shape[OF e(1)])
    ultimately show ?thesis using ih3[of i] that(1) len1 by simp
  qed
  moreover have "m_value (m_rows ?s' ! i) = m_value (m_rows s ! i)"
    if "i < length (m_rows s)" "i \<notin> set bound_trail" for i
  proof -
    from that rin have "i \<noteq> ?row" by auto
    with e(4) that(1) have "m_value (m_rows ?s1 ! i) = m_value (m_rows s ! i)" by simp
    with ih4[of i] that len1 show ?thesis by simp
  qed
  moreover have "value_ok ?s' i"
    if "i < length (m_rows s)" "i \<in> set (take (Suc n) bound_trail)" "free_of ?X s i" for i
  proof -
    from that(3) have f1: "free_of ?X ?s1 i" using that(1) by (simp add: free_of_shape[OF e(1)])
    from Suc.prems that(2) have "i \<in> set (take n bound_trail) \<or> i = ?row"
      by (auto simp: take_Suc_conv_app_nth)
    then show ?thesis
    proof
      assume "i \<in> set (take n bound_trail)"
      with ih5[of i] that(1) len1 f1 show ?thesis by simp
    next
      assume "i = ?row"
      with e(5) that(1) have "value_ok ?s1 i" by simp
      with ih3[of i] f1 that(1) len1 show ?thesis by simp
    qed
  qed
  ultimately show ?case by simp
qed

lemma recompute_row_effect:
  shows "same_shape s (recompute_row row_id s)"
    and "m_var2value (recompute_row row_id s) = m_var2value s"
    and "\<forall>i<length (m_rows s). i \<noteq> row_id \<longrightarrow> m_rows (recompute_row row_id s) ! i = m_rows s ! i"
    and "row_id < length (m_rows s) \<longrightarrow> value_ok (recompute_row row_id s) row_id"
proof -
  let ?s' = "recompute_row row_id s"
  have rows: "m_rows ?s' = (m_rows s)[row_id := (m_rows s ! row_id)\<lparr>m_value := get_row_value s (m_rows s ! row_id)\<rparr>]"
    by (simp add: recompute_row_def)
  show vals: "m_var2value ?s' = m_var2value s" by (simp add: recompute_row_def)
  have "m_rows ?s' ! i = (m_rows s ! i)\<lparr>m_value := m_value (m_rows ?s' ! i)\<rparr>"
    if "i < length (m_rows s)" for i
    unfolding rows using that by (cases "i = row_id") simp_all
  then show "same_shape s ?s'"
    unfolding same_shape_def using vals rows by (simp add: recompute_row_def)
  show "\<forall>i<length (m_rows s). i \<noteq> row_id \<longrightarrow> m_rows ?s' ! i = m_rows s ! i"
    unfolding rows by simp
  show "row_id < length (m_rows s) \<longrightarrow> value_ok ?s' row_id"
    by (simp add: value_ok_def rows vals get_row_value_def)
qed

lemma value_ok_same_vals:
  assumes "same_shape s s'" "m_var2value s' = m_var2value s" "i < length (m_rows s)"
    "m_value (m_rows s' ! i) = m_value (m_rows s ! i)"
  shows "value_ok s' i = value_ok s i"
  using assms get_row_value_same_vals[OF assms(2), of "m_rows s' ! i" "m_rows s ! i"]
  by (simp add: value_ok_def same_shape_fields)

lemma fold_recompute_effect:
  "same_shape s (fold recompute_row ids s) \<and>
   m_var2value (fold recompute_row ids s) = m_var2value s \<and>
   (\<forall>i<length (m_rows s). i \<notin> set ids \<longrightarrow> m_rows (fold recompute_row ids s) ! i = m_rows s ! i) \<and>
   (\<forall>i<length (m_rows s). i \<in> set ids \<longrightarrow> value_ok (fold recompute_row ids s) i)"
proof (induction ids arbitrary: s)
  case Nil
  then show ?case by simp
next
  case (Cons d ids)
  let ?s1 = "recompute_row d s"
  let ?s' = "fold recompute_row ids ?s1"
  note e = recompute_row_effect[where s = s and row_id = d]
  from Cons.IH[where s = ?s1]
  have ih1: "same_shape ?s1 ?s'" and ih2: "m_var2value ?s' = m_var2value ?s1"
    and ih3: "\<And>i. i < length (m_rows ?s1) \<Longrightarrow> i \<notin> set ids \<Longrightarrow> m_rows ?s' ! i = m_rows ?s1 ! i"
    and ih4: "\<And>i. i < length (m_rows ?s1) \<Longrightarrow> i \<in> set ids \<Longrightarrow> value_ok ?s' i"
    by simp_all
  have len1: "length (m_rows ?s1) = length (m_rows s)" using same_shape_D(2)[OF e(1)] .
  have "same_shape s ?s'" using e(1) ih1 by (rule same_shape_trans)
  moreover have "m_var2value ?s' = m_var2value s" using ih2 e(2) by simp
  moreover have "m_rows ?s' ! i = m_rows s ! i" if "i < length (m_rows s)" "i \<notin> set (d # ids)" for i
    using ih3[of i] e(3) that len1 by simp
  moreover have "value_ok ?s' i" if "i < length (m_rows s)" "i \<in> set (d # ids)" for i
  proof (cases "i \<in> set ids")
    case True
    with ih4[of i] that(1) len1 show ?thesis by simp
  next
    case False
    with that have "i = d" by simp
    with e(4) that(1) have v1: "value_ok ?s1 i" by simp
    from ih3[of i] False that(1) len1 have "m_rows ?s' ! i = m_rows ?s1 ! i" by simp
    then have "value_ok ?s' i = value_ok ?s1 i"
      using value_ok_same_vals[OF ih1 ih2, of i] that(1) len1 by simp
    with v1 show ?thesis by simp
  qed
  ultimately show ?case by simp
qed

lemma update_values_loop2_effect:
  assumes "n \<le> length bound_vars"
  shows "same_shape s (update_values_loop2 bound_vars n s) \<and>
   m_var2value (update_values_loop2 bound_vars n s) = m_var2value s \<and>
   (\<forall>i<length (m_rows s). value_ok s i \<longrightarrow> value_ok (update_values_loop2 bound_vars n s) i) \<and>
   (\<forall>i<length (m_rows s). \<forall>x\<in>set (take n bound_vars). i \<in> set (m_var2row_ids s ! x) \<longrightarrow>
        value_ok (update_values_loop2 bound_vars n s) i) \<and>
   (\<forall>i<length (m_rows s). m_value (m_rows (update_values_loop2 bound_vars n s) ! i) = m_value (m_rows s ! i) \<or>
        value_ok (update_values_loop2 bound_vars n s) i)"
  using assms
proof (induction n arbitrary: s)
  case 0
  then show ?case by simp
next
  case (Suc n)
  let ?x = "bound_vars ! n"
  let ?ids = "m_var2row_ids s ! ?x"
  let ?s1 = "fold recompute_row ?ids s"
  let ?s' = "update_values_loop2 bound_vars n ?s1"
  from fold_recompute_effect[where s = s and ids = ?ids]
  have e1: "same_shape s ?s1" and e2: "m_var2value ?s1 = m_var2value s"
    and e3: "\<And>i. i < length (m_rows s) \<Longrightarrow> i \<notin> set ?ids \<Longrightarrow> m_rows ?s1 ! i = m_rows s ! i"
    and e4: "\<And>i. i < length (m_rows s) \<Longrightarrow> i \<in> set ?ids \<Longrightarrow> value_ok ?s1 i"
    by simp_all
  from Suc.prems have "n \<le> length bound_vars" by simp
  from Suc.IH[OF this, where s = ?s1]
  have ih1: "same_shape ?s1 ?s'" and ih2: "m_var2value ?s' = m_var2value ?s1"
    and ih3: "\<And>i. i < length (m_rows ?s1) \<Longrightarrow> value_ok ?s1 i \<Longrightarrow> value_ok ?s' i"
    and ih4: "\<And>i x. i < length (m_rows ?s1) \<Longrightarrow> x \<in> set (take n bound_vars) \<Longrightarrow>
                i \<in> set (m_var2row_ids ?s1 ! x) \<Longrightarrow> value_ok ?s' i"
    and ih5: "\<And>i. i < length (m_rows ?s1) \<Longrightarrow>
                m_value (m_rows ?s' ! i) = m_value (m_rows ?s1 ! i) \<or> value_ok ?s' i"
    by blast+
  have len1: "length (m_rows ?s1) = length (m_rows s)" using same_shape_D(2)[OF e1] .
  have idx1: "m_var2row_ids ?s1 = m_var2row_ids s" using same_shape_D(1)[OF e1] .
  have keep1: "value_ok ?s1 i" if "i < length (m_rows s)" "value_ok s i" for i
  proof (cases "i \<in> set ?ids")
    case True
    with e4 that show ?thesis by simp
  next
    case False
    with e3 that have "m_rows ?s1 ! i = m_rows s ! i" by simp
    then have "value_ok ?s1 i = value_ok s i"
      using value_ok_same_vals[OF e1 e2 that(1)] by simp
    with that show ?thesis by simp
  qed
  have "same_shape s ?s'" using e1 ih1 by (rule same_shape_trans)
  moreover have "m_var2value ?s' = m_var2value s" using ih2 e2 by simp
  moreover have "value_ok ?s' i" if "i < length (m_rows s)" "value_ok s i" for i
    using ih3[of i] keep1[OF that] that(1) len1 by simp
  moreover have "value_ok ?s' i"
    if "i < length (m_rows s)" "x \<in> set (take (Suc n) bound_vars)" "i \<in> set (m_var2row_ids s ! x)" for i x
  proof -
    from Suc.prems that(2) have "x \<in> set (take n bound_vars) \<or> x = ?x"
      by (auto simp: take_Suc_conv_app_nth)
    then show ?thesis
    proof
      assume "x \<in> set (take n bound_vars)"
      with ih4[of i x] that len1 idx1 show ?thesis by simp
    next
      assume "x = ?x"
      with e4[of i] that have "value_ok ?s1 i" by simp
      with ih3[of i] that(1) len1 show ?thesis by simp
    qed
  qed
  moreover have "m_value (m_rows ?s' ! i) = m_value (m_rows s ! i) \<or> value_ok ?s' i"
    if "i < length (m_rows s)" for i
  proof (cases "i \<in> set ?ids")
    case True
    with e4 that have "value_ok ?s1 i" by simp
    with ih3[of i] that len1 show ?thesis by simp
  next
    case False
    with e3 that have "m_rows ?s1 ! i = m_rows s ! i" by simp
    with ih5[of i] that len1 show ?thesis by simp
  qed
  ultimately show ?case by simp
qed

lemma update_values_effect:
  assumes wf: "wf s" and len: "length bound_vars = length bound_trail"
  shows "same_shape s (update_values bound_vars bound_trail s)"
    and "agree_off (set bound_vars) s (update_values bound_vars bound_trail s)"
    and "\<forall>i<length (m_rows s). value_ok s i \<and> (i = 0 \<longrightarrow> free_of (set bound_vars) s 0) \<longrightarrow>
           value_ok (update_values bound_vars bound_trail s) i"
    and "\<forall>i<length (m_rows s). i \<notin> set bound_trail \<and> free_of (set bound_vars) s i \<and> value_ok s i \<longrightarrow>
           m_value (m_rows (update_values bound_vars bound_trail s) ! i) = m_value (m_rows s ! i)"
proof -
  let ?X = "set bound_vars"
  let ?n = "length bound_trail"
  let ?sm = "update_values_loop1 bound_vars bound_trail ?n s"
  let ?s' = "update_values_loop2 bound_vars ?n ?sm"
  have s': "update_values bound_vars bound_trail s = ?s'" by (simp add: update_values_def)
  from update_values_loop1_effect[where n = ?n and bound_vars = bound_vars and bound_trail = bound_trail and s = s] len
  have a1: "same_shape s ?sm" and a2: "agree_off ?X s ?sm"
    and a3: "\<And>i. i < length (m_rows s) \<Longrightarrow> free_of ?X s i \<and> value_ok s i \<Longrightarrow> value_ok ?sm i"
    and a4: "\<And>i. i < length (m_rows s) \<Longrightarrow> i \<notin> set bound_trail \<Longrightarrow>
               m_value (m_rows ?sm ! i) = m_value (m_rows s ! i)"
    by simp_all
  from update_values_loop2_effect[where n = ?n and bound_vars = bound_vars and s = ?sm] len
  have b1: "same_shape ?sm ?s'" and b2: "m_var2value ?s' = m_var2value ?sm"
    and b3: "\<And>i. i < length (m_rows ?sm) \<Longrightarrow> value_ok ?sm i \<Longrightarrow> value_ok ?s' i"
    and b4: "\<And>i x. i < length (m_rows ?sm) \<Longrightarrow> x \<in> set bound_vars \<Longrightarrow>
               i \<in> set (m_var2row_ids ?sm ! x) \<Longrightarrow> value_ok ?s' i"
    and b5: "\<And>i. i < length (m_rows ?sm) \<Longrightarrow>
               m_value (m_rows ?s' ! i) = m_value (m_rows ?sm ! i) \<or> value_ok ?s' i"
    unfolding take_all[OF order.refl] by (simp_all add: len) blast+
  have lenm: "length (m_rows ?sm) = length (m_rows s)" using same_shape_D(2)[OF a1] .
  have idxm: "m_var2row_ids ?sm = m_var2row_ids s" using same_shape_D(1)[OF a1] .
  show sh: "same_shape s (update_values bound_vars bound_trail s)"
    unfolding s' using a1 b1 by (rule same_shape_trans)
  have ag': "agree_off ?X ?sm ?s'" using b2 by (simp add: agree_off_def)
  show ag: "agree_off ?X s (update_values bound_vars bound_trail s)"
    unfolding s' using a2 ag' by (rule agree_off_trans)
  show "\<forall>i<length (m_rows s). value_ok s i \<and> (i = 0 \<longrightarrow> free_of ?X s 0) \<longrightarrow>
           value_ok (update_values bound_vars bound_trail s) i"
    unfolding s'
  proof (intro allI impI)
    fix i assume i: "i < length (m_rows s)" and h: "value_ok s i \<and> (i = 0 \<longrightarrow> free_of ?X s 0)"
    show "value_ok ?s' i"
    proof (cases "free_of ?X s i")
      case True
      with a3[OF i] h have "value_ok ?sm i" by simp
      with b3[of i] i lenm show ?thesis by simp
    next
      case False
      then obtain v where v: "v \<in> set (m_vars (m_rows s ! i))" "m_id v \<in> ?X"
        by (auto simp: free_of_def)
      have i0: "0 < i"
      proof (rule ccontr)
        assume "\<not> 0 < i"
        then have "i = 0" by simp
        with False h show False by simp
      qed
      with wf_D(5)[OF wf i v(1)] have "i \<in> set (m_var2row_ids s ! m_id v)" by simp
      with b4[of i "m_id v"] i lenm idxm v(2) show ?thesis by simp
    qed
  qed
  show "\<forall>i<length (m_rows s). i \<notin> set bound_trail \<and> free_of ?X s i \<and> value_ok s i \<longrightarrow>
           m_value (m_rows (update_values bound_vars bound_trail s) ! i) = m_value (m_rows s ! i)"
    unfolding s'
  proof (intro allI impI)
    fix i assume i: "i < length (m_rows s)"
      and h: "i \<notin> set bound_trail \<and> free_of ?X s i \<and> value_ok s i"
    from a4[OF i] h have m1: "m_value (m_rows ?sm ! i) = m_value (m_rows s ! i)" by simp
    from b5[of i] i lenm
    have "m_value (m_rows ?s' ! i) = m_value (m_rows ?sm ! i) \<or> value_ok ?s' i" by simp
    then show "m_value (m_rows ?s' ! i) = m_value (m_rows s ! i)"
    proof
      assume "m_value (m_rows ?s' ! i) = m_value (m_rows ?sm ! i)"
      with m1 show ?thesis by simp
    next
      assume "value_ok ?s' i"
      then have "m_value (m_rows ?s' ! i) = get_row_value ?s' (m_rows ?s' ! i)"
        by (simp add: value_ok_def)
      also have "\<dots> = get_row_value s (m_rows s ! i)"
        using ag[unfolded s'] h sh[unfolded s'] i
        by (intro get_row_value_agree[where X = ?X]) (simp_all add: free_of_def same_shape_fields)
      also have "\<dots> = m_value (m_rows s ! i)" using h by (simp add: value_ok_def)
      finally show ?thesis .
    qed
  qed
qed

lemma step_ok_D:
  assumes "step_ok s x p s'"
  shows "wf s'" "tableau_invariant s'" "m_var2value s' = m_var2value s"
    "length (m_rows s') = length (m_rows s)" "0 < p" "p < length (m_rows s)" "m_alive (m_rows s ! p)"
    "m_rows s' ! p = (m_rows s ! p)\<lparr>m_alive := False\<rparr>"
    "\<And>i. i < length (m_rows s) \<Longrightarrow> i \<noteq> p \<Longrightarrow> m_alive (m_rows s' ! i) = m_alive (m_rows s ! i)"
    "\<And>i. i < length (m_rows s) \<Longrightarrow> \<not> m_alive (m_rows s ! i) \<Longrightarrow> m_rows s' ! i = m_rows s ! i"
    "\<not> mentions s' x" "\<And>z. mentions s' z \<Longrightarrow> mentions s z"
  using assms unfolding step_ok_def by blast+

lemma step_ok_live_rows:
  assumes "step_ok s x p s'"
  shows "live_rows s' = live_rows s - {p}" "p \<in> live_rows s" "card (live_rows s') < card (live_rows s)"
proof -
  note d = step_ok_D[OF assms]
  show a: "live_rows s' = live_rows s - {p}"
  proof (rule set_eqI)
    fix i
    show "i \<in> live_rows s' \<longleftrightarrow> i \<in> live_rows s - {p}"
    proof (cases "i = p")
      case True
      with d(8) show ?thesis by (simp add: live_rows_def)
    next
      case False
      with d(4) d(9)[of i] show ?thesis by (auto simp: live_rows_def)
    qed
  qed
  show b: "p \<in> live_rows s" using d(6,7) by (simp add: live_rows_def)
  have "finite (live_rows s)" by (simp add: live_rows_def)
  then show "card (live_rows s') < card (live_rows s)"
    unfolding a using b by (rule card_Diff1_less)
qed

lemma step_ok_loop_inv:
  assumes li: "loop_inv s bt bv" and st: "step_ok s x p s'"
  shows "loop_inv s' (bt @ [p]) (bv @ [x])"
proof -
  note d = step_ok_D[OF st]
  from li have len: "length bv = length bt"
    and nm: "\<And>z. z \<in> set bv \<Longrightarrow> \<not> mentions s z"
    and dead: "\<And>i. i \<in> set bt \<Longrightarrow> 0 < i \<and> i < length (m_rows s) \<and> \<not> m_alive (m_rows s ! i)"
    by (auto simp: loop_inv_def)
  have "\<not> mentions s' z" if "z \<in> set (bv @ [x])" for z
  proof (cases "z = x")
    case True
    with d(11) show ?thesis by simp
  next
    case False
    with that have "z \<in> set bv" by simp
    with nm d(12)[of z] show ?thesis by auto
  qed
  moreover have "0 < i \<and> i < length (m_rows s') \<and> \<not> m_alive (m_rows s' ! i)" if "i \<in> set (bt @ [p])" for i
  proof (cases "i = p")
    case True
    with d(4,5,6,8) show ?thesis by simp
  next
    case False
    with that have "i \<in> set bt" by simp
    with dead[of i] d(4) d(9)[of i] False show ?thesis by simp
  qed
  ultimately show ?thesis
    unfolding loop_inv_def using d(1,2) len by simp
qed

lemma step_ok_all_rows:
  assumes ar: "all_rows_invariant s" and st: "step_ok s x p s'"
  shows "all_rows_invariant s'"
  unfolding all_rows_invariant_def
proof (intro allI impI)
  note d = step_ok_D[OF st]
  fix i assume i: "i < length (m_rows s')"
  with d(4) have i': "i < length (m_rows s)" by simp
  from ar i' have ri: "row_invariant s (m_rows s ! i)" by (simp add: all_rows_invariant_def)
  show "row_invariant s' (m_rows s' ! i)"
  proof (cases "m_alive (m_rows s' ! i)")
    case True
    with tableau_invariant_D(1)[OF d(2) i] show ?thesis by simp
  next
    case False
    have "row_invariant s (m_rows s' ! i)"
    proof (cases "i = p")
      case True
      with d(8) ri show ?thesis by (simp add: row_invariant_def get_row_value_def)
    next
      case np: False
      with False d(9)[OF i'] have dead: "\<not> m_alive (m_rows s ! i)" by simp
      with d(10)[OF i'] dead ri show ?thesis by simp
    qed
    then show ?thesis by (simp only: row_invariant_cong[OF d(3)])
  qed
qed

lemma row_invariant_value_ok:
  "i < length (m_rows s) \<Longrightarrow> row_invariant s (m_rows s ! i) \<longleftrightarrow> vars_ok (m_vars (m_rows s ! i)) \<and> value_ok s i"
  by (simp add: row_invariant_def value_ok_def)

lemma not_mentions_free:
  assumes "\<forall>z\<in>X. \<not> mentions s z" "i < length (m_rows s)" "i = 0 \<or> m_alive (m_rows s ! i)"
  shows "free_of X s i"
  unfolding free_of_def
proof
  fix v assume v: "v \<in> set (m_vars (m_rows s ! i))"
  show "m_id v \<notin> X"
  proof
    assume "m_id v \<in> X"
    with assms(1) have "\<not> mentions s (m_id v)" by simp
    moreover from v assms(2,3) have "mentions s (m_id v)" unfolding mentions_def by auto
    ultimately show False by simp
  qed
qed

lemma exit_invariant:
  assumes li: "loop_inv s bt bv"
  shows "wf (update_values bv bt s)" "tableau_invariant (update_values bv bt s)"
    "all_rows_invariant s \<Longrightarrow> all_rows_invariant (update_values bv bt s)"
    "m_vars (objective (update_values bv bt s)) = m_vars (objective s)"
    "m_alive (objective s) \<Longrightarrow> m_vars (objective s) = [] \<Longrightarrow>
       maximize_result (update_values bv bt s) = residual_result (update_values bv bt s)"
proof -
  let ?s' = "update_values bv bt s"
  from li have wf: "wf s" and inv: "tableau_invariant s" and len: "length bv = length bt"
    and nm: "\<forall>z\<in>set bv. \<not> mentions s z"
    and dead: "\<And>i. i \<in> set bt \<Longrightarrow> 0 < i \<and> i < length (m_rows s) \<and> \<not> m_alive (m_rows s ! i)"
    by (auto simp: loop_inv_def)
  note u = update_values_effect[OF wf len]
  note shd = same_shape_D[OF u(1)]
  have len0: "0 < length (m_rows s)" using wf_D(1)[OF wf] by simp
  have free0: "free_of (set bv) s 0" using nm len0 by (rule not_mentions_free) simp
  show wf': "wf ?s'" using u(1) wf by (rule same_shape_wf)
  have vk: "value_ok ?s' i" if "i < length (m_rows s)" "value_ok s i" for i
    using u(3) that free0 by simp
  show inv': "tableau_invariant ?s'"
    unfolding tableau_invariant_def
  proof (intro conjI allI impI)
    fix i assume i: "i < length (m_rows ?s')" and al: "m_alive (m_rows ?s' ! i)"
    from i shd have i': "i < length (m_rows s)" by simp
    from al same_shape_fields(2)[OF u(1) i'] have ali: "m_alive (m_rows s ! i)" by simp
    from tableau_invariant_D(1)[OF inv i' ali]
    have "vars_ok (m_vars (m_rows s ! i))" "value_ok s i"
      by (simp_all add: row_invariant_value_ok[OF i'])
    with vk[OF i'] same_shape_fields(1)[OF u(1) i']
    show "row_invariant ?s' (m_rows ?s' ! i)"
      using row_invariant_value_ok[OF i] by simp
  next
    fix i assume i: "i < length (m_rows ?s')" and h: "0 < i \<and> m_alive (m_rows ?s' ! i)"
    from i shd have i': "i < length (m_rows s)" by simp
    from h same_shape_fields(2)[OF u(1) i'] have ali: "m_alive (m_rows s ! i)" by simp
    have nb: "i \<notin> set bt" using dead[of i] ali by auto
    have fr: "free_of (set bv) s i" using nm i' by (rule not_mentions_free) (simp add: ali)
    have vo: "value_ok s i"
      using tableau_invariant_D(1)[OF inv i' ali] by (simp add: row_invariant_value_ok[OF i'])
    from u(4) i' nb fr vo have "m_value (m_rows ?s' ! i) = m_value (m_rows s ! i)" by simp
    moreover have "satisfied (m_rows s ! i)" using tableau_invariant_D(2)[OF inv i' ali] h by simp
    ultimately show "satisfied (m_rows ?s' ! i)"
      using same_shape_fields(3)[OF u(1) i'] by (simp add: satisfied_def)
  qed
  show "all_rows_invariant ?s'" if "all_rows_invariant s"
    unfolding all_rows_invariant_def
  proof (intro allI impI)
    fix i assume i: "i < length (m_rows ?s')"
    from i shd have i': "i < length (m_rows s)" by simp
    from that i' have "vars_ok (m_vars (m_rows s ! i))" "value_ok s i"
      by (simp_all add: all_rows_invariant_def row_invariant_def value_ok_def)
    with vk[OF i'] same_shape_fields(1)[OF u(1) i']
    show "row_invariant ?s' (m_rows ?s' ! i)"
      using row_invariant_value_ok[OF i] by simp
  qed
  show ov: "m_vars (objective ?s') = m_vars (objective s)"
    using same_shape_fields(1)[OF u(1) len0] by (simp add: objective_def m_objective_id_def)
  show "maximize_result ?s' = residual_result ?s'" if al: "m_alive (objective s)" and e: "m_vars (objective s) = []"
  proof -
    have o: "objective ?s' = m_rows ?s' ! 0" "objective s = m_rows s ! 0"
      by (simp_all add: objective_def m_objective_id_def)
    from al o same_shape_fields(2)[OF u(1) len0] have "m_alive (m_rows ?s' ! 0)" by simp
    with tableau_invariant_D(1)[OF inv', of 0] len0 shd
    have "m_value (m_rows ?s' ! 0) = get_row_value ?s' (m_rows ?s' ! 0)"
      by (simp add: row_invariant_def)
    also have "\<dots> = row.m_coeff (m_rows ?s' ! 0)"
      using ov e o by (simp add: get_row_value_sum)
    finally show ?thesis
      by (simp add: maximize_result_def residual_result_def o Let_def)
  qed
qed

lemma maximize_loop_result:
  assumes "loop_inv s bt bv"
  shows "\<exists>r s'. maximize_loop s bt bv = Some (r, s') \<and> wf s' \<and> tableau_invariant s' \<and>
           (all_rows_invariant s \<longrightarrow> all_rows_invariant s') \<and>
           (m_alive (objective s) \<longrightarrow>
              r = infinity \<or> (m_vars (objective s') = [] \<and> r = residual_result s'))"
  using assms
proof (induction "card (live_rows s)" arbitrary: s bt bv rule: less_induct)
  case less
  from less.prems have wf: "wf s" and inv: "tableau_invariant s" by (auto simp: loop_inv_def)
  note ex = exit_invariant[OF less.prems]
  show ?case
  proof (cases "m_vars (objective s) = []")
    case True
    then have "maximize_loop s bt bv =
        Some (maximize_result (update_values bv bt s), update_values bv bt s)"
      by (subst maximize_loop.simps) (simp add: Let_def)
    with ex True show ?thesis by auto
  next
    case False
    show ?thesis
    proof (cases "maximize_step s")
      case None
      with False have "maximize_loop s bt bv = Some (infinity, update_values bv bt s)"
        by (subst maximize_loop.simps) simp
      with ex show ?thesis by auto
    next
      case (Some t)
      obtain p x s1 where t: "t = (p, x, s1)" by (cases t)
      with Some have st: "maximize_step s = Some (p, x, s1)" by simp
      note so = maximize_step_Some(2)[OF wf inv False st]
      have li1: "loop_inv s1 (bt @ [p]) (bv @ [x])" using less.prems so by (rule step_ok_loop_inv)
      have c: "card (live_rows s1) < card (live_rows s)" using step_ok_live_rows(3)[OF so] .
      from less.hyps[OF c li1] obtain r s' where
        r: "maximize_loop s1 (bt @ [p]) (bv @ [x]) = Some (r, s')" "wf s'" "tableau_invariant s'"
           "all_rows_invariant s1 \<longrightarrow> all_rows_invariant s'"
           "m_alive (objective s1) \<longrightarrow> r = infinity \<or> (m_vars (objective s') = [] \<and> r = residual_result s')"
        by blast
      have eq: "maximize_loop s bt bv = maximize_loop s1 (bt @ [p]) (bv @ [x])"
        using False st by (subst maximize_loop.simps) simp
      have ar: "all_rows_invariant s \<Longrightarrow> all_rows_invariant s1" using so by (rule step_ok_all_rows[rotated])
      have len0: "0 < length (m_rows s)" using wf_D(1)[OF wf] by simp
      have al: "m_alive (objective s1) = m_alive (objective s)"
        using step_ok_D(9)[OF so len0] step_ok_D(5)[OF so]
        by (simp add: objective_def m_objective_id_def)
      from r eq ar al show ?thesis by auto
    qed
  qed
qed

lemma maximize_reaches_loop:
  assumes "maximize_reaches s s1 bt bv"
  shows "maximize_loop s [] [] = maximize_loop s1 bt bv"
  using assms
proof (induction rule: maximize_reaches.induct)
  case start
  show ?case by simp
next
  case (iterate s1 bound_trail bound_vars p x s2)
  have "maximize_loop s1 bound_trail bound_vars = maximize_loop s2 (bound_trail @ [p]) (bound_vars @ [x])"
    using iterate.hyps(2,3) by (subst maximize_loop.simps) simp
  with iterate.IH show ?case by simp
qed

lemma maximize_reaches_inv:
  assumes wf: "wf s" and inv: "tableau_invariant s" and r: "maximize_reaches s s1 bt bv"
  shows "loop_inv s1 bt bv \<and> (all_rows_invariant s \<longrightarrow> all_rows_invariant s1) \<and>
         m_alive (objective s1) = m_alive (objective s)"
  using r
proof (induction rule: maximize_reaches.induct)
  case start
  show ?case using wf inv by (simp add: loop_inv_def)
next
  case (iterate s1 bound_trail bound_vars p x s2)
  from iterate.IH have li: "loop_inv s1 bound_trail bound_vars"
    and ar: "all_rows_invariant s \<longrightarrow> all_rows_invariant s1"
    and al: "m_alive (objective s1) = m_alive (objective s)" by simp_all
  from li have wf1: "wf s1" and inv1: "tableau_invariant s1" by (auto simp: loop_inv_def)
  note so = maximize_step_Some(2)[OF wf1 inv1 iterate.hyps(2,3)]
  have "loop_inv s2 (bound_trail @ [p]) (bound_vars @ [x])" using li so by (rule step_ok_loop_inv)
  moreover have "all_rows_invariant s \<longrightarrow> all_rows_invariant s2"
    using ar step_ok_all_rows[OF _ so] by blast
  moreover have "m_alive (objective s2) = m_alive (objective s)"
  proof -
    have len0: "0 < length (m_rows s1)" using wf_D(1)[OF wf1] by simp
    have "m_alive (objective s2) = m_alive (objective s1)"
      using step_ok_D(9)[OF so len0] step_ok_D(5)[OF so]
      by (simp add: objective_def m_objective_id_def)
    with al show ?thesis by simp
  qed
  ultimately show ?case by simp
qed

lemma project_inv_init: "project_inv s x {} project_init"
  by (simp add: project_inv_def project_init_def)

lemma tightest_refl: "tightest s x is_pos i i"
  by (simp add: tightest_def)

lemma project_row_upper:
  assumes inv: "project_inv s x V p" and nv: "row_id \<notin> V"
    and up: "is_upper s x row_id" and ne: "m_type (m_rows s ! row_id) \<noteq> t_eq"
  shows "project_inv s x (insert row_id V) (project_row s x row_id (get_coefficient s row_id x) p)"
proof -
  let ?a = "get_coefficient s row_id x"
  let ?r = "m_rows s ! row_id"
  let ?val = "m_var2value s ! x - m_value ?r / ?a"
  let ?sw = "lub_rows p = [] \<or> ?val < lub_val p \<or> (?val = lub_val p \<and> m_type ?r = t_lt \<and> \<not> lub_strict p)"
  let ?p1 = "if ?sw then p\<lparr>lub_val := ?val, lub_index := row_id, lub_strict := (m_type ?r = t_lt)\<rparr> else p"
  from up have a: "0 < ?a" and al: "m_alive ?r" by (simp_all add: is_upper_def)
  have bv: "bound_val s x row_id = ?val" by (simp add: bound_val_def)
  have pr: "project_row s x row_id ?a p = ?p1\<lparr>lub_rows := lub_rows ?p1 @ [row_id]\<rparr>"
    using a by (simp add: project_row_def Let_def)
  from inv have noeq: "\<forall>i\<in>V. \<not> is_equality s x i"
    and lu: "set (lub_rows p) = {i\<in>V. is_upper s x i}" "distinct (lub_rows p)"
    and gl: "set (glb_rows p) = {i\<in>V. is_lower s x i}" "distinct (glb_rows p)"
    and lp: "lub_rows p \<noteq> [] \<Longrightarrow> lub_index p \<in> V \<and> is_upper s x (lub_index p) \<and>
           lub_val p = bound_val s x (lub_index p) \<and>
           lub_strict p = (m_type (m_rows s ! lub_index p) = t_lt) \<and>
           (\<forall>i\<in>V. is_upper s x i \<longrightarrow> tightest s x True (lub_index p) i)"
    and gp: "if glb_rows p = [] then glb_index p = UINT_MAX
      else glb_index p \<in> V \<and> is_lower s x (glb_index p) \<and>
           glb_val p = bound_val s x (glb_index p) \<and>
           glb_strict p = (m_type (m_rows s ! glb_index p) = t_lt) \<and>
           (\<forall>i\<in>V. is_lower s x i \<longrightarrow> tightest s x False (glb_index p) i)"
    unfolding project_inv_def by (auto split: if_splits)
  have nlow: "\<not> is_lower s x row_id" using a by (simp add: is_lower_def)
  have neq: "\<not> is_equality s x row_id" using ne by (simp add: is_equality_def)
  have c1: "\<forall>i\<in>insert row_id V. \<not> is_equality s x i" using noeq neq by simp
  have c2: "set (lub_rows p @ [row_id]) = {i\<in>insert row_id V. is_upper s x i}"
    using lu(1) up by auto
  have c3: "distinct (lub_rows p @ [row_id])" using lu nv by auto
  have c4: "set (glb_rows p) = {i\<in>insert row_id V. is_lower s x i}" using gl(1) nlow by auto
  have c5: "if glb_rows p = [] then glb_index p = UINT_MAX
      else glb_index p \<in> insert row_id V \<and> is_lower s x (glb_index p) \<and>
           glb_val p = bound_val s x (glb_index p) \<and>
           glb_strict p = (m_type (m_rows s ! glb_index p) = t_lt) \<and>
           (\<forall>i\<in>insert row_id V. is_lower s x i \<longrightarrow> tightest s x False (glb_index p) i)"
    using gp nlow by (auto split: if_splits)
  show ?thesis
  proof (cases ?sw)
    case True
    then have p1: "?p1 = p\<lparr>lub_val := ?val, lub_index := row_id, lub_strict := (m_type ?r = t_lt)\<rparr>"
      by (simp only: if_True)
    have t: "tightest s x True row_id i" if "i \<in> V" "is_upper s x i" for i
    proof -
      from that lu(1) have ne': "lub_rows p \<noteq> []" by auto
      from lp[OF ne'] that have q: "lub_val p = bound_val s x (lub_index p)"
        "lub_strict p = (m_type (m_rows s ! lub_index p) = t_lt)"
        "tightest s x True (lub_index p) i" by simp_all
      from True ne' have "?val < lub_val p \<or> (?val = lub_val p \<and> m_type ?r = t_lt \<and> \<not> lub_strict p)"
        by simp
      with q bv show ?thesis unfolding tightest_def by auto
    qed
    have c6: "row_id \<in> insert row_id V \<and> is_upper s x row_id \<and>
           ?val = bound_val s x row_id \<and>
           (m_type ?r = t_lt) = (m_type (m_rows s ! row_id) = t_lt) \<and>
           (\<forall>i\<in>insert row_id V. is_upper s x i \<longrightarrow> tightest s x True row_id i)"
      using up bv t tightest_refl[of s x True row_id] by simp
    show ?thesis
      unfolding pr p1 project_inv_def using c1 c2 c3 c4 c5 c6 gl(2) by (simp split: if_splits)
  next
    case False
    then have p1: "?p1 = p" by (simp only: if_False)
    from False have ne': "lub_rows p \<noteq> []" by simp
    note q = lp[OF ne']
    from False q bv have t: "tightest s x True (lub_index p) row_id"
      unfolding tightest_def by auto
    have c6: "lub_index p \<in> insert row_id V \<and> is_upper s x (lub_index p) \<and>
           lub_val p = bound_val s x (lub_index p) \<and>
           lub_strict p = (m_type (m_rows s ! lub_index p) = t_lt) \<and>
           (\<forall>i\<in>insert row_id V. is_upper s x i \<longrightarrow> tightest s x True (lub_index p) i)"
      using q t by simp
    show ?thesis
      unfolding pr p1 project_inv_def using c1 c2 c3 c4 c5 c6 gl(2) ne' by (simp split: if_splits)
  qed
qed

lemma project_row_lower:
  assumes inv: "project_inv s x V p" and nv: "row_id \<notin> V"
    and up: "is_lower s x row_id" and ne: "m_type (m_rows s ! row_id) \<noteq> t_eq"
  shows "project_inv s x (insert row_id V) (project_row s x row_id (get_coefficient s row_id x) p)"
proof -
  let ?a = "get_coefficient s row_id x"
  let ?r = "m_rows s ! row_id"
  let ?val = "m_var2value s ! x - m_value ?r / ?a"
  let ?sw = "glb_rows p = [] \<or> ?val > glb_val p \<or> (?val = glb_val p \<and> m_type ?r = t_lt \<and> \<not> glb_strict p)"
  let ?p1 = "if ?sw then p\<lparr>glb_val := ?val, glb_index := row_id, glb_strict := (m_type ?r = t_lt)\<rparr> else p"
  from up have a: "?a < 0" and al: "m_alive ?r" by (simp_all add: is_lower_def)
  have bv: "bound_val s x row_id = ?val" by (simp add: bound_val_def)
  have pr: "project_row s x row_id ?a p = ?p1\<lparr>glb_rows := glb_rows ?p1 @ [row_id]\<rparr>"
    using a by (simp add: project_row_def Let_def)
  from inv have noeq: "\<forall>i\<in>V. \<not> is_equality s x i"
    and lu: "set (glb_rows p) = {i\<in>V. is_lower s x i}" "distinct (glb_rows p)"
    and gl: "set (lub_rows p) = {i\<in>V. is_upper s x i}" "distinct (lub_rows p)"
    and lp: "glb_rows p \<noteq> [] \<Longrightarrow> glb_index p \<in> V \<and> is_lower s x (glb_index p) \<and>
           glb_val p = bound_val s x (glb_index p) \<and>
           glb_strict p = (m_type (m_rows s ! glb_index p) = t_lt) \<and>
           (\<forall>i\<in>V. is_lower s x i \<longrightarrow> tightest s x False (glb_index p) i)"
    and gp: "if lub_rows p = [] then lub_index p = UINT_MAX
      else lub_index p \<in> V \<and> is_upper s x (lub_index p) \<and>
           lub_val p = bound_val s x (lub_index p) \<and>
           lub_strict p = (m_type (m_rows s ! lub_index p) = t_lt) \<and>
           (\<forall>i\<in>V. is_upper s x i \<longrightarrow> tightest s x True (lub_index p) i)"
    unfolding project_inv_def by (auto split: if_splits)
  have nlow: "\<not> is_upper s x row_id" using a by (simp add: is_upper_def)
  have neq: "\<not> is_equality s x row_id" using ne by (simp add: is_equality_def)
  have c1: "\<forall>i\<in>insert row_id V. \<not> is_equality s x i" using noeq neq by simp
  have c2: "set (glb_rows p @ [row_id]) = {i\<in>insert row_id V. is_lower s x i}"
    using lu(1) up by auto
  have c3: "distinct (glb_rows p @ [row_id])" using lu nv by auto
  have c4: "set (lub_rows p) = {i\<in>insert row_id V. is_upper s x i}" using gl(1) nlow by auto
  have c5: "if lub_rows p = [] then lub_index p = UINT_MAX
      else lub_index p \<in> insert row_id V \<and> is_upper s x (lub_index p) \<and>
           lub_val p = bound_val s x (lub_index p) \<and>
           lub_strict p = (m_type (m_rows s ! lub_index p) = t_lt) \<and>
           (\<forall>i\<in>insert row_id V. is_upper s x i \<longrightarrow> tightest s x True (lub_index p) i)"
    using gp nlow by (auto split: if_splits)
  show ?thesis
  proof (cases ?sw)
    case True
    then have p1: "?p1 = p\<lparr>glb_val := ?val, glb_index := row_id, glb_strict := (m_type ?r = t_lt)\<rparr>"
      by (simp only: if_True)
    have t: "tightest s x False row_id i" if "i \<in> V" "is_lower s x i" for i
    proof -
      from that lu(1) have ne': "glb_rows p \<noteq> []" by auto
      from lp[OF ne'] that have q: "glb_val p = bound_val s x (glb_index p)"
        "glb_strict p = (m_type (m_rows s ! glb_index p) = t_lt)"
        "tightest s x False (glb_index p) i" by simp_all
      from True ne' have "?val > glb_val p \<or> (?val = glb_val p \<and> m_type ?r = t_lt \<and> \<not> glb_strict p)"
        by simp
      with q bv show ?thesis unfolding tightest_def by auto
    qed
    have c6: "row_id \<in> insert row_id V \<and> is_lower s x row_id \<and>
           ?val = bound_val s x row_id \<and>
           (m_type ?r = t_lt) = (m_type (m_rows s ! row_id) = t_lt) \<and>
           (\<forall>i\<in>insert row_id V. is_lower s x i \<longrightarrow> tightest s x False row_id i)"
      using up bv t tightest_refl[of s x False row_id] by simp
    show ?thesis
      unfolding pr p1 project_inv_def using c1 c2 c3 c4 c5 c6 gl(2) by (simp split: if_splits)
  next
    case False
    then have p1: "?p1 = p" by (simp only: if_False)
    from False have ne': "glb_rows p \<noteq> []" by simp
    note q = lp[OF ne']
    from False q bv have t: "tightest s x False (glb_index p) row_id"
      unfolding tightest_def by auto
    have c6: "glb_index p \<in> insert row_id V \<and> is_lower s x (glb_index p) \<and>
           glb_val p = bound_val s x (glb_index p) \<and>
           glb_strict p = (m_type (m_rows s ! glb_index p) = t_lt) \<and>
           (\<forall>i\<in>insert row_id V. is_lower s x i \<longrightarrow> tightest s x False (glb_index p) i)"
      using q t by simp
    show ?thesis
      unfolding pr p1 project_inv_def using c1 c2 c3 c4 c5 c6 gl(2) ne' by (simp split: if_splits)
  qed
qed

lemma project_loop_inv:
  assumes "project_inv s x V p"
  shows "case project_loop s x ids V p of
           Inl r \<Rightarrow> r \<in> set ids \<and> r \<notin> V \<and> is_equality s x r
         | Inr p' \<Rightarrow> project_inv s x (V \<union> set ids) p'"
  using assms
proof (induction ids arbitrary: V p)
  case Nil
  then show ?case by simp
next
  case (Cons i ids)
  let ?a = "get_coefficient s i x"
  consider (vis) "i \<in> V"
    | (skip) "i \<notin> V" "\<not> m_alive (m_rows s ! i) \<or> ?a = 0"
    | (eq) "i \<notin> V" "m_alive (m_rows s ! i)" "?a \<noteq> 0" "m_type (m_rows s ! i) = t_eq"
    | (row) "i \<notin> V" "m_alive (m_rows s ! i)" "?a \<noteq> 0" "m_type (m_rows s ! i) \<noteq> t_eq"
    by blast
  then show ?case
  proof cases
    case vis
    then have e: "project_loop s x (i # ids) V p = project_loop s x ids V p" by simp
    have v: "V \<union> set (i # ids) = V \<union> set ids" using vis by auto
    from Cons.IH[OF Cons.prems] show ?thesis unfolding e v
      by (auto split: sum.splits)
  next
    case skip
    then have e: "project_loop s x (i # ids) V p = project_loop s x ids (insert i V) p"
      by (auto simp: Let_def)
    have v: "V \<union> set (i # ids) = insert i V \<union> set ids" by auto
    from skip have n: "\<not> is_equality s x i" "\<not> is_upper s x i" "\<not> is_lower s x i"
      by (auto simp: is_equality_def is_upper_def is_lower_def)
    have "project_inv s x (insert i V) p"
      using Cons.prems n unfolding project_inv_def by auto
    from Cons.IH[OF this] show ?thesis unfolding e v by (auto split: sum.splits)
  next
    case eq
    then have e: "project_loop s x (i # ids) V p = Inl i" by (simp add: Let_def)
    from eq show ?thesis unfolding e by (simp add: is_equality_def)
  next
    case row
    then have e: "project_loop s x (i # ids) V p =
        project_loop s x ids (insert i V) (project_row s x i ?a p)"
      by (simp add: Let_def)
    have v: "V \<union> set (i # ids) = insert i V \<union> set ids" by auto
    have "project_inv s x (insert i V) (project_row s x i ?a p)"
    proof (cases "0 < ?a")
      case True
      with row have "is_upper s x i" by (simp add: is_upper_def)
      from project_row_upper[OF Cons.prems row(1) this row(4)] show ?thesis .
    next
      case False
      with row have "is_lower s x i" by (simp add: is_lower_def)
      from project_row_lower[OF Cons.prems row(1) this row(4)] show ?thesis .
    qed
    from Cons.IH[OF this] show ?thesis unfolding e v by (auto split: sum.splits)
  qed
qed

lemma fold_kill_row: "killed (set ds) s (fold kill_row ds s)"
proof (induction ds arbitrary: s)
  case Nil
  show ?case by (simp add: killed_def)
next
  case (Cons d ds)
  let ?s1 = "kill_row d s"
  from Cons.IH[where s = ?s1] have k: "killed (set ds) ?s1 (fold kill_row ds ?s1)" .
  show ?case
    unfolding killed_def
  proof (intro conjI allI impI)
    show "m_var2value (fold kill_row (d # ds) s) = m_var2value s" using k by (simp add: killed_def)
    show "m_var2row_ids (fold kill_row (d # ds) s) = m_var2row_ids s" using k by (simp add: killed_def)
    show "length (m_rows (fold kill_row (d # ds) s)) = length (m_rows s)" using k by (simp add: killed_def)
    fix i assume i: "i < length (m_rows s)"
    from k i have "m_rows (fold kill_row ds ?s1) ! i =
        (if i \<in> set ds then (m_rows ?s1 ! i)\<lparr>m_alive := False\<rparr> else m_rows ?s1 ! i)"
      by (simp add: killed_def)
    with i show "m_rows (fold kill_row (d # ds) s) ! i =
        (if i \<in> set (d # ds) then (m_rows s ! i)\<lparr>m_alive := False\<rparr> else m_rows s ! i)"
      by (simp add: kill_row_nth)
  qed
qed

lemma killed_project_ok:
  assumes wf: "wf s" and inv: "tableau_invariant s" and k: "killed D s s'"
    and x: "x < length (m_var2value s)"
    and D: "D \<subseteq> set (m_var2row_ids s ! x)"
    and all: "{i \<in> set (m_var2row_ids s ! x). m_alive (m_rows s ! i) \<and> get_coefficient s i x \<noteq> 0} \<subseteq> D"
  shows "project_ok s x s'"
proof -
  from k have vals: "m_var2value s' = m_var2value s" and idx: "m_var2row_ids s' = m_var2row_ids s"
    and len: "length (m_rows s') = length (m_rows s)"
    and rows: "\<And>i. i < length (m_rows s) \<Longrightarrow>
        m_rows s' ! i = (if i \<in> D then (m_rows s ! i)\<lparr>m_alive := False\<rparr> else m_rows s ! i)"
    by (simp_all add: killed_def)
  have Dpos: "0 < i \<and> i < length (m_rows s)" if "i \<in> D" for i
    using wf_D(4)[OF wf x, of i] D that by auto
  have len0: "0 < length (m_rows s)" using wf_D(1)[OF wf] by simp
  have r0: "m_rows s' ! 0 = m_rows s ! 0" using rows[OF len0] Dpos[of 0] by auto
  have vars: "m_vars (m_rows s' ! i) = m_vars (m_rows s ! i)" if "i < length (m_rows s)" for i
    using rows[OF that] by simp
  have live: "m_alive (m_rows s ! i) \<and> i \<notin> D \<and> m_rows s' ! i = m_rows s ! i"
    if "i < length (m_rows s)" "m_alive (m_rows s' ! i)" for i
    using rows[OF that(1)] that(2) by (cases "i \<in> D") simp_all
  have wf': "wf s'"
    unfolding wf_def
  proof (intro conjI allI impI ballI)
    show "m_rows s' \<noteq> []" using len len0 by auto
    show "length (m_rows s') \<le> UINT_MAX" using wf_D(2)[OF wf] len by simp
    show "length (m_var2row_ids s') = length (m_var2value s')" using wf_D(3)[OF wf] idx vals by simp
    { fix y i assume "y < length (m_var2row_ids s')" "i \<in> set (m_var2row_ids s' ! y)"
      then show "0 < i" "i < length (m_rows s')"
        using wf_D(4)[OF wf, of y i] wf_D(3)[OF wf] idx len by simp_all }
    { fix i v assume i: "i < length (m_rows s')" and v: "v \<in> set (m_vars (m_rows s' ! i))"
      from i len have i': "i < length (m_rows s)" by simp
      from v vars[OF i'] have "v \<in> set (m_vars (m_rows s ! i))" by simp
      with wf_D(5)[OF wf i'] idx vals
      show "m_id v < length (m_var2value s')"
        and "0 < i \<Longrightarrow> i \<in> set (m_var2row_ids s' ! m_id v)" by simp_all }
    show "m_alive (m_rows s' ! 0) \<or> m_vars (m_rows s' ! 0) = []" using wf_D(6)[OF wf] r0 by simp
  qed
  have inv': "tableau_invariant s'"
    unfolding tableau_invariant_def
  proof (intro conjI allI impI)
    fix i assume i: "i < length (m_rows s')" and al: "m_alive (m_rows s' ! i)"
    from i len have i': "i < length (m_rows s)" by simp
    note l = live[OF i' al]
    from tableau_invariant_D(1)[OF inv i'] l have "row_invariant s (m_rows s' ! i)" by simp
    then show "row_invariant s' (m_rows s' ! i)" by (simp only: row_invariant_cong[OF vals])
  next
    fix i assume i: "i < length (m_rows s')" and h: "0 < i \<and> m_alive (m_rows s' ! i)"
    from i len have i': "i < length (m_rows s)" by simp
    from h have al: "m_alive (m_rows s' ! i)" by simp
    note l = live[OF i' al]
    from tableau_invariant_D(2)[OF inv i'] l h show "satisfied (m_rows s' ! i)" by simp
  qed
  have nox: "x \<notin> m_id ` set (m_vars (m_rows s' ! i))"
    if i: "i < length (m_rows s)" and h: "0 < i \<and> m_alive (m_rows s' ! i)" for i
  proof
    assume xin: "x \<in> m_id ` set (m_vars (m_rows s' ! i))"
    from h have al: "m_alive (m_rows s' ! i)" by simp
    note l = live[OF i al]
    from l have ali: "m_alive (m_rows s ! i)" by simp
    have ri: "row_invariant s (m_rows s ! i)" using tableau_invariant_D(1)[OF inv i ali] .
    from xin l obtain v where v: "v \<in> set (m_vars (m_rows s ! i))" "m_id v = x" by auto
    with wf_D(5)[OF wf i v(1)] h have iin: "i \<in> set (m_var2row_ids s ! x)" by simp
    have "coeff_of (m_vars (m_rows s ! i)) x \<noteq> 0"
      using coeff_of_nonzero_iff[OF row_invariant_vars_ok[OF ri], of x] v by auto
    then have "get_coefficient s i x \<noteq> 0"
      using ri by (simp add: get_coefficient_coeff_of row_invariant_def vars_ok_def)
    with iin ali all have "i \<in> D" by auto
    with l show False by simp
  qed
  have sub: "mentions s z" if "mentions s' z" for z
  proof -
    from that obtain i where i: "i < length (m_rows s)" and al: "i = 0 \<or> m_alive (m_rows s' ! i)"
      and z: "z \<in> m_id ` set (m_vars (m_rows s' ! i))"
      unfolding mentions_def using len by auto
    from al live[OF i] have "i = 0 \<or> m_alive (m_rows s ! i)" by auto
    with i z vars[OF i] show ?thesis unfolding mentions_def by auto
  qed
  have dead: "m_rows s' ! i = m_rows s ! i" if "i < length (m_rows s)" "\<not> m_alive (m_rows s ! i)" for i
  proof (cases "i \<in> D")
    case True
    have "(m_rows s ! i)\<lparr>m_alive := False\<rparr> = m_rows s ! i" using that(2) by simp
    with rows[OF that(1)] True show ?thesis by simp
  next
    case False
    with rows[OF that(1)] show ?thesis by simp
  qed
  have c1: "\<forall>i<length (m_rows s). m_alive (m_rows s' ! i) \<longrightarrow> m_alive (m_rows s ! i)"
    using live by blast
  have c2: "\<forall>i<length (m_rows s). \<not> m_alive (m_rows s ! i) \<longrightarrow> m_rows s' ! i = m_rows s ! i"
    using dead by blast
  have c3: "\<forall>i<length (m_rows s). 0 < i \<and> m_alive (m_rows s' ! i) \<longrightarrow>
        x \<notin> m_id ` set (m_vars (m_rows s' ! i))"
    using nox by blast
  have c4: "\<forall>z. mentions s' z \<longrightarrow> mentions s z" using sub by blast
  show ?thesis
    unfolding project_ok_def using wf' inv' vals len r0 c1 c2 c3 c4 by (intro conjI)
qed

lemma pivot_effect:
  assumes wf: "wf s" and inv: "tableau_invariant s" and x: "x < length (m_var2value s)"
    and q: "q \<in> set (m_var2row_ids s ! x)" and qc: "is_candidate s x is_pos q"
    and ds: "distinct ds" "set ds \<subseteq> set (m_var2row_ids s ! x) - {q}"
    and all: "{i \<in> set (m_var2row_ids s ! x). m_alive (m_rows s ! i) \<and> get_coefficient s i x \<noteq> 0 \<and> i \<noteq> q} \<subseteq> set ds"
    and t: "\<forall>i\<in>set ds. is_candidate s x is_pos i \<longrightarrow> tightest s x is_pos q i"
  defines "s1 \<equiv> fold (\<lambda>d. resolve q (get_coefficient s q x) d x) ds s"
  shows "project_ok s x (kill_row q s1)"
    and "resolved q (get_coefficient s q x) x (set ds) s s1"
    and "m_rows (kill_row q s1) ! q = (m_rows s ! q)\<lparr>m_alive := False\<rparr>"
    and "\<forall>i<length (m_rows s). i \<noteq> q \<longrightarrow> m_alive (m_rows (kill_row q s1) ! i) = m_alive (m_rows s ! i)"
proof -
  let ?a = "get_coefficient s q x"
  from wf_D(4)[OF wf x q] have q0: "0 < q" and qlen: "q < length (m_rows s)" by simp_all
  from qc have qal: "m_alive (m_rows s ! q)" and qa: "?a \<noteq> 0" by (simp_all add: is_candidate_def)
  have rng: "0 < d \<and> d < length (m_rows s) \<and> d \<noteq> q" if "d \<in> set ds" for d
    using wf_D(4)[OF wf x, of d] ds(2) that by auto
  have piv: "pivot_for s x q (set ds)"
    unfolding pivot_for_def using x q qal qa ds(2) all by auto
  have srt: "\<forall>d\<in>set ds. m_alive (m_rows s ! d) \<longrightarrow> sorted_wrt (<) (map m_id (m_vars (m_rows s ! d)))"
  proof (intro ballI impI)
    fix d assume d: "d \<in> set ds" and al: "m_alive (m_rows s ! d)"
    from rng[OF d] have "d < length (m_rows s)" by simp
    from tableau_invariant_D(1)[OF inv this al] show "sorted_wrt (<) (map m_id (m_vars (m_rows s ! d)))"
      by (simp add: row_invariant_def vars_ok_def)
  qed
  have r1: "\<forall>d\<in>set ds. d < length (m_rows s) \<and> d \<noteq> q" using rng by simp
  from fold_resolve[OF wf qlen r1 ds(1) srt, where ?a1.0 = ?a and x = x]
  have wf1: "wf s1" and res: "resolved q ?a x (set ds) s s1" by (simp_all add: s1_def)
  have sat: "\<forall>i\<in>set ds. m_alive (m_rows s ! i) \<and> get_coefficient s i x \<noteq> 0 \<longrightarrow> resolvent_satisfied s x q i"
  proof (intro ballI impI)
    fix i assume i: "i \<in> set ds" and h: "m_alive (m_rows s ! i) \<and> get_coefficient s i x \<noteq> 0"
    from rng[OF i] have i0: "0 < i" and il: "i < length (m_rows s)" by simp_all
    from h have ial: "m_alive (m_rows s ! i)" and ia: "get_coefficient s i x \<noteq> 0" by simp_all
    from t i have ti: "is_candidate s x is_pos i \<longrightarrow> tightest s x is_pos q i" by simp
    show "resolvent_satisfied s x q i"
      using inv qlen q0 qc il i0 ial ia ti by (rule candidates_resolvent_satisfied)
  qed
  note e = eliminate[OF wf inv piv wf1 res sat]
  show "resolved q ?a x (set ds) s s1" by (rule res)
  show "m_rows (kill_row q s1) ! q = (m_rows s ! q)\<lparr>m_alive := False\<rparr>" by (rule e(6))
  show alv: "\<forall>i<length (m_rows s). i \<noteq> q \<longrightarrow> m_alive (m_rows (kill_row q s1) ! i) = m_alive (m_rows s ! i)"
    by (rule e(7))
  have live: "\<forall>i<length (m_rows s). m_alive (m_rows (kill_row q s1) ! i) \<longrightarrow> m_alive (m_rows s ! i)"
  proof (intro allI impI)
    fix i assume i: "i < length (m_rows s)" and al: "m_alive (m_rows (kill_row q s1) ! i)"
    show "m_alive (m_rows s ! i)"
    proof (cases "i = q")
      case True
      with qal show ?thesis by simp
    next
      case False
      with alv i al show ?thesis by simp
    qed
  qed
  show "project_ok s x (kill_row q s1)"
    unfolding project_ok_def
    using e(1) e(2) e(8) e(9) e(5) live e(10) e(3) e(4) by (intro conjI)
qed

lemma equality_tightest:
  assumes inv: "tableau_invariant s"
    and p: "p < length (m_rows s)" "0 < p" "m_alive (m_rows s ! p)" "m_type (m_rows s ! p) = t_eq"
    and i: "i < length (m_rows s)" "0 < i" "is_candidate s x True i"
  shows "tightest s x True p i"
proof -
  let ?v = "m_value (m_rows s ! i)" and ?a = "get_coefficient s i x"
  from i(3) have ial: "m_alive (m_rows s ! i)" and ia: "?a \<noteq> 0"
    and ic: "0 < ?a \<or> m_type (m_rows s ! i) = t_eq"
    by (auto simp: is_candidate_def)
  from tableau_invariant_D(2)[OF inv p(1) p(3) p(2)] p(4) have vp: "m_value (m_rows s ! p) = 0"
    by (simp add: satisfied_def)
  from tableau_invariant_D(2)[OF inv i(1) ial i(2)] have si: "sat_rel (m_type (m_rows s ! i)) ?v"
    by (simp add: satisfied_sat_rel)
  have le: "?v / ?a \<le> 0"
  proof (cases "m_type (m_rows s ! i) = t_eq")
    case True
    with si show ?thesis by (simp add: sat_rel_def)
  next
    case False
    with ic have pos: "0 < ?a" by simp
    from si have "?v \<le> 0" by (rule sat_rel_le)
    then show ?thesis using pos by (simp add: divide_nonpos_pos)
  qed
  have tie: "m_type (m_rows s ! i) \<noteq> t_lt" if "?v / ?a = 0"
  proof
    assume lt: "m_type (m_rows s ! i) = t_lt"
    from that ia have "?v = 0" by simp
    with si lt show False by (simp add: sat_rel_def)
  qed
  have b: "bound_val s x p = m_var2value s ! x" using vp by (simp add: bound_val_def)
  have bi: "bound_val s x i = m_var2value s ! x - ?v / ?a" by (simp add: bound_val_def)
  have c1: "bound_val s x p \<le> bound_val s x i" unfolding b bi using le by linarith
  have c2: "m_type (m_rows s ! p) = t_lt"
    if "bound_val s x i = bound_val s x p \<and> m_type (m_rows s ! i) = t_lt"
  proof -
    from that have "?v / ?a = 0" unfolding b bi by linarith
    from tie[OF this] that show ?thesis by blast
  qed
  show ?thesis
    unfolding tightest_def using c1 c2 by (simp only: if_True) blast
qed

lemma solve_for_effect:
  assumes wf: "wf s" and inv: "tableau_invariant s" and x: "x < length (m_var2value s)"
    and r: "r \<in> set (m_var2row_ids s ! x)" and eq: "is_equality s x r"
  shows "project_ok s x (solve_for r x s)"
    and "\<exists>s1. resolved r (get_coefficient s r x) x (set (m_var2row_ids s ! x) - {r}) s s1 \<and>
              solve_for r x s = kill_row r s1"
    and "m_rows (solve_for r x s) ! r = (m_rows s ! r)\<lparr>m_alive := False\<rparr>"
    and "\<forall>i<length (m_rows s). i \<noteq> r \<longrightarrow> m_alive (m_rows (solve_for r x s) ! i) = m_alive (m_rows s ! i)"
proof -
  let ?a = "get_coefficient s r x"
  let ?ds = "dedup (m_var2row_ids s ! x) {r}"
  let ?s1 = "fold (\<lambda>d. resolve r ?a d x) ?ds s"
  have sf: "solve_for r x s = kill_row r ?s1"
    by (simp add: solve_for_def Let_def solve_for_loop_fold)
  have dset: "set ?ds = set (m_var2row_ids s ! x) - {r}" by (rule dedup_set)
  from wf_D(4)[OF wf x r] have r0: "0 < r" and rlen: "r < length (m_rows s)" by simp_all
  from eq have ral: "m_alive (m_rows s ! r)" and ra: "?a \<noteq> 0" and rt: "m_type (m_rows s ! r) = t_eq"
    by (simp_all add: is_equality_def)
  have rc: "is_candidate s x True r" using ral ra rt by (simp add: is_candidate_def)
  have t: "\<forall>i\<in>set ?ds. is_candidate s x True i \<longrightarrow> tightest s x True r i"
  proof (intro ballI impI)
    fix i assume i: "i \<in> set ?ds" and c: "is_candidate s x True i"
    from i dset have "i \<in> set (m_var2row_ids s ! x)" by simp
    from wf_D(4)[OF wf x this] have "0 < i" "i < length (m_rows s)" by simp_all
    with c show "tightest s x True r i"
      using equality_tightest[OF inv rlen r0 ral rt] by blast
  qed
  have sub: "set ?ds \<subseteq> set (m_var2row_ids s ! x) - {r}" using dset by simp
  have all: "{i \<in> set (m_var2row_ids s ! x). m_alive (m_rows s ! i) \<and> get_coefficient s i x \<noteq> 0 \<and> i \<noteq> r}
      \<subseteq> set ?ds" using dset by auto
  note pe = pivot_effect[OF wf inv x r rc dedup_distinct sub all t]
  show "project_ok s x (solve_for r x s)" using pe(1) sf by simp
  show "\<exists>s1. resolved r ?a x (set (m_var2row_ids s ! x) - {r}) s s1 \<and> solve_for r x s = kill_row r s1"
    using pe(2) sf dset by auto
  show "m_rows (solve_for r x s) ! r = (m_rows s ! r)\<lparr>m_alive := False\<rparr>" using pe(3) sf by simp
  show "\<forall>i<length (m_rows s). i \<noteq> r \<longrightarrow> m_alive (m_rows (solve_for r x s) ! i) = m_alive (m_rows s ! i)"
    using pe(4) sf by simp
qed

lemma project_loop_first:
  assumes "project_loop s x ids V p = Inl r" "\<forall>i\<in>V. \<not> is_equality s x i"
  shows "filter (is_equality s x) ids \<noteq> [] \<and> r = hd (filter (is_equality s x) ids)"
  using assms
proof (induction ids arbitrary: V p)
  case Nil
  then show ?case by simp
next
  case (Cons i ids)
  show ?case
  proof (cases "is_equality s x i")
    case True
    with Cons.prems(2) have "i \<notin> V" by blast
    with True Cons.prems(1) show ?thesis by (simp add: is_equality_def Let_def)
  next
    case False
    have v: "\<forall>j\<in>insert i V. \<not> is_equality s x j" using False Cons.prems(2) by simp
    from Cons.prems(1) False
    have "(\<exists>V' p'. project_loop s x ids V' p' = Inl r \<and> (V' = V \<or> V' = insert i V))"
      by (auto simp: is_equality_def Let_def split: if_splits)
    then obtain V' p' where l: "project_loop s x ids V' p' = Inl r" and V': "V' = V \<or> V' = insert i V"
      by blast
    from V' v Cons.prems(2) have "\<forall>j\<in>V'. \<not> is_equality s x j" by blast
    from Cons.IH[OF l this] False show ?thesis by simp
  qed
qed

lemma project_selection:
  "case project_loop s x (m_var2row_ids s ! x) {} project_init of
     Inl r \<Rightarrow> equality_rows s x \<noteq> [] \<and> r = hd (equality_rows s x)
   | Inr p \<Rightarrow> project_inv s x (set (m_var2row_ids s ! x)) p"
proof (cases "project_loop s x (m_var2row_ids s ! x) {} project_init")
  case (Inl r)
  from project_loop_first[OF Inl] Inl show ?thesis by (simp add: equality_rows_def)
next
  case (Inr p)
  from project_loop_inv[OF project_inv_init, where ids = "m_var2row_ids s ! x" and s = s and x = x] Inr
  show ?thesis by simp
qed

lemma project_equality:
  assumes wf: "wf s" and inv: "tableau_invariant s" and x: "x < length (m_var2value s)"
    and eq: "equality_rows s x \<noteq> []"
  defines "r \<equiv> hd (equality_rows s x)"
  shows "project x s = solve_for r x s"
    and "r \<in> set (m_var2row_ids s ! x)" and "is_equality s x r"
proof -
  from eq have "r \<in> set (equality_rows s x)" by (simp add: r_def)
  then show rin: "r \<in> set (m_var2row_ids s ! x)" and req: "is_equality s x r"
    by (simp_all add: equality_rows_def)
  show "project x s = solve_for r x s"
  proof (cases "project_loop s x (m_var2row_ids s ! x) {} project_init")
    case (Inl r')
    with project_selection[of s x] have "r' = r" by (simp add: r_def)
    with Inl show ?thesis by (simp add: project_def)
  next
    case (Inr p)
    with project_selection[of s x] have "project_inv s x (set (m_var2row_ids s ! x)) p" by simp
    then have "\<forall>i\<in>set (m_var2row_ids s ! x). \<not> is_equality s x i" by (simp add: project_inv_def)
    with rin req show ?thesis by blast
  qed
qed

lemma project_no_equality:
  assumes wf: "wf s" and inv: "tableau_invariant s" and x: "x < length (m_var2value s)"
    and ne: "equality_rows s x = []"
  defines "U \<equiv> upper_rows s x" and "L \<equiv> lower_rows s x"
  shows "(U = {} \<or> L = {}) \<and> killed (U \<union> L) s (project x s) \<and> project_ok s x (project x s) \<or>
         U \<noteq> {} \<and> L \<noteq> {} \<and> project_ok s x (project x s) \<and>
         (\<exists>q s1. (if card U \<le> card L then q \<in> U \<and> (\<forall>i\<in>U. tightest s x True q i)
                           else q \<in> L \<and> (\<forall>i\<in>L. tightest s x False q i)) \<and>
                  resolved q (get_coefficient s q x) x (U \<union> L - {q}) s s1 \<and>
                  project x s = kill_row q s1 \<and>
                  m_rows (project x s) ! q = (m_rows s ! q)\<lparr>m_alive := False\<rparr> \<and>
                  (\<forall>i<length (m_rows s). i \<noteq> q \<longrightarrow>
                     m_alive (m_rows (project x s) ! i) = m_alive (m_rows s ! i)))"
proof -
  let ?idx = "m_var2row_ids s ! x"
  from ne have noeq: "\<forall>i\<in>set ?idx. \<not> is_equality s x i"
    by (simp add: equality_rows_def filter_empty_conv)
  obtain p where sel: "project_loop s x ?idx {} project_init = Inr p"
    and pinv: "project_inv s x (set ?idx) p"
  proof (cases "project_loop s x ?idx {} project_init")
    case (Inl r)
    with project_selection[of s x] ne show ?thesis by simp
  next
    case (Inr p)
    with project_selection[of s x] that show ?thesis by simp
  qed
  have Udef: "U = {i \<in> set ?idx. is_upper s x i}" by (auto simp: U_def upper_rows_def)
  have Ldef: "L = {i \<in> set ?idx. is_lower s x i}" by (auto simp: L_def lower_rows_def)
  from pinv have lubs: "set (lub_rows p) = U" and dl: "distinct (lub_rows p)"
    and glbs: "set (glb_rows p) = L" and dg: "distinct (glb_rows p)"
    unfolding project_inv_def Udef Ldef by blast+
  have lcard: "length (lub_rows p) = card U" using lubs dl distinct_card by fastforce
  have gcard: "length (glb_rows p) = card L" using glbs dg distinct_card by fastforce
  have lnil: "lub_rows p = [] \<longleftrightarrow> U = {}" using lubs by auto
  have gnil: "glb_rows p = [] \<longleftrightarrow> L = {}" using glbs by auto
  from pinv have l0: "lub_rows p = [] \<Longrightarrow> lub_index p = UINT_MAX"
    and g0: "glb_rows p = [] \<Longrightarrow> glb_index p = UINT_MAX"
    unfolding project_inv_def by (simp_all split: if_splits)
  from pinv have l1: "lub_rows p \<noteq> [] \<Longrightarrow> lub_index p \<in> U \<and> (\<forall>i\<in>U. tightest s x True (lub_index p) i)"
    unfolding project_inv_def Udef by (simp split: if_splits)
  from pinv have g1: "glb_rows p \<noteq> [] \<Longrightarrow> glb_index p \<in> L \<and> (\<forall>i\<in>L. tightest s x False (glb_index p) i)"
    unfolding project_inv_def Ldef by (simp split: if_splits)
  have UL: "U \<inter> L = {}" unfolding Udef Ldef by (auto simp: is_upper_def is_lower_def)
  have Usub: "U \<subseteq> set ?idx" and Lsub: "L \<subseteq> set ?idx" unfolding Udef Ldef by auto
  have nmax: "\<forall>i\<in>set ?idx. i \<noteq> UINT_MAX" using wf x by (rule wf_index_not_max)
  have cover: "i \<in> U \<union> L" if "i \<in> set ?idx" "m_alive (m_rows s ! i)" "get_coefficient s i x \<noteq> 0" for i
    using that unfolding Udef Ldef by (auto simp: is_upper_def is_lower_def)
  have rows: "set (glb_rows p @ lub_rows p) = U \<union> L" using lubs glbs by auto
  show ?thesis
  proof (cases "U = {} \<or> L = {}")
    case True
    have ri: "project_row_index p = UINT_MAX"
    proof (cases "length (lub_rows p) \<le> length (glb_rows p)")
      case le: True
      have "lub_rows p = []"
      proof (cases "U = {}")
        case True
        then show ?thesis using lnil by simp
      next
        case False
        with \<open>U = {} \<or> L = {}\<close> have "L = {}" by simp
        then have "glb_rows p = []" using gnil by simp
        with le show ?thesis by simp
      qed
      with le l0 show ?thesis by (simp add: project_row_index_def)
    next
      case gt: False
      have "glb_rows p = []"
      proof (cases "L = {}")
        case True
        then show ?thesis using gnil by simp
      next
        case False
        with \<open>U = {} \<or> L = {}\<close> have "U = {}" by simp
        then have "lub_rows p = []" using lnil by simp
        with gt show ?thesis by simp
      qed
      with gt g0 show ?thesis by (simp add: project_row_index_def)
    qed
    have pr: "project x s = fold kill_row (glb_rows p @ lub_rows p) s"
      using sel ri by (simp add: project_def Let_def)
    have k: "killed (U \<union> L) s (project x s)"
      unfolding pr using fold_kill_row[of "glb_rows p @ lub_rows p" s] rows by simp
    have D: "U \<union> L \<subseteq> set ?idx" using Usub Lsub by blast
    have all: "{i \<in> set ?idx. m_alive (m_rows s ! i) \<and> get_coefficient s i x \<noteq> 0} \<subseteq> U \<union> L"
      using cover by blast
    have "project_ok s x (project x s)" using wf inv k x D all by (rule killed_project_ok)
    with True k show ?thesis by blast
  next
    case False
    then have Une: "U \<noteq> {}" and Lne: "L \<noteq> {}" by simp_all
    define is_pos where "is_pos = (length (lub_rows p) \<le> length (glb_rows p))"
    define q where "q = project_row_index p"
    have qsel: "if card U \<le> card L then q \<in> U \<and> (\<forall>i\<in>U. tightest s x True q i)
                else q \<in> L \<and> (\<forall>i\<in>L. tightest s x False q i)"
      using l1 g1 lnil gnil Une Lne unfolding q_def project_row_index_def lcard gcard by simp
    have qUL: "q \<in> U \<union> L" using qsel by (simp split: if_splits)
    then have qin: "q \<in> set ?idx" using Usub Lsub by blast
    with nmax have qmax: "q \<noteq> UINT_MAX" by blast
    have ip: "is_pos \<longleftrightarrow> card U \<le> card L" by (simp add: is_pos_def lcard gcard)
    have cand: "is_candidate s x is_pos i \<longleftrightarrow> (if is_pos then i \<in> U else i \<in> L)" if "i \<in> set ?idx" for i
    proof -
      from noeq that have "\<not> is_equality s x i" by simp
      then show ?thesis using that unfolding Udef Ldef
        by (auto simp: is_candidate_def is_equality_def is_upper_def is_lower_def)
    qed
    have qc: "is_candidate s x is_pos q"
      using cand[OF qin] qsel ip by (simp split: if_splits)
    define ds where "ds = filter (\<lambda>d. d \<noteq> q) (glb_rows p @ lub_rows p)"
    have dds: "distinct ds" unfolding ds_def using dl dg lubs glbs UL by auto
    have sds: "set ds = U \<union> L - {q}" unfolding ds_def using rows by auto
    have sub: "set ds \<subseteq> set ?idx - {q}" using sds Usub Lsub by auto
    have all: "{i \<in> set ?idx. m_alive (m_rows s ! i) \<and> get_coefficient s i x \<noteq> 0 \<and> i \<noteq> q} \<subseteq> set ds"
      using cover sds by auto
    have t: "\<forall>i\<in>set ds. is_candidate s x is_pos i \<longrightarrow> tightest s x is_pos q i"
    proof (intro ballI impI)
      fix i assume i: "i \<in> set ds" and c: "is_candidate s x is_pos i"
      from i sub have "i \<in> set ?idx" by blast
      from cand[OF this] c have m: "if is_pos then i \<in> U else i \<in> L" by simp
      show "tightest s x is_pos q i"
      proof (cases is_pos)
        case True
        with m qsel ip show ?thesis by simp
      next
        case False
        with m qsel ip show ?thesis by simp
      qed
    qed
    have pr: "project x s = kill_row q (fold (\<lambda>d. resolve q (get_coefficient s q x) d x) ds s)"
      using sel qmax unfolding q_def ds_def by (simp add: project_def Let_def fold_skip)
    note pe = pivot_effect[OF wf inv x qin qc dds sub all t]
    have ok: "project_ok s x (project x s)" using pe(1) pr by simp
    have res: "resolved q (get_coefficient s q x) x (U \<union> L - {q}) s
                 (fold (\<lambda>d. resolve q (get_coefficient s q x) d x) ds s)"
      using pe(2) sds by simp
    have dead: "m_rows (project x s) ! q = (m_rows s ! q)\<lparr>m_alive := False\<rparr>" using pe(3) pr by simp
    have al: "\<forall>i<length (m_rows s). i \<noteq> q \<longrightarrow> m_alive (m_rows (project x s) ! i) = m_alive (m_rows s ! i)"
      using pe(4) pr by simp
    from Une Lne ok qsel res pr dead al show ?thesis by blast
  qed
qed

lemma project_effect:
  assumes wf: "wf s" and inv: "tableau_invariant s" and x: "x < length (m_var2value s)"
  shows "project_ok s x (project x s)"
proof (cases "equality_rows s x = []")
  case True
  from project_no_equality[OF wf inv x True] show ?thesis by blast
next
  case False
  from project_equality[OF wf inv x False] solve_for_effect(1)[OF wf inv x]
  show ?thesis by simp
qed

lemma init_opt_invariant: "wf init_opt \<and> tableau_invariant init_opt"
  by (simp add: wf_def tableau_invariant_def init_opt_def default_row_def UINT_MAX_def)

lemma add_var_effect:
  assumes wf: "wf s" and inv: "tableau_invariant s"
  shows "wf (snd (add_var val s))" and "tableau_invariant (snd (add_var val s))"
    and "fst (add_var val s) = length (m_var2value s)"
    and "m_rows (snd (add_var val s)) = m_rows s"
proof -
  let ?s = "snd (add_var val s)"
  have rows: "m_rows ?s = m_rows s" and vals: "m_var2value ?s = m_var2value s @ [val]"
    and idx: "m_var2row_ids ?s = m_var2row_ids s @ [[]]"
    by (simp_all add: add_var_def)
  show "m_rows ?s = m_rows s" by (rule rows)
  show "fst (add_var val s) = length (m_var2value s)" by (simp add: add_var_def)
  have n: "length (m_var2row_ids s) = length (m_var2value s)" using wf_D(3)[OF wf] .
  show "wf ?s"
    unfolding wf_def rows vals idx
  proof (intro conjI allI impI ballI)
    show "m_rows s \<noteq> []" using wf_D(1)[OF wf] .
    show "length (m_rows s) \<le> UINT_MAX" using wf_D(2)[OF wf] .
    show "length (m_var2row_ids s @ [[]]) = length (m_var2value s @ [val])" using n by simp
    { fix x i assume x: "x < length (m_var2row_ids s @ [[]])" and i: "i \<in> set ((m_var2row_ids s @ [[]]) ! x)"
      have "x < length (m_var2value s) \<and> i \<in> set (m_var2row_ids s ! x)"
      proof (cases "x < length (m_var2row_ids s)")
        case True
        with i n show ?thesis by (simp add: nth_append)
      next
        case False
        with x have "x = length (m_var2row_ids s)" by simp
        with i show ?thesis by simp
      qed
      with wf_D(4)[OF wf] show "0 < i" "i < length (m_rows s)" by blast+ }
    { fix i v assume i: "i < length (m_rows s)" and v: "v \<in> set (m_vars (m_rows s ! i))"
      from wf_D(5)[OF wf i v] have a: "m_id v < length (m_var2value s)"
        and b: "0 < i \<longrightarrow> i \<in> set (m_var2row_ids s ! m_id v)" by simp_all
      from a show "m_id v < length (m_var2value s @ [val])" by simp
      from a b n show "0 < i \<Longrightarrow> i \<in> set ((m_var2row_ids s @ [[]]) ! m_id v)" by (simp add: nth_append) }
    show "m_alive (m_rows s ! 0) \<or> m_vars (m_rows s ! 0) = []" using wf_D(6)[OF wf] .
  qed
  have ri: "row_invariant ?s r" if "r \<in> set (m_rows s)" "row_invariant s r" for r
  proof -
    from that(1) obtain i where i: "i < length (m_rows s)" "r = m_rows s ! i" by (auto simp: in_set_conv_nth)
    have "\<forall>v\<in>set (m_vars r). (m_var2value s @ [val]) ! m_id v = m_var2value s ! m_id v"
      using wf_D(5)[OF wf i(1)] i(2) by (simp add: nth_append)
    then have "row_sum (m_var2value s @ [val]) (m_vars r) = row_sum (m_var2value s) (m_vars r)"
      by (rule row_sum_agree)
    with that(2) show ?thesis by (simp add: row_invariant_def get_row_value_sum vals)
  qed
  show "tableau_invariant ?s"
    unfolding tableau_invariant_def rows
  proof (intro conjI allI impI)
    fix i assume i: "i < length (m_rows s)" and al: "m_alive (m_rows s ! i)"
    from i have "m_rows s ! i \<in> set (m_rows s)" by simp
    then show "row_invariant ?s (m_rows s ! i)" using tableau_invariant_D(1)[OF inv i al] by (rule ri)
  next
    fix i assume i: "i < length (m_rows s)" and h: "0 < i \<and> m_alive (m_rows s ! i)"
    then show "satisfied (m_rows s ! i)" using tableau_invariant_D(2)[OF inv i] by simp
  qed
qed

lemma row_sum_insort:
  "row_sum vals (insort_key f v vs) = var.m_coeff v * (vals ! m_id v) + row_sum vals vs"
  by (induction vs) simp_all

lemma row_sum_sort_key: "row_sum vals (sort_key f vs) = row_sum vals vs"
  by (induction vs) (simp_all add: row_sum_insort)

lemma sort_key_vars_ok:
  assumes "distinct (map m_id vs)" "\<forall>v\<in>set vs. var.m_coeff v \<noteq> 0"
  shows "vars_ok (sort_key m_id vs)"
proof -
  have "sorted (map m_id (sort_key m_id vs))" by simp
  moreover have "distinct (map m_id (sort_key m_id vs))"
    using assms(1) by (simp add: distinct_map)
  ultimately have "sorted_wrt (<) (map m_id (sort_key m_id vs))"
    by (simp add: strict_sorted_iff)
  with assms(2) show ?thesis by (simp add: vars_ok_def)
qed

lemma set_row_fresh:
  fixes c :: rat and rel :: ineq_type
  assumes "row_id < length (m_rows s)" "m_vars (m_rows s ! row_id) = []" "coeffs_ok s coeffs"
  defines "r \<equiv> m_rows (set_row row_id coeffs c rel s) ! row_id"
  shows "m_rows (set_row row_id coeffs c rel s) = (m_rows s)[row_id := r]"
    and "m_var2value (set_row row_id coeffs c rel s) = m_var2value s"
    and "m_var2row_ids (set_row row_id coeffs c rel s) = m_var2row_ids s"
    and "m_vars r = sort_key m_id coeffs" and "m_alive r" and "m_type r = rel"
    and "m_value r = c + row_sum (m_var2value s) coeffs"
    and "row_invariant s r"
proof -
  show a: "m_rows (set_row row_id coeffs c rel s) = (m_rows s)[row_id := r]"
    using assms(1) by (simp add: r_def set_row_def Let_def)
  show "m_var2value (set_row row_id coeffs c rel s) = m_var2value s"
    and "m_var2row_ids (set_row row_id coeffs c rel s) = m_var2row_ids s"
    by (simp_all add: set_row_def Let_def)
  show v: "m_vars r = sort_key m_id coeffs" and "m_alive r" and "m_type r = rel"
    and val: "m_value r = c + row_sum (m_var2value s) coeffs"
    using assms(1,2) by (simp_all add: r_def set_row_def Let_def set_row_val_sum)
  have co: "row.m_coeff r = c"
    using assms(1,2) by (simp add: r_def set_row_def Let_def)
  from assms(3) have "vars_ok (sort_key m_id coeffs)"
    by (intro sort_key_vars_ok) (simp_all add: coeffs_ok_def)
  then show "row_invariant s r"
    by (simp add: row_invariant_def get_row_value_sum v val co row_sum_sort_key)
qed

lemma add_constraint_ids_length [simp]:
  "length (add_constraint_ids r vs idx) = length idx"
  by (induction vs arbitrary: idx) simp_all

lemma add_constraint_ids_set:
  assumes "y < length idx"
  shows "set (add_constraint_ids r vs idx ! y) =
         set (idx ! y) \<union> (if y \<in> m_id ` set vs \<and> (\<exists>v\<in>set vs. m_id v = y) then {r} else {})"
  using assms
proof (induction vs arbitrary: idx)
  case Nil
  then show ?case by simp
next
  case (Cons v vs)
  let ?idx1 = "idx[m_id v := idx ! m_id v @ [r]]"
  have l: "y < length ?idx1" using Cons.prems by simp
  have s1: "set (?idx1 ! y) = set (idx ! y) \<union> (if m_id v = y then {r} else {})"
    using Cons.prems by (cases "m_id v = y") simp_all
  from Cons.IH[OF l] s1 show ?case by auto
qed

lemma row_invariant_vals:
  "m_var2value s' = m_var2value s \<Longrightarrow> row_invariant s r \<Longrightarrow> row_invariant s' r"
  by (simp add: row_invariant_def get_row_value_def)

lemma add_constraint_effect:
  fixes c :: rat and rel :: ineq_type
  assumes wf: "wf s" and inv: "tableau_invariant s" and ok: "coeffs_ok s coeffs"
    and room: "length (m_rows s) < UINT_MAX"
    and sat: "sat_rel rel (c + row_sum (m_var2value s) coeffs)"
  defines "s' \<equiv> add_constraint coeffs c rel s"
  shows "wf s'" and "tableau_invariant s'"
    and "m_var2value s' = m_var2value s"
    and "length (m_rows s') = Suc (length (m_rows s))"
    and "\<forall>i<length (m_rows s). m_rows s' ! i = m_rows s ! i"
    and "m_alive (m_rows s' ! length (m_rows s))"
    and "m_type (m_rows s' ! length (m_rows s)) = rel"
    and "m_vars (m_rows s' ! length (m_rows s)) = sort_key m_id coeffs"
proof -
  let ?n = "length (m_rows s)"
  let ?s0 = "s\<lparr>m_rows := m_rows s @ [default_row]\<rparr>"
  let ?s1 = "set_row ?n coeffs c rel ?s0"
  define r where "r = m_rows ?s1 ! ?n"
  have s': "s' = ?s1\<lparr>m_var2row_ids := add_constraint_ids ?n coeffs (m_var2row_ids ?s1)\<rparr>"
    by (simp add: s'_def add_constraint_def Let_def)
  have p1: "?n < length (m_rows ?s0)" by simp
  have p2: "m_vars (m_rows ?s0 ! ?n) = []" by (simp add: default_row_def)
  have p3: "coeffs_ok ?s0 coeffs" using ok by (simp add: coeffs_ok_def)
  note sr = set_row_fresh[OF p1 p2 p3, where c = c and rel = rel, folded r_def]
  have rows: "m_rows s' = m_rows s @ [r]" using sr(1) by (simp add: s')
  show vals: "m_var2value s' = m_var2value s" using sr(2) by (simp add: s')
  have idx: "m_var2row_ids s' = add_constraint_ids ?n coeffs (m_var2row_ids s)" using sr(3) by (simp add: s')
  show len: "length (m_rows s') = Suc ?n" using rows by simp
  show old: "\<forall>i<?n. m_rows s' ! i = m_rows s ! i" using rows by (simp add: nth_append)
  have new: "m_rows s' ! ?n = r" using rows by simp
  show "m_alive (m_rows s' ! ?n)" using sr(5) new by simp
  show "m_type (m_rows s' ! ?n) = rel" using sr(6) new by simp
  show "m_vars (m_rows s' ! ?n) = sort_key m_id coeffs" using sr(4) new by simp
  have n0: "0 < ?n" using wf_D(1)[OF wf] by simp
  have nv: "length (m_var2row_ids s) = length (m_var2value s)" using wf_D(3)[OF wf] .
  have iset: "set (m_var2row_ids s' ! y) =
      set (m_var2row_ids s ! y) \<union> (if y \<in> m_id ` set coeffs then {?n} else {})"
    if "y < length (m_var2value s)" for y
    using add_constraint_ids_set[of y "m_var2row_ids s" ?n coeffs] that nv unfolding idx by auto
  show "wf s'"
    unfolding wf_def
  proof (intro conjI allI impI ballI)
    show "m_rows s' \<noteq> []" using rows by simp
    show "length (m_rows s') \<le> UINT_MAX" using len room by simp
    show "length (m_var2row_ids s') = length (m_var2value s')" using idx vals nv by simp
    { fix y i assume y: "y < length (m_var2row_ids s')" and i: "i \<in> set (m_var2row_ids s' ! y)"
      from y idx nv have y': "y < length (m_var2value s)" by simp
      from i iset[OF y'] have "i \<in> set (m_var2row_ids s ! y) \<or> i = ?n" by (auto split: if_splits)
      then have "0 < i \<and> i < Suc ?n"
      proof
        assume "i \<in> set (m_var2row_ids s ! y)"
        from wf_D(4)[OF wf y' this] show ?thesis by simp
      next
        assume "i = ?n"
        with n0 show ?thesis by simp
      qed
      with len show "0 < i" "i < length (m_rows s')" by simp_all }
    { fix i v assume i: "i < length (m_rows s')" and v: "v \<in> set (m_vars (m_rows s' ! i))"
      have "m_id v < length (m_var2value s) \<and> (0 < i \<longrightarrow> i \<in> set (m_var2row_ids s' ! m_id v))"
      proof (cases "i < ?n")
        case True
        with old v have v': "v \<in> set (m_vars (m_rows s ! i))" by simp
        from wf_D(5)[OF wf True v'] iset show ?thesis by auto
      next
        case False
        with i len have e: "i = ?n" by simp
        with v new sr(4) have vc: "v \<in> set coeffs" by simp
        with ok have b: "m_id v < length (m_var2value s)" by (simp add: coeffs_ok_def)
        from iset[OF b] vc e show ?thesis using b by auto
      qed
      then show "m_id v < length (m_var2value s')" and "0 < i \<Longrightarrow> i \<in> set (m_var2row_ids s' ! m_id v)"
        using vals by simp_all }
    show "m_alive (m_rows s' ! 0) \<or> m_vars (m_rows s' ! 0) = []"
      using wf_D(6)[OF wf] old n0 by simp
  qed
  have rinv: "row_invariant s' r"
    using sr(8) by (simp add: row_invariant_def get_row_value_def vals)
  have rsat: "satisfied r" using sat sr(6) sr(7) by (simp add: satisfied_sat_rel)
  show "tableau_invariant s'"
    unfolding tableau_invariant_def
  proof (intro conjI allI impI)
    fix i assume i: "i < length (m_rows s')" and al: "m_alive (m_rows s' ! i)"
    show "row_invariant s' (m_rows s' ! i)"
    proof (cases "i < ?n")
      case True
      with old al have "m_alive (m_rows s ! i)" by simp
      from tableau_invariant_D(1)[OF inv True this] have "row_invariant s (m_rows s ! i)" .
      with vals have "row_invariant s' (m_rows s ! i)" by (rule row_invariant_vals)
      with old True show ?thesis by simp
    next
      case False
      with i len have "i = ?n" by simp
      with new rinv show ?thesis by simp
    qed
  next
    fix i assume i: "i < length (m_rows s')" and h: "0 < i \<and> m_alive (m_rows s' ! i)"
    show "satisfied (m_rows s' ! i)"
    proof (cases "i < ?n")
      case True
      with old h have "m_alive (m_rows s ! i)" by simp
      from tableau_invariant_D(2)[OF inv True this] h old True show ?thesis by simp
    next
      case False
      with i len have "i = ?n" by simp
      with new rsat show ?thesis by simp
    qed
  qed
qed

lemma set_objective_effect:
  fixes c :: rat
  assumes wf: "wf s" and inv: "tableau_invariant s" and ok: "coeffs_ok s coeffs"
    and empty: "m_vars (objective s) = []"
  defines "s' \<equiv> set_objective coeffs c s"
  shows "wf s'" and "tableau_invariant s'"
    and "m_var2value s' = m_var2value s"
    and "length (m_rows s') = length (m_rows s)"
    and "\<forall>i<length (m_rows s). 0 < i \<longrightarrow> m_rows s' ! i = m_rows s ! i"
    and "m_alive (objective s')"
    and "m_vars (objective s') = sort_key m_id coeffs"
proof -
  define r where "r = m_rows (set_row 0 coeffs c t_le s) ! 0"
  have n0: "0 < length (m_rows s)" using wf_D(1)[OF wf] by simp
  have e: "m_vars (m_rows s ! 0) = []" using empty by (simp add: objective_def m_objective_id_def)
  have sd: "s' = set_row 0 coeffs c t_le s" by (simp add: s'_def set_objective_def m_objective_id_def)
  note sr = set_row_fresh[OF n0 e ok, where c = c and rel = t_le, folded r_def, folded sd]
  have o: "objective s' = r" using sr(1) n0 by (simp add: objective_def m_objective_id_def)
  show vals: "m_var2value s' = m_var2value s" by (rule sr(2))
  show len: "length (m_rows s') = length (m_rows s)" using sr(1) by simp
  show old: "\<forall>i<length (m_rows s). 0 < i \<longrightarrow> m_rows s' ! i = m_rows s ! i" using sr(1) by simp
  show "m_alive (objective s')" using o sr(5) by simp
  show "m_vars (objective s') = sort_key m_id coeffs" using o sr(4) by simp
  have r0: "m_rows s' ! 0 = r" using sr(1) n0 by simp
  show "wf s'"
    unfolding wf_def
  proof (intro conjI allI impI ballI)
    show "m_rows s' \<noteq> []" using len n0 by auto
    show "length (m_rows s') \<le> UINT_MAX" using len wf_D(2)[OF wf] by simp
    show "length (m_var2row_ids s') = length (m_var2value s')" using sr(2,3) wf_D(3)[OF wf] by simp
    { fix y i assume "y < length (m_var2row_ids s')" "i \<in> set (m_var2row_ids s' ! y)"
      then show "0 < i" "i < length (m_rows s')"
        using wf_D(4)[OF wf, of y i] wf_D(3)[OF wf] sr(3) len by simp_all }
    { fix i v assume i: "i < length (m_rows s')" and v: "v \<in> set (m_vars (m_rows s' ! i))"
      have "m_id v < length (m_var2value s) \<and> (0 < i \<longrightarrow> i \<in> set (m_var2row_ids s ! m_id v))"
      proof (cases "i = 0")
        case True
        with v r0 sr(4) have "v \<in> set coeffs" by simp
        with ok True show ?thesis by (simp add: coeffs_ok_def)
      next
        case False
        with i len old v have "v \<in> set (m_vars (m_rows s ! i))" by simp
        with wf_D(5)[OF wf, of i v] i len show ?thesis by simp
      qed
      then show "m_id v < length (m_var2value s')" and "0 < i \<Longrightarrow> i \<in> set (m_var2row_ids s' ! m_id v)"
        using sr(2,3) by simp_all }
    show "m_alive (m_rows s' ! 0) \<or> m_vars (m_rows s' ! 0) = []" using r0 sr(5) by simp
  qed
  have rinv: "row_invariant s' r" using vals sr(8) by (rule row_invariant_vals)
  show "tableau_invariant s'"
    unfolding tableau_invariant_def
  proof (intro conjI allI impI)
    fix i assume i: "i < length (m_rows s')" and al: "m_alive (m_rows s' ! i)"
    show "row_invariant s' (m_rows s' ! i)"
    proof (cases "i = 0")
      case True
      with r0 rinv show ?thesis by simp
    next
      case False
      with i len old al have a: "m_alive (m_rows s ! i)" and il: "i < length (m_rows s)" by simp_all
      from tableau_invariant_D(1)[OF inv il a] have "row_invariant s (m_rows s ! i)" .
      with vals have "row_invariant s' (m_rows s ! i)" by (rule row_invariant_vals)
      with old False il show ?thesis by simp
    qed
  next
    fix i assume i: "i < length (m_rows s')" and h: "0 < i \<and> m_alive (m_rows s' ! i)"
    from i len have il: "i < length (m_rows s)" by simp
    from old il h have same: "m_rows s' ! i = m_rows s ! i" by simp
    with h have a: "m_alive (m_rows s ! i)" by simp
    from tableau_invariant_D(2)[OF inv il a] h same show "satisfied (m_rows s' ! i)" by simp
  qed
qed

lemma project_vars_effect:
  assumes "wf s" "tableau_invariant s" "\<forall>x\<in>set xs. x < length (m_var2value s)"
  shows "wf (project_vars xs s) \<and> tableau_invariant (project_vars xs s) \<and>
         m_var2value (project_vars xs s) = m_var2value s"
  using assms
proof (induction xs arbitrary: s)
  case Nil
  then show ?case by (simp add: project_vars_def)
next
  case (Cons x xs)
  from Cons.prems(3) have x: "x < length (m_var2value s)" by simp
  from project_effect[OF Cons.prems(1,2) x]
  have wf1: "wf (project x s)" and inv1: "tableau_invariant (project x s)"
    and vals: "m_var2value (project x s) = m_var2value s"
    unfolding project_ok_def by blast+
  from Cons.prems(3) vals have "\<forall>y\<in>set xs. y < length (m_var2value (project x s))" by simp
  from Cons.IH[OF wf1 inv1 this] vals show ?case by (simp add: project_vars_def)
qed

lemma maximize_total:
  assumes "wf s" "tableau_invariant s"
  shows "\<exists>r s'. maximize s = Some (r, s') \<and> wf s' \<and> tableau_invariant s' \<and>
           (all_rows_invariant s \<longrightarrow> all_rows_invariant s') \<and>
           (m_alive (objective s) \<longrightarrow>
              r = infinity \<or> (m_vars (objective s') = [] \<and> r = residual_result s'))"
proof -
  from assms have "loop_inv s [] []" by (simp add: loop_inv_def)
  from maximize_loop_result[OF this] show ?thesis by (simp add: maximize_def)
qed





















section \<open>Facts about the concrete tableaux\<close>

lemmas eval_defs =
  mk_row_def mk_var_def objective_def m_objective_id_def UINT_MAX_def kill_row_def
  get_row_value_def get_coefficient_def bsearch.simps push_row_id_def scale_var_def
  mul_add_def mul_add_type_def resolve_def find_bound_def find_bound_init_def find_bound_row_def
  update_values_def update_values_entry_def update_values_new_val_def update_values_eps_def
  recompute_row_def maximize_step_def maximize_result_def
  solve_for_def project_def project_init_def project_row_def project_row_index_def Let_def

lemma lp_tableau_built:
  "lp_tableau =
     set_objective [mk_var 0 1] 0
       (add_constraint [mk_var 0 1, mk_var 1 1] (- 20) t_le
       (add_constraint [mk_var 0 1, mk_var 1 (- 1)] (- 5) t_le
       (add_constraint [mk_var 0 1, mk_var 1 (- 2)] 0 t_le
       (snd (add_var 0 (snd (add_var 0 init_opt)))))))"
  by (simp add: lp_tableau_def set_objective_def add_constraint_def set_row_def add_var_def
      init_opt_def default_row_def mk_var_def mk_row_def m_objective_id_def)

lemma All_less_length_Cons:
  "(\<forall>i<length (x # xs). P i ((x # xs) ! i)) \<longleftrightarrow> P 0 x \<and> (\<forall>i<length xs. P (Suc i) (xs ! i))"
  by (auto simp: less_Suc_eq_0_disj)

lemma lp_tableau_wf: "wf lp_tableau"
  by (simp add: wf_def lp_tableau_def mk_row_def mk_var_def UINT_MAX_def All_less_Suc)

lemma lp_tableau_invariant: "tableau_invariant lp_tableau"
  by (simp add: tableau_invariant_def lp_tableau_def mk_row_def mk_var_def All_less_Suc
      row_invariant_def vars_ok_def satisfied_def get_row_value_def)






lemma strict_tableau_built:
  "strict_tableau =
     set_objective [mk_var 0 (- 3), mk_var 1 1] 0
       (add_constraint [mk_var 0 (- 1)] 0 t_le
       (add_constraint [mk_var 0 (- 1), mk_var 1 1] 0 t_lt
       (snd (add_var 0 (snd (add_var 1 init_opt))))))"
  by (simp add: strict_tableau_def set_objective_def add_constraint_def set_row_def add_var_def
      init_opt_def default_row_def mk_var_def mk_row_def m_objective_id_def)

lemma strict_tableau_wf: "wf strict_tableau"
  by (simp add: wf_def strict_tableau_def mk_row_def mk_var_def UINT_MAX_def All_less_Suc)

lemma strict_tableau_invariant: "tableau_invariant strict_tableau"
  by (simp add: tableau_invariant_def strict_tableau_def mk_row_def mk_var_def All_less_Suc
      row_invariant_def vars_ok_def satisfied_def get_row_value_def)

lemma strict_step_1: "maximize_step strict_tableau = Some (1, 1, strict_tableau_1)"
  by (simp add: strict_tableau_def strict_tableau_1_def eval_defs)

lemma strict_step_2: "maximize_step strict_tableau_1 = Some (2, 0, strict_tableau_2)"
  by (simp add: strict_tableau_1_def strict_tableau_2_def eval_defs)

lemma strict_update: "update_values [Suc 0, 0] [Suc 0, 2] strict_tableau_2 = strict_tableau_final"
  by (simp add: strict_tableau_2_def strict_tableau_final_def eval_defs)

lemma strict_maximize: "maximize strict_tableau = Some (inf_rational 0 (- 1), strict_tableau_final)"
proof -
  have o: "m_vars (objective strict_tableau) \<noteq> []" "m_vars (objective strict_tableau_1) \<noteq> []"
    "m_vars (objective strict_tableau_2) = []"
    by (simp_all add: strict_tableau_def strict_tableau_1_def strict_tableau_2_def eval_defs)
  have r: "maximize_result strict_tableau_final = inf_rational 0 (- 1)"
    by (simp add: strict_tableau_final_def eval_defs)
  show ?thesis
    unfolding maximize_def
    apply (subst maximize_loop.simps, simp add: o strict_step_1)
    apply (subst maximize_loop.simps, simp add: o strict_step_2)
    apply (subst maximize_loop.simps, simp add: o strict_update r Let_def)
    done
qed

lemma project_tableau_built:
  "project_tableau =
     add_constraint [mk_var 0 (- 1)] (- 6) t_le
       (add_constraint [mk_var 0 (- 1)] (- 4) t_le
       (add_constraint [mk_var 0 (- 1)] (- 3) t_le
       (add_constraint [mk_var 0 1] (- 7) t_le
       (add_constraint [mk_var 0 1] (- 5) t_le
       (snd (add_var 0 init_opt))))))"
  by (simp add: project_tableau_def add_constraint_def set_row_def add_var_def
      init_opt_def default_row_def mk_var_def mk_row_def m_objective_id_def)

lemma project_tableau_wf: "wf project_tableau"
  by (simp add: wf_def project_tableau_def mk_row_def mk_var_def default_row_def UINT_MAX_def All_less_Suc)

lemma project_tableau_invariant: "tableau_invariant project_tableau"
  by (simp add: tableau_invariant_def project_tableau_def mk_row_def mk_var_def default_row_def All_less_Suc
      row_invariant_def vars_ok_def satisfied_def get_row_value_def)

lemma project_tableau_result:
  "project 0 project_tableau =
     \<lparr>m_rows =
        [default_row,
         mk_row [mk_var 0 1] (- 5) t_le (- 5) False,
         mk_row [] (- 2) t_le (- 2) True,
         mk_row [] (- 8) t_le (- 8) True,
         mk_row [] (- 9) t_le (- 9) True,
         mk_row [] (- 11) t_le (- 11) True],
      m_var2value = [0],
      m_var2row_ids = [[1, 2, 3, 4, 5]]\<rparr>"
  by (simp add: project_tableau_def default_row_def eval_defs)

lemma grow_tableau_built:
  "grow_tableau =
     set_objective [mk_var 2 1] 0
       (add_constraint [mk_var 0 1, mk_var 1 1, mk_var 2 1] 0 t_le
       (snd (add_var 0 (snd (add_var 0 (snd (add_var 0 init_opt)))))))"
  by (simp add: grow_tableau_def set_objective_def add_constraint_def set_row_def add_var_def
      init_opt_def default_row_def mk_var_def mk_row_def m_objective_id_def)

lemma grow_step:
  "maximize_step grow_tableau =
     Some (1, 2,
       \<lparr>m_rows =
          [mk_row [mk_var 0 (- 1), mk_var 1 (- 1)] 0 t_le 0 True,
           mk_row [mk_var 0 1, mk_var 1 1, mk_var 2 1] 0 t_le 0 False],
        m_var2value = [0, 0, 0],
        m_var2row_ids = [[1], [1], [1]]\<rparr>)"
  by (simp add: grow_tableau_def eval_defs)

lemma equality_tableau_built:
  "equality_tableau =
     add_constraint [mk_var 0 (- 1), mk_var 1 (- 1)] 1 t_le
       (add_constraint [mk_var 0 1] (- 5) t_le
       (add_constraint [mk_var 0 1, mk_var 1 (- 1)] 0 t_eq
       (snd (add_var 1 (snd (add_var 1 init_opt))))))"
  by (simp add: equality_tableau_def add_constraint_def set_row_def add_var_def
      init_opt_def default_row_def mk_var_def mk_row_def m_objective_id_def)

lemma equality_tableau_wf: "wf equality_tableau"
  by (simp add: wf_def equality_tableau_def mk_row_def mk_var_def default_row_def UINT_MAX_def All_less_Suc)

lemma equality_tableau_invariant: "tableau_invariant equality_tableau"
  by (simp add: tableau_invariant_def equality_tableau_def mk_row_def mk_var_def default_row_def All_less_Suc
      row_invariant_def vars_ok_def satisfied_def get_row_value_def)

lemma equality_tableau_rows: "equality_rows equality_tableau 0 = [1]"
  by (simp add: equality_rows_def is_equality_def equality_tableau_def eval_defs)

lemma equality_tableau_result:
  "project 0 equality_tableau =
     \<lparr>m_rows =
        [default_row,
         mk_row [mk_var 0 1, mk_var 1 (- 1)] 0 t_eq 0 False,
         mk_row [mk_var 1 1] (- 5) t_le (- 4) True,
         mk_row [mk_var 1 (- 2)] 1 t_le (- 1) True],
      m_var2value = [1, 1],
      m_var2row_ids = [[1, 2, 3], [1, 3, 2]]\<rparr>"
  by (simp add: equality_tableau_def default_row_def eval_defs)

lemma late_bound_tableau_built:
  "late_bound_tableau =
     set_objective [mk_var 0 1, mk_var 1 1] 0
       (add_constraint [mk_var 1 1] (- 10) t_le
       (add_constraint [mk_var 0 (- 1), mk_var 1 1] 0 t_le
       (snd (add_var 0 (snd (add_var 0 init_opt))))))"
  by (simp add: late_bound_tableau_def set_objective_def add_constraint_def set_row_def add_var_def
      init_opt_def default_row_def mk_var_def mk_row_def m_objective_id_def)

lemma late_bound_tableau_wf: "wf late_bound_tableau"
  by (simp add: wf_def late_bound_tableau_def mk_row_def mk_var_def UINT_MAX_def All_less_Suc)

lemma late_bound_tableau_invariant: "tableau_invariant late_bound_tableau"
  by (simp add: tableau_invariant_def late_bound_tableau_def mk_row_def mk_var_def All_less_Suc
      row_invariant_def vars_ok_def satisfied_def get_row_value_def)

lemma late_bound_step_1: "maximize_step late_bound_tableau = Some (1, 1, late_bound_tableau_1)"
  by (simp add: late_bound_tableau_def late_bound_tableau_1_def eval_defs)

lemma late_bound_step_2: "maximize_step late_bound_tableau_1 = Some (2, 0, late_bound_tableau_2)"
  by (simp add: late_bound_tableau_1_def late_bound_tableau_2_def eval_defs)

lemma late_bound_update:
  "update_values [Suc 0, 0] [Suc 0, 2] late_bound_tableau_2 = late_bound_tableau_final"
  by (simp add: late_bound_tableau_2_def late_bound_tableau_final_def eval_defs)

lemma late_bound_maximize:
  "maximize late_bound_tableau = Some (inf_rational 20 0, late_bound_tableau_final)"
proof -
  have o: "m_vars (objective late_bound_tableau) \<noteq> []" "m_vars (objective late_bound_tableau_1) \<noteq> []"
    "m_vars (objective late_bound_tableau_2) = []"
    by (simp_all add: late_bound_tableau_def late_bound_tableau_1_def late_bound_tableau_2_def eval_defs)
  have r: "maximize_result late_bound_tableau_final = inf_rational 20 0"
    by (simp add: late_bound_tableau_final_def eval_defs)
  show ?thesis
    unfolding maximize_def
    apply (subst maximize_loop.simps, simp add: o late_bound_step_1)
    apply (subst maximize_loop.simps, simp add: o late_bound_step_2)
    apply (subst maximize_loop.simps, simp add: o late_bound_update r Let_def)
    done
qed

lemma spare_tableau_wf: "wf spare_tableau"
  unfolding spare_tableau_def using project_tableau_wf project_tableau_invariant by (rule add_var_effect(1))

lemma spare_tableau_invariant: "tableau_invariant spare_tableau"
  unfolding spare_tableau_def using project_tableau_wf project_tableau_invariant by (rule add_var_effect(2))

lemma spare_tableau_result: "project 1 spare_tableau = spare_tableau"
  by (simp add: spare_tableau_def add_var_def project_tableau_def eval_defs)

lemma lp_tableau_project:
  "project 0 lp_tableau =
     \<lparr>m_rows =
        [mk_row [mk_var 0 1] 0 t_le 0 True,
         mk_row [mk_var 0 1, mk_var 1 (- 2)] 0 t_le 0 False,
         mk_row [mk_var 0 1, mk_var 1 (- 1)] (- 5) t_le (- 5) False,
         mk_row [mk_var 0 1, mk_var 1 1] (- 20) t_le (- 20) False],
      m_var2value = [0, 0],
      m_var2row_ids = [[1, 2, 3], [1, 2, 3]]\<rparr>"
  by (simp add: lp_tableau_def eval_defs)

lemma killed_empty:
  assumes "killed {} s s'"
  shows "s' = s"
proof -
  from assms have "m_var2value s' = m_var2value s" "m_var2row_ids s' = m_var2row_ids s"
    and len: "length (m_rows s') = length (m_rows s)"
    and rows: "\<forall>i<length (m_rows s). m_rows s' ! i = m_rows s ! i"
    by (simp_all add: killed_def)
  moreover from len rows have "m_rows s' = m_rows s" by (simp add: nth_equalityI)
  ultimately show ?thesis by simp
qed

lemma live_rows_psubset:
  assumes len: "length (m_rows s') = length (m_rows s)"
    and mono: "\<forall>i<length (m_rows s). m_alive (m_rows s' ! i) \<longrightarrow> m_alive (m_rows s ! i)"
    and k: "k < length (m_rows s)" "m_alive (m_rows s ! k)" "\<not> m_alive (m_rows s' ! k)"
  shows "live_rows s' \<subset> live_rows s"
proof -
  have "live_rows s' \<subseteq> live_rows s" using len mono by (auto simp: live_rows_def)
  moreover have "k \<in> live_rows s" "k \<notin> live_rows s'" using k by (simp_all add: live_rows_def)
  ultimately show ?thesis by blast
qed

lemma project_kills:
  assumes wf: "wf s" and inv: "tableau_invariant s" and x: "x < length (m_var2value s)"
  shows "(\<exists>i\<in>set (m_var2row_ids s ! x). m_alive (m_rows s ! i) \<and> get_coefficient s i x \<noteq> 0) \<Longrightarrow>
           live_rows (project x s) \<subset> live_rows s"
    and "\<not> (\<exists>i\<in>set (m_var2row_ids s ! x). m_alive (m_rows s ! i) \<and> get_coefficient s i x \<noteq> 0) \<Longrightarrow>
           project x s = s"
proof -
  let ?s' = "project x s"
  let ?idx = "m_var2row_ids s ! x"
  from project_effect[OF wf inv x]
  have len: "length (m_rows ?s') = length (m_rows s)"
    and mono: "\<forall>i<length (m_rows s). m_alive (m_rows ?s' ! i) \<longrightarrow> m_alive (m_rows s ! i)"
    unfolding project_ok_def by blast+
  have UL: "upper_rows s x \<union> lower_rows s x =
      {i \<in> set ?idx. m_alive (m_rows s ! i) \<and> get_coefficient s i x \<noteq> 0}"
    by (auto simp: upper_rows_def lower_rows_def is_upper_def is_lower_def)
  {
    assume ex: "\<exists>i\<in>set ?idx. m_alive (m_rows s ! i) \<and> get_coefficient s i x \<noteq> 0"
    have "\<exists>k<length (m_rows s). m_alive (m_rows s ! k) \<and> \<not> m_alive (m_rows ?s' ! k)"
    proof (cases "equality_rows s x = []")
      case False
      note pe = project_equality[OF wf inv x False]
      note se = solve_for_effect[OF wf inv x pe(2) pe(3)]
      let ?r = "hd (equality_rows s x)"
      from wf_D(4)[OF wf x pe(2)] have "?r < length (m_rows s)" by simp
      moreover from pe(3) have "m_alive (m_rows s ! ?r)" by (simp add: is_equality_def)
      moreover from se(3) pe(1) have "\<not> m_alive (m_rows ?s' ! ?r)" by simp
      ultimately show ?thesis by blast
    next
      case True
      from ex obtain i where i: "i \<in> set ?idx" "m_alive (m_rows s ! i)" "get_coefficient s i x \<noteq> 0"
        by blast
      from wf_D(4)[OF wf x i(1)] have il: "i < length (m_rows s)" by simp
      from i UL have iUL: "i \<in> upper_rows s x \<union> lower_rows s x" by blast
      from project_no_equality[OF wf inv x True]
      consider (none) "killed (upper_rows s x \<union> lower_rows s x) s ?s'"
        | (pivot) q where "q \<in> upper_rows s x \<union> lower_rows s x"
            "m_rows ?s' ! q = (m_rows s ! q)\<lparr>m_alive := False\<rparr>"
        by (auto split: if_splits)
      then show ?thesis
      proof cases
        case none
        with il iUL have "\<not> m_alive (m_rows ?s' ! i)" by (simp add: killed_def)
        with il i(2) show ?thesis by blast
      next
        case pivot
        from pivot(1) UL have q: "q \<in> set ?idx" "m_alive (m_rows s ! q)" by blast+
        from wf_D(4)[OF wf x q(1)] have "q < length (m_rows s)" by simp
        moreover from pivot(2) have "\<not> m_alive (m_rows ?s' ! q)" by simp
        ultimately show ?thesis using q(2) by blast
      qed
    qed
    then obtain k where "k < length (m_rows s)" "m_alive (m_rows s ! k)" "\<not> m_alive (m_rows ?s' ! k)"
      by blast
    with len mono show "live_rows ?s' \<subset> live_rows s" by (rule live_rows_psubset)
  }
  {
    assume no: "\<not> (\<exists>i\<in>set ?idx. m_alive (m_rows s ! i) \<and> get_coefficient s i x \<noteq> 0)"
    then have e: "upper_rows s x \<union> lower_rows s x = {}" using UL by blast
    from no have eq: "equality_rows s x = []"
      by (auto simp: equality_rows_def is_equality_def filter_empty_conv)
    from e have "upper_rows s x = {}" by blast
    with project_no_equality[OF wf inv x eq] e have "killed {} s ?s'" by auto
    then show "?s' = s" by (rule killed_empty)
  }
qed

lemma grow_tableau_wf: "wf grow_tableau"
  by (simp add: wf_def grow_tableau_def mk_row_def mk_var_def UINT_MAX_def All_less_Suc)

lemma grow_tableau_invariant: "tableau_invariant grow_tableau"
  by (simp add: tableau_invariant_def grow_tableau_def mk_row_def mk_var_def All_less_Suc
      row_invariant_def vars_ok_def satisfied_def get_row_value_def)

lemma grow_step_1: "maximize_step grow_tableau = Some (1, 2, grow_tableau_1)"
  by (simp add: grow_tableau_def grow_tableau_1_def eval_defs)




section \<open>C1: the value returned by \<^verbatim>\<open>maximize\<close>\<close>




section \<open>C10: projection removes the variable from every live constraint row\<close>

text \<open>C10. After \<^verbatim>\<open>project(x)\<close> on a well-formed tableau that satisfies the invariants,
  every live row other than the objective row has coefficient zero on \<open>x\<close> and \<open>x\<close> does not
  occur in its variable list. The objective row is left exactly as it was, so it alone may
  still mention \<open>x\<close>, and row 0 is in no list of the variable-to-rows index.\<close>

theorem project_eliminates_variable:
  assumes "wf s" "tableau_invariant s" "x < length (m_var2value s)"
  shows "(\<forall>i<length (m_rows (project x s)). 0 < i \<and> m_alive (m_rows (project x s) ! i) \<longrightarrow>
            get_coefficient (project x s) i x = 0 \<and>
            x \<notin> m_id ` set (m_vars (m_rows (project x s) ! i))) \<and>
         m_rows (project x s) ! 0 = m_rows s ! 0 \<and>
         (\<forall>y<length (m_var2row_ids (project x s)). 0 \<notin> set (m_var2row_ids (project x s) ! y))"
proof -
  let ?s = "project x s"
  from project_effect[OF assms] have ok: "project_ok s x ?s" .
  then have wf': "wf ?s" and inv': "tableau_invariant ?s"
    and len: "length (m_rows ?s) = length (m_rows s)"
    and r0: "m_rows ?s ! 0 = m_rows s ! 0"
    and nox: "\<forall>i<length (m_rows s). 0 < i \<and> m_alive (m_rows ?s ! i) \<longrightarrow>
                 x \<notin> m_id ` set (m_vars (m_rows ?s ! i))"
    unfolding project_ok_def by blast+
  have a: "get_coefficient ?s i x = 0 \<and> x \<notin> m_id ` set (m_vars (m_rows ?s ! i))"
    if i: "i < length (m_rows ?s)" and h: "0 < i \<and> m_alive (m_rows ?s ! i)" for i
  proof -
    from nox i h len have n: "x \<notin> m_id ` set (m_vars (m_rows ?s ! i))" by simp
    from h have "m_alive (m_rows ?s ! i)" by simp
    from tableau_invariant_D(1)[OF inv' i this]
    have "sorted_wrt (<) (map m_id (m_vars (m_rows ?s ! i)))"
      by (simp add: row_invariant_def vars_ok_def)
    then have "get_coefficient ?s i x = coeff_of (m_vars (m_rows ?s ! i)) x"
      by (rule get_coefficient_coeff_of)
    with n show ?thesis by (simp add: coeff_of_notin)
  qed
  have b: "0 \<notin> set (m_var2row_ids ?s ! y)" if "y < length (m_var2row_ids ?s)" for y
  proof
    assume "0 \<in> set (m_var2row_ids ?s ! y)"
    moreover from that wf_D(3)[OF wf'] have "y < length (m_var2value ?s)" by simp
    ultimately show False using wf_D(4)[OF wf', of y 0] by simp
  qed
  from a r0 b show ?thesis by blast
qed

theorem project_eliminates_variable_witness:
  "wf project_tableau \<and> tableau_invariant project_tableau \<and>
   0 < length (m_var2value project_tableau) \<and>
   m_alive (m_rows (project 0 project_tableau) ! 2) \<and>
   get_coefficient (project 0 project_tableau) 2 0 = 0 \<and>
   0 \<notin> m_id ` set (m_vars (m_rows (project 0 project_tableau) ! 2)) \<and>
   m_rows (project 0 project_tableau) ! 0 = m_rows project_tableau ! 0"
proof -
  have l: "0 < length (m_var2value project_tableau)" by (simp add: project_tableau_def)
  have a: "m_alive (m_rows (project 0 project_tableau) ! 2)"
    and n: "(2::nat) < length (m_rows (project 0 project_tableau))"
    by (simp_all add: project_tableau_result mk_row_def)
  from project_eliminates_variable[OF project_tableau_wf project_tableau_invariant l] a n
  have "get_coefficient (project 0 project_tableau) 2 0 = 0 \<and>
        0 \<notin> m_id ` set (m_vars (m_rows (project 0 project_tableau) ! 2)) \<and>
        m_rows (project 0 project_tableau) ! 0 = m_rows project_tableau ! 0"
    by (meson zero_less_numeral)
  with project_tableau_wf project_tableau_invariant l a show ?thesis by simp
qed

section \<open>C2: the public operations preserve the row and satisfaction invariants\<close>

text \<open>C2. On a well-formed tableau in which every live row satisfies the row invariant (strictly
  sorted variable list without zero coefficient, cached value equal to the constant plus the
  dot product with the model) and every live non-objective row satisfies the satisfaction
  invariant (\<open>Eq\<close>: value 0, \<open>Lt\<close>: value below 0, \<open>Le\<close>: value at most 0), each public
  operation yields a well-formed tableau with the same two invariants: \<^verbatim>\<open>add_var\<close>;
  \<^verbatim>\<open>add_constraint\<close> and \<^verbatim>\<open>set_objective\<close> when the caller supplies distinct declared
  variables with non-zero coefficients (and a constraint that holds in the model, respectively
  an objective row that has not been filled yet); \<^verbatim>\<open>maximize\<close>, which also returns;
  \<^verbatim>\<open>project\<close> of one declared variable or of a list of them; and \<^verbatim>\<open>solve_for\<close> on a live
  equality row of the index of \<open>x\<close> with a non-zero coefficient on \<open>x\<close>.\<close>

theorem public_operations_preserve_invariants:
  assumes "wf s" "tableau_invariant s"
  shows "(wf (snd (add_var val s)) \<and> tableau_invariant (snd (add_var val s))) \<and>
         (coeffs_ok s coeffs \<and> length (m_rows s) < UINT_MAX \<and>
          sat_rel rel (c + row_sum (m_var2value s) coeffs) \<longrightarrow>
            wf (add_constraint coeffs c rel s) \<and> tableau_invariant (add_constraint coeffs c rel s)) \<and>
         (coeffs_ok s coeffs \<and> m_vars (objective s) = [] \<longrightarrow>
            wf (set_objective coeffs c s) \<and> tableau_invariant (set_objective coeffs c s)) \<and>
         (\<exists>r s'. maximize s = Some (r, s') \<and> wf s' \<and> tableau_invariant s') \<and>
         (x < length (m_var2value s) \<longrightarrow> wf (project x s) \<and> tableau_invariant (project x s)) \<and>
         ((\<forall>y\<in>set xs. y < length (m_var2value s)) \<longrightarrow>
            wf (project_vars xs s) \<and> tableau_invariant (project_vars xs s)) \<and>
         (x < length (m_var2value s) \<and> p \<in> set (m_var2row_ids s ! x) \<and> is_equality s x p \<longrightarrow>
            wf (solve_for p x s) \<and> tableau_invariant (solve_for p x s))"
proof (intro conjI impI)
  show "wf (snd (add_var val s))" using assms by (rule add_var_effect(1))
  show "tableau_invariant (snd (add_var val s))" using assms by (rule add_var_effect(2))
next
  assume h: "coeffs_ok s coeffs \<and> length (m_rows s) < UINT_MAX \<and>
          sat_rel rel (c + row_sum (m_var2value s) coeffs)"
  then have a: "coeffs_ok s coeffs" and b: "length (m_rows s) < UINT_MAX"
    and d: "sat_rel rel (c + row_sum (m_var2value s) coeffs)" by simp_all
  show "wf (add_constraint coeffs c rel s)" using assms a b d by (rule add_constraint_effect(1))
  show "tableau_invariant (add_constraint coeffs c rel s)"
    using assms a b d by (rule add_constraint_effect(2))
next
  assume h: "coeffs_ok s coeffs \<and> m_vars (objective s) = []"
  then have a: "coeffs_ok s coeffs" and b: "m_vars (objective s) = []" by simp_all
  show "wf (set_objective coeffs c s)" using assms a b by (rule set_objective_effect(1))
  show "tableau_invariant (set_objective coeffs c s)" using assms a b by (rule set_objective_effect(2))
next
  from maximize_total[OF assms]
  show "\<exists>r s'. maximize s = Some (r, s') \<and> wf s' \<and> tableau_invariant s'" by blast
next
  assume x: "x < length (m_var2value s)"
  from project_effect[OF assms x]
  show "wf (project x s)" and "tableau_invariant (project x s)" unfolding project_ok_def by blast+
next
  assume xs: "\<forall>y\<in>set xs. y < length (m_var2value s)"
  from project_vars_effect[OF assms xs]
  show "wf (project_vars xs s)" and "tableau_invariant (project_vars xs s)" by blast+
next
  assume h: "x < length (m_var2value s) \<and> p \<in> set (m_var2row_ids s ! x) \<and> is_equality s x p"
  then have x: "x < length (m_var2value s)" and p: "p \<in> set (m_var2row_ids s ! x)"
    and e: "is_equality s x p" by simp_all
  from solve_for_effect(1)[OF assms x p e]
  show "wf (solve_for p x s)" and "tableau_invariant (solve_for p x s)"
    unfolding project_ok_def by blast+
qed

theorem public_operations_preserve_invariants_witness:
  "wf equality_tableau \<and> tableau_invariant equality_tableau \<and>
   coeffs_ok equality_tableau [mk_var 0 1] \<and>
   sat_rel t_le (- 5 + row_sum (m_var2value equality_tableau) [mk_var 0 1]) \<and>
   m_vars (objective equality_tableau) = [] \<and>
   is_equality equality_tableau 0 1 \<and>
   tableau_invariant (snd (add_var 0 equality_tableau)) \<and>
   tableau_invariant (add_constraint [mk_var 0 1] (- 5) t_le equality_tableau) \<and>
   tableau_invariant (set_objective [mk_var 0 1] 0 equality_tableau) \<and>
   (\<exists>r s'. maximize equality_tableau = Some (r, s') \<and> tableau_invariant s') \<and>
   tableau_invariant (project 0 equality_tableau) \<and>
   tableau_invariant (project_vars [0, 1] equality_tableau) \<and>
   tableau_invariant (solve_for 1 0 equality_tableau)"
proof -
  have ok: "coeffs_ok equality_tableau [mk_var 0 1]"
    by (simp add: coeffs_ok_def equality_tableau_def mk_var_def)
  have room: "length (m_rows equality_tableau) < UINT_MAX"
    by (simp add: equality_tableau_def UINT_MAX_def)
  have sat: "sat_rel t_le (- 5 + row_sum (m_var2value equality_tableau) [mk_var 0 1])"
    by (simp add: sat_rel_def equality_tableau_def mk_var_def)
  have emp: "m_vars (objective equality_tableau) = []"
    by (simp add: equality_tableau_def default_row_def eval_defs)
  have x: "0 < length (m_var2value equality_tableau)"
    and xs: "\<forall>y\<in>set [0, 1]. y < length (m_var2value equality_tableau)"
    and p: "1 \<in> set (m_var2row_ids equality_tableau ! 0)"
    by (simp_all add: equality_tableau_def)
  have e: "is_equality equality_tableau 0 1"
    by (simp add: is_equality_def equality_tableau_def eval_defs)
  note t = public_operations_preserve_invariants[OF equality_tableau_wf equality_tableau_invariant,
      where val = 0 and coeffs = "[mk_var 0 1]" and c = "- 5" and rel = t_le and x = 0
        and xs = "[0, 1]" and p = 1]
  note u = public_operations_preserve_invariants[OF equality_tableau_wf equality_tableau_invariant,
      where coeffs = "[mk_var 0 1]" and c = 0]
  from t ok room sat have a: "tableau_invariant (add_constraint [mk_var 0 1] (- 5) t_le equality_tableau)"
    by blast
  from u ok emp have b: "tableau_invariant (set_objective [mk_var 0 1] 0 equality_tableau)" by blast
  from t have d: "tableau_invariant (snd (add_var 0 equality_tableau))"
    and m: "\<exists>r s'. maximize equality_tableau = Some (r, s') \<and> tableau_invariant s'" by blast+
  from t x have f: "tableau_invariant (project 0 equality_tableau)" by blast
  from t xs have g: "tableau_invariant (project_vars [0, 1] equality_tableau)" by blast
  from t x p e have k: "tableau_invariant (solve_for 1 0 equality_tableau)" by blast
  from equality_tableau_wf equality_tableau_invariant ok sat emp e d a b m f g k
  show ?thesis by (intro conjI)
qed

section \<open>C3: the unbounded exit of \<^verbatim>\<open>maximize\<close>\<close>

text \<open>C3. Let the main loop of \<^verbatim>\<open>maximize()\<close>, started on a well-formed tableau satisfying
  the invariants, reach an iteration in which the variable it selects, the last one of the
  objective row, has in its index no live row with a non-zero coefficient whose sign matches
  the sign of the objective's coefficient or whose relation is an equality. Then
  \<^verbatim>\<open>maximize()\<close> returns \<open>+infinity\<close> and the tableau it leaves is the one of that iteration
  after \<^verbatim>\<open>update_values\<close> over the trail built so far; in it the invariants hold for the
  live rows, and the row invariant holds for every row if it did so on entry. Only the selected
  variable is examined: another variable of the objective may lack such a row without
  \<^verbatim>\<open>maximize()\<close> returning \<open>+infinity\<close>.\<close>

theorem maximize_unbounded:
  assumes "wf s" "tableau_invariant s"
    and "maximize_reaches s s1 bound_trail bound_vars" "m_vars (objective s1) \<noteq> []"
    and "\<not> (\<exists>i\<in>set (m_var2row_ids s1 ! m_id (last (m_vars (objective s1)))).
               is_candidate s1 (m_id (last (m_vars (objective s1))))
                 (0 < var.m_coeff (last (m_vars (objective s1)))) i)"
  shows "maximize s = Some (infinity, update_values bound_vars bound_trail s1) \<and>
         tableau_invariant (update_values bound_vars bound_trail s1) \<and>
         (all_rows_invariant s \<longrightarrow> all_rows_invariant (update_values bound_vars bound_trail s1))"
proof -
  from maximize_reaches_inv[OF assms(1-3)]
  have li: "loop_inv s1 bound_trail bound_vars"
    and ar: "all_rows_invariant s \<longrightarrow> all_rows_invariant s1" by simp_all
  from li have wf1: "wf s1" and inv1: "tableau_invariant s1" by (simp_all add: loop_inv_def)
  from maximize_step_None[OF wf1 inv1 assms(4)] assms(5) have n: "maximize_step s1 = None" by simp
  have "maximize s = maximize_loop s1 bound_trail bound_vars"
    unfolding maximize_def using assms(3) by (rule maximize_reaches_loop)
  also have "\<dots> = Some (infinity, update_values bound_vars bound_trail s1)"
    using assms(4) n by (subst maximize_loop.simps) simp
  finally have a: "maximize s = Some (infinity, update_values bound_vars bound_trail s1)" .
  have b: "tableau_invariant (update_values bound_vars bound_trail s1)"
    using li by (rule exit_invariant(2))
  have c: "all_rows_invariant s \<longrightarrow> all_rows_invariant (update_values bound_vars bound_trail s1)"
    using ar exit_invariant(3)[OF li] by blast
  from a b c show ?thesis by (intro conjI)
qed

theorem maximize_unbounded_witness:
  "wf grow_tableau \<and> tableau_invariant grow_tableau \<and>
   maximize_reaches grow_tableau grow_tableau_1 [1] [2] \<and>
   m_vars (objective grow_tableau_1) \<noteq> [] \<and>
   all_rows_invariant grow_tableau \<and>
   maximize grow_tableau = Some (infinity, update_values [2] [1] grow_tableau_1) \<and>
   tableau_invariant (update_values [2] [1] grow_tableau_1) \<and>
   all_rows_invariant (update_values [2] [1] grow_tableau_1)"
proof -
  have ne0: "m_vars (objective grow_tableau) \<noteq> []" by (simp add: grow_tableau_def eval_defs)
  have r: "maximize_reaches grow_tableau grow_tableau_1 ([] @ [1]) ([] @ [2])"
    using maximize_reaches.start ne0 grow_step_1 by (rule maximize_reaches.iterate)
  then have r': "maximize_reaches grow_tableau grow_tableau_1 [1] [2]" by simp
  have ne: "m_vars (objective grow_tableau_1) \<noteq> []" by (simp add: grow_tableau_1_def eval_defs)
  have nc: "\<not> (\<exists>i\<in>set (m_var2row_ids grow_tableau_1 ! m_id (last (m_vars (objective grow_tableau_1)))).
               is_candidate grow_tableau_1 (m_id (last (m_vars (objective grow_tableau_1))))
                 (0 < var.m_coeff (last (m_vars (objective grow_tableau_1)))) i)"
    by (simp add: is_candidate_def grow_tableau_1_def eval_defs)
  have al: "all_rows_invariant grow_tableau"
    by (simp add: all_rows_invariant_def grow_tableau_def mk_row_def mk_var_def All_less_Suc
        row_invariant_def vars_ok_def get_row_value_def)
  note t = maximize_unbounded[OF grow_tableau_wf grow_tableau_invariant r' ne nc]
  from grow_tableau_wf grow_tableau_invariant r' ne al
    t[THEN conjunct1] t[THEN conjunct2, THEN conjunct1] t[THEN conjunct2, THEN conjunct2, rule_format, OF al]
  show ?thesis by (intro conjI)
qed

text \<open>On \<open>late_bound_tableau\<close> (maximize \<open>x + y\<close> subject to \<open>y \<le> x\<close> and \<open>y \<le> 10\<close>) the
  variable \<open>x\<close> of the objective has a positive coefficient, and the only row of its index, row
  1, has a negative coefficient on \<open>x\<close> and is not an equality: no live row constrains \<open>x\<close> in
  the needed direction. \<^verbatim>\<open>maximize\<close> selects \<open>y\<close> first, resolves \<open>y \<le> 10\<close> against the
  bound \<open>y \<le> x\<close> into \<open>x \<le> 10\<close>, and returns 20.\<close>

theorem maximize_examines_selected_variable_only:
  "wf late_bound_tableau \<and> tableau_invariant late_bound_tableau \<and>
   m_vars (objective late_bound_tableau) = [mk_var 0 1, mk_var 1 1] \<and>
   m_var2row_ids late_bound_tableau ! 0 = [1] \<and>
   \<not> is_candidate late_bound_tableau 0 True 1 \<and>
   maximize late_bound_tableau = Some (inf_rational 20 0, late_bound_tableau_final)"
proof -
  have "m_vars (objective late_bound_tableau) = [mk_var 0 1, mk_var 1 1]"
    "m_var2row_ids late_bound_tableau ! 0 = [1]"
    "\<not> is_candidate late_bound_tableau 0 True 1"
    by (simp_all add: is_candidate_def late_bound_tableau_def eval_defs)
  with late_bound_tableau_wf late_bound_tableau_invariant late_bound_maximize
  show ?thesis by simp
qed

section \<open>C4: pivot selection in \<^verbatim>\<open>project\<close> without an equality row\<close>

text \<open>C4. Let \<open>U\<close> be the live rows of the index of \<open>x\<close> with a positive coefficient on \<open>x\<close>
  and \<open>L\<close> those with a negative one, and let no live indexed row with a non-zero coefficient
  on \<open>x\<close> be an equality. If \<open>U\<close> or \<open>L\<close> is empty, \<^verbatim>\<open>project(x)\<close> marks exactly the rows
  of \<open>U \<union> L\<close> dead and changes nothing else. If both are non-empty, the pivot \<open>q\<close> is the
  tightest row of \<open>U\<close> when \<open>U\<close> has at most as many rows as \<open>L\<close>, and the tightest row of
  \<open>L\<close> otherwise; the pivot is marked dead, and every other row of \<open>U \<union> L\<close>, on the pivot's
  own side as well as on the other side, is replaced by its resolvent against the pivot and
  stays in the tableau; all other rows are unchanged.\<close>

theorem project_pivot_selection:
  assumes "wf s" "tableau_invariant s" "x < length (m_var2value s)" "equality_rows s x = []"
  shows "let U = upper_rows s x; L = lower_rows s x; s' = project x s in
           (U = {} \<or> L = {} \<longrightarrow> killed (U \<union> L) s s') \<and>
           (U \<noteq> {} \<and> L \<noteq> {} \<longrightarrow>
              (\<exists>q. (if card U \<le> card L then q \<in> U \<and> (\<forall>i\<in>U. tightest s x True q i)
                         else q \<in> L \<and> (\<forall>i\<in>L. tightest s x False q i)) \<and>
                   m_rows s' ! q = (m_rows s ! q)\<lparr>m_alive := False\<rparr> \<and>
                   (\<forall>i<length (m_rows s). i \<noteq> q \<longrightarrow>
                      m_alive (m_rows s' ! i) = m_alive (m_rows s ! i) \<and>
                      m_rows s' ! i =
                        (if i \<in> U \<union> L
                         then resolve_row False (get_coefficient s q x) x (m_rows s ! q) (m_rows s ! i)
                         else m_rows s ! i))))"
proof -
  define U where "U = upper_rows s x"
  define L where "L = lower_rows s x"
  let ?s' = "project x s"
  note pn = project_no_equality[OF assms, folded U_def L_def]
  have a: "killed (U \<union> L) s ?s'" if "U = {} \<or> L = {}"
    using pn that by blast
  have b: "\<exists>q. (if card U \<le> card L then q \<in> U \<and> (\<forall>i\<in>U. tightest s x True q i)
                         else q \<in> L \<and> (\<forall>i\<in>L. tightest s x False q i)) \<and>
                   m_rows ?s' ! q = (m_rows s ! q)\<lparr>m_alive := False\<rparr> \<and>
                   (\<forall>i<length (m_rows s). i \<noteq> q \<longrightarrow>
                      m_alive (m_rows ?s' ! i) = m_alive (m_rows s ! i) \<and>
                      m_rows ?s' ! i =
                        (if i \<in> U \<union> L
                         then resolve_row False (get_coefficient s q x) x (m_rows s ! q) (m_rows s ! i)
                         else m_rows s ! i))"
    if ne: "U \<noteq> {} \<and> L \<noteq> {}"
  proof -
    from pn ne obtain q s1 where
      qsel: "if card U \<le> card L then q \<in> U \<and> (\<forall>i\<in>U. tightest s x True q i)
             else q \<in> L \<and> (\<forall>i\<in>L. tightest s x False q i)"
      and res: "resolved q (get_coefficient s q x) x (U \<union> L - {q}) s s1"
      and pr: "?s' = kill_row q s1"
      and dead: "m_rows ?s' ! q = (m_rows s ! q)\<lparr>m_alive := False\<rparr>"
      and al: "\<forall>i<length (m_rows s). i \<noteq> q \<longrightarrow> m_alive (m_rows ?s' ! i) = m_alive (m_rows s ! i)"
      by blast
    from res have len1: "length (m_rows s1) = length (m_rows s)"
      and rows1: "\<And>i. i < length (m_rows s) \<Longrightarrow> m_rows s1 ! i =
            (if i \<in> U \<union> L - {q} \<and> m_alive (m_rows s ! i)
             then resolve_row (i = m_objective_id) (get_coefficient s q x) x (m_rows s ! q) (m_rows s ! i)
             else m_rows s ! i)"
      by (simp_all add: resolved_def)
    have mem: "m_alive (m_rows s ! i) \<and> i \<noteq> m_objective_id" if "i \<in> U \<union> L" for i
    proof -
      from that have i: "i \<in> set (m_var2row_ids s ! x)" and "m_alive (m_rows s ! i)"
        by (auto simp: U_def L_def upper_rows_def lower_rows_def is_upper_def is_lower_def)
      moreover from wf_D(4)[OF assms(1,3) i] have "i \<noteq> m_objective_id" by (simp add: m_objective_id_def)
      ultimately show ?thesis by simp
    qed
    have other: "m_alive (m_rows ?s' ! i) = m_alive (m_rows s ! i) \<and>
        m_rows ?s' ! i =
          (if i \<in> U \<union> L
           then resolve_row False (get_coefficient s q x) x (m_rows s ! q) (m_rows s ! i)
           else m_rows s ! i)"
      if i: "i < length (m_rows s)" and iq: "i \<noteq> q" for i
    proof
      show "m_alive (m_rows ?s' ! i) = m_alive (m_rows s ! i)" using al i iq by simp
      have "m_rows ?s' ! i = m_rows s1 ! i" using pr i iq len1 by (simp add: kill_row_nth)
      also have "\<dots> = (if i \<in> U \<union> L - {q} \<and> m_alive (m_rows s ! i)
             then resolve_row (i = m_objective_id) (get_coefficient s q x) x (m_rows s ! q) (m_rows s ! i)
             else m_rows s ! i)" using rows1[OF i] .
      also have "\<dots> = (if i \<in> U \<union> L
           then resolve_row False (get_coefficient s q x) x (m_rows s ! q) (m_rows s ! i)
           else m_rows s ! i)"
      proof (cases "i \<in> U \<union> L")
        case True
        with mem[OF True] iq show ?thesis by simp
      next
        case False
        then show ?thesis by simp
      qed
      finally show "m_rows ?s' ! i =
          (if i \<in> U \<union> L
           then resolve_row False (get_coefficient s q x) x (m_rows s ! q) (m_rows s ! i)
           else m_rows s ! i)" .
    qed
    from qsel dead other show ?thesis by blast
  qed
  from a b show ?thesis unfolding Let_def U_def[symmetric] L_def[symmetric] by blast
qed

theorem project_pivot_selection_witness:
  "equality_rows project_tableau 0 = [] \<and>
   upper_rows project_tableau 0 = {1, 2} \<and> lower_rows project_tableau 0 = {3, 4, 5} \<and>
   (\<exists>q. q \<in> {1, 2} \<and> tightest project_tableau 0 True q 1 \<and> tightest project_tableau 0 True q 2 \<and>
        m_rows (project 0 project_tableau) ! q = (m_rows project_tableau ! q)\<lparr>m_alive := False\<rparr>) \<and>
   equality_rows lp_tableau 0 = [] \<and>
   upper_rows lp_tableau 0 = {1, 2, 3} \<and> lower_rows lp_tableau 0 = {} \<and>
   killed {1, 2, 3} lp_tableau (project 0 lp_tableau)"
proof -
  have l: "0 < length (m_var2value project_tableau)" by (simp add: project_tableau_def)
  have e: "equality_rows project_tableau 0 = []"
    by (simp add: equality_rows_def is_equality_def project_tableau_def eval_defs)
  have U: "upper_rows project_tableau 0 = {1, 2}"
    by (simp add: upper_rows_def is_upper_def project_tableau_def eval_defs)
  have L: "lower_rows project_tableau 0 = {3, 4, 5}"
    by (simp add: lower_rows_def is_lower_def project_tableau_def eval_defs)
  have ne: "{1, 2} \<noteq> ({}::nat set) \<and> {3, 4, 5} \<noteq> ({}::nat set)" by simp
  have cd: "card {1, 2::nat} \<le> card {3, 4, 5::nat}" by simp
  note t = project_pivot_selection[OF project_tableau_wf project_tableau_invariant l e,
      unfolded Let_def U L, THEN conjunct2, rule_format, OF ne]
  from t obtain q where q: "if card {1, 2::nat} \<le> card {3, 4, 5::nat}
         then q \<in> {1, 2} \<and> (\<forall>i\<in>{1, 2}. tightest project_tableau 0 True q i)
         else q \<in> {3, 4, 5} \<and> (\<forall>i\<in>{3, 4, 5}. tightest project_tableau 0 False q i)"
    and d: "m_rows (project 0 project_tableau) ! q = (m_rows project_tableau ! q)\<lparr>m_alive := False\<rparr>"
    by blast
  from q cd have "q \<in> {1, 2} \<and> (\<forall>i\<in>{1, 2}. tightest project_tableau 0 True q i)"
    by (simp split: if_splits)
  then have "q \<in> {1, 2}" "tightest project_tableau 0 True q 1" "tightest project_tableau 0 True q 2"
    by blast+
  with d have p: "\<exists>q. q \<in> {1, 2} \<and> tightest project_tableau 0 True q 1 \<and>
        tightest project_tableau 0 True q 2 \<and>
        m_rows (project 0 project_tableau) ! q = (m_rows project_tableau ! q)\<lparr>m_alive := False\<rparr>"
    by blast
  have l': "0 < length (m_var2value lp_tableau)" by (simp add: lp_tableau_def)
  have e': "equality_rows lp_tableau 0 = []"
    by (simp add: equality_rows_def is_equality_def lp_tableau_def eval_defs)
  have U': "upper_rows lp_tableau 0 = {1, 2, 3}"
    by (simp add: upper_rows_def is_upper_def lp_tableau_def eval_defs)
  have L': "lower_rows lp_tableau 0 = {}"
    by (simp add: lower_rows_def is_lower_def lp_tableau_def eval_defs)
  have em: "{1, 2, 3} = ({}::nat set) \<or> ({}::nat set) = {}" by simp
  note t' = project_pivot_selection[OF lp_tableau_wf lp_tableau_invariant l' e',
      unfolded Let_def U' L', THEN conjunct1, rule_format, OF em]
  then have k: "killed {1, 2, 3} lp_tableau (project 0 lp_tableau)" by simp
  from e U L p e' U' L' k show ?thesis by (intro conjI)
qed

text \<open>On \<open>project_tableau\<close> the pivot for variable 0 is row 1 (\<open>x \<le> 5\<close>), the tighter of the
  two upper bounds. Row 2 (\<open>x \<le> 7\<close>) is on the pivot's own side; it is not dropped but replaced
  by its resolvent \<open>-2 \<le> 0\<close> against the pivot, and it stays alive.\<close>

theorem project_keeps_own_side_rows:
  "equality_rows project_tableau 0 = [] \<and>
   is_upper project_tableau 0 1 \<and> is_upper project_tableau 0 2 \<and> is_lower project_tableau 0 3 \<and>
   m_rows (project 0 project_tableau) ! 1 = (m_rows project_tableau ! 1)\<lparr>m_alive := False\<rparr> \<and>
   m_alive (m_rows (project 0 project_tableau) ! 2) \<and>
   m_rows (project 0 project_tableau) ! 2 =
     resolve_row False 1 0 (m_rows project_tableau ! 1) (m_rows project_tableau ! 2) \<and>
   m_rows (project 0 project_tableau) ! 2 = mk_row [] (- 2) t_le (- 2) True \<and>
   m_rows (project 0 project_tableau) ! 2 \<noteq> m_rows project_tableau ! 2"
proof -
  have "equality_rows project_tableau 0 = []"
    by (simp add: equality_rows_def is_equality_def project_tableau_def eval_defs)
  moreover have "is_upper project_tableau 0 1" "is_upper project_tableau 0 2"
      "is_lower project_tableau 0 3"
    by (simp_all add: is_upper_def is_lower_def project_tableau_def eval_defs)
  moreover have "m_rows (project 0 project_tableau) ! 1 = (m_rows project_tableau ! 1)\<lparr>m_alive := False\<rparr>"
    "m_alive (m_rows (project 0 project_tableau) ! 2)"
    "m_rows (project 0 project_tableau) ! 2 = mk_row [] (- 2) t_le (- 2) True"
    "m_rows (project 0 project_tableau) ! 2 \<noteq> m_rows project_tableau ! 2"
    by (simp_all add: project_tableau_result) (simp_all add: project_tableau_def mk_row_def)
  moreover have "resolve_row False 1 0 (m_rows project_tableau ! 1) (m_rows project_tableau ! 2) =
      mk_row [] (- 2) t_le (- 2) True"
    by (simp add: project_tableau_def resolve_row_def mul_add_row_def mul_add_type_def
        cons_nonzero_def mk_row_def mk_var_def Let_def)
  ultimately show ?thesis by simp
qed

section \<open>C5: termination of \<^verbatim>\<open>maximize\<close> and progress of \<^verbatim>\<open>project\<close>\<close>

text \<open>C5. On a well-formed tableau satisfying the invariants \<^verbatim>\<open>maximize()\<close> returns. Each
  iteration of its main loop that finds a bound marks one live row, the bound row, dead and
  revives none, and removes the variable it eliminates from the objective row (other variables
  may enter the objective). \<^verbatim>\<open>project(x)\<close> is a total function; it marks at least one live
  row dead and revives none when some live row of the index of \<open>x\<close> has a non-zero
  coefficient on \<open>x\<close>, and it leaves the tableau as it is otherwise.\<close>

theorem maximize_terminates_project_progress:
  assumes "wf s" "tableau_invariant s"
  shows "(\<exists>r s'. maximize s = Some (r, s')) \<and>
         (\<forall>s1 bt bv p y s2.
            maximize_reaches s s1 bt bv \<and> m_vars (objective s1) \<noteq> [] \<and>
            maximize_step s1 = Some (p, y, s2) \<longrightarrow>
              p \<in> live_rows s1 \<and> live_rows s2 = live_rows s1 - {p} \<and>
              y \<in> m_id ` set (m_vars (objective s1)) \<and>
              y \<notin> m_id ` set (m_vars (objective s2))) \<and>
         (x < length (m_var2value s) \<longrightarrow>
            (if \<exists>i\<in>set (m_var2row_ids s ! x). m_alive (m_rows s ! i) \<and> get_coefficient s i x \<noteq> 0
             then live_rows (project x s) \<subset> live_rows s
             else project x s = s))"
proof (intro conjI allI impI)
  from maximize_total[OF assms] show "\<exists>r s'. maximize s = Some (r, s')" by blast
next
  fix s1 bt bv p y s2
  assume h: "maximize_reaches s s1 bt bv \<and> m_vars (objective s1) \<noteq> [] \<and>
            maximize_step s1 = Some (p, y, s2)"
  then have r: "maximize_reaches s s1 bt bv" and ne: "m_vars (objective s1) \<noteq> []"
    and st: "maximize_step s1 = Some (p, y, s2)" by simp_all
  from maximize_reaches_inv[OF assms r] have wf1: "wf s1" and inv1: "tableau_invariant s1"
    by (simp_all add: loop_inv_def)
  note so = maximize_step_Some[OF wf1 inv1 ne st]
  show "p \<in> live_rows s1" using so(2) by (rule step_ok_live_rows(2))
  show "live_rows s2 = live_rows s1 - {p}" using so(2) by (rule step_ok_live_rows(1))
  show "y \<in> m_id ` set (m_vars (objective s1))" using so(1) ne by simp
  show "y \<notin> m_id ` set (m_vars (objective s2))"
  proof
    assume "y \<in> m_id ` set (m_vars (objective s2))"
    moreover have "0 < length (m_rows s2)" using wf_D(1)[OF step_ok_D(1)[OF so(2)]] by simp
    ultimately have "mentions s2 y"
      unfolding mentions_def objective_def m_objective_id_def by blast
    with step_ok_D(11)[OF so(2)] show False by simp
  qed
next
  assume x: "x < length (m_var2value s)"
  show "if \<exists>i\<in>set (m_var2row_ids s ! x). m_alive (m_rows s ! i) \<and> get_coefficient s i x \<noteq> 0
        then live_rows (project x s) \<subset> live_rows s
        else project x s = s"
    using project_kills[OF assms x] by (simp split: if_splits)
qed

theorem maximize_terminates_project_progress_witness:
  "wf grow_tableau \<and> tableau_invariant grow_tableau \<and>
   (\<exists>r s'. maximize grow_tableau = Some (r, s')) \<and>
   maximize_reaches grow_tableau grow_tableau [] [] \<and>
   m_vars (objective grow_tableau) \<noteq> [] \<and>
   maximize_step grow_tableau = Some (1, 2, grow_tableau_1) \<and>
   1 \<in> live_rows grow_tableau \<and>
   live_rows grow_tableau_1 = live_rows grow_tableau - {1} \<and>
   2 \<in> m_id ` set (m_vars (objective grow_tableau)) \<and>
   2 \<notin> m_id ` set (m_vars (objective grow_tableau_1)) \<and>
   live_rows (project 0 project_tableau) \<subset> live_rows project_tableau \<and>
   project 1 spare_tableau = spare_tableau"
proof -
  note t = maximize_terminates_project_progress[OF grow_tableau_wf grow_tableau_invariant]
  have m: "\<exists>r s'. maximize grow_tableau = Some (r, s')" by (rule t[THEN conjunct1])
  have r: "maximize_reaches grow_tableau grow_tableau [] []" by (rule maximize_reaches.start)
  have ne: "m_vars (objective grow_tableau) \<noteq> []" by (simp add: grow_tableau_def eval_defs)
  from r ne grow_step_1
  have h: "maximize_reaches grow_tableau grow_tableau [] [] \<and> m_vars (objective grow_tableau) \<noteq> [] \<and>
           maximize_step grow_tableau = Some (1, 2, grow_tableau_1)" by (intro conjI)
  note u = t[THEN conjunct2, THEN conjunct1, rule_format, OF h]
  have l: "0 < length (m_var2value project_tableau)" by (simp add: project_tableau_def)
  have e: "\<exists>i\<in>set (m_var2row_ids project_tableau ! 0).
             m_alive (m_rows project_tableau ! i) \<and> get_coefficient project_tableau i 0 \<noteq> 0"
    by (simp add: project_tableau_def eval_defs)
  note v = maximize_terminates_project_progress[OF project_tableau_wf project_tableau_invariant,
      THEN conjunct2, THEN conjunct2, rule_format, OF l]
  from v e have a: "live_rows (project 0 project_tableau) \<subset> live_rows project_tableau"
    by (simp only: if_True)
  have l': "1 < length (m_var2value spare_tableau)"
    by (simp add: spare_tableau_def add_var_def project_tableau_def)
  have e': "\<not> (\<exists>i\<in>set (m_var2row_ids spare_tableau ! 1).
             m_alive (m_rows spare_tableau ! i) \<and> get_coefficient spare_tableau i 1 \<noteq> 0)"
    by (simp add: spare_tableau_def add_var_def project_tableau_def)
  note w = maximize_terminates_project_progress[OF spare_tableau_wf spare_tableau_invariant,
      THEN conjunct2, THEN conjunct2, rule_format, OF l']
  from w e' have b: "project 1 spare_tableau = spare_tableau" by (simp only: if_False)
  from grow_tableau_wf grow_tableau_invariant m r ne grow_step_1
    u[THEN conjunct1] u[THEN conjunct2, THEN conjunct1]
    u[THEN conjunct2, THEN conjunct2, THEN conjunct1]
    u[THEN conjunct2, THEN conjunct2, THEN conjunct2] a b
  show ?thesis by (intro conjI)
qed

text \<open>In the first iteration of \<^verbatim>\<open>maximize\<close> on \<open>grow_tableau\<close> the objective \<open>z\<close> becomes
  \<open>- x - y\<close>: its variable set goes from \<open>{2}\<close> to \<open>{0, 1}\<close>. Projecting the unused variable 1
  of \<open>spare_tableau\<close> changes nothing, so no row is marked dead.\<close>

theorem objective_grows_and_project_kills_nothing:
  "wf grow_tableau \<and> tableau_invariant grow_tableau \<and>
   maximize_step grow_tableau = Some (1, 2, grow_tableau_1) \<and>
   m_id ` set (m_vars (objective grow_tableau)) = {2} \<and>
   m_id ` set (m_vars (objective grow_tableau_1)) = {0, 1} \<and>
   wf spare_tableau \<and> tableau_invariant spare_tableau \<and>
   1 < length (m_var2value spare_tableau) \<and>
   project 1 spare_tableau = spare_tableau"
proof -
  have "m_id ` set (m_vars (objective grow_tableau)) = {2}"
    "m_id ` set (m_vars (objective grow_tableau_1)) = {0, 1}"
    by (simp_all add: grow_tableau_def grow_tableau_1_def eval_defs)
  moreover have "1 < length (m_var2value spare_tableau)"
    by (simp add: spare_tableau_def add_var_def project_tableau_def)
  ultimately show ?thesis
    using grow_tableau_wf grow_tableau_invariant grow_step_1 spare_tableau_wf
      spare_tableau_invariant spare_tableau_result by simp
qed

section \<open>Bound search: the contract of \<^verbatim>\<open>find_bound\<close>\<close>

text \<open>
  C6. \<^verbatim>\<open>find_bound(x, ..., is_pos)\<close> considers, among the live rows of the index of
  \<open>x\<close> with a non-zero coefficient \<open>a\<close> on \<open>x\<close>, exactly those whose coefficient sign
  equals \<open>is_pos\<close> or whose relation is an equality (\<open>is_candidate\<close>). It returns true
  exactly when such a row exists; the row it returns is one of them, \<open>bound_coeff\<close> is its
  coefficient on \<open>x\<close>, and its implied bound \<open>x_val - value / a\<close> is the least (for
  \<open>is_pos\<close>) or the greatest (otherwise) among all of them, with a strict row returned
  whenever a strict row attains that bound (\<open>tightest\<close>).
\<close>

theorem find_bound_spec:
  assumes "\<forall>i\<in>set (m_var2row_ids s ! x). i \<noteq> UINT_MAX"
  shows "let found = fst (find_bound s x is_pos); b = snd (find_bound s x is_pos);
             C = {i \<in> set (m_var2row_ids s ! x). is_candidate s x is_pos i}
         in (found \<longleftrightarrow> C \<noteq> {}) \<and>
            (found \<longrightarrow>
               bound_row_index b \<in> C \<and>
               bound_coeff b = get_coefficient s (bound_row_index b) x \<and>
               (\<forall>i\<in>C. tightest s x is_pos (bound_row_index b) i))"
proof -
  let ?b = "snd (find_bound s x is_pos)"
  have inv: "find_bound_inv s x is_pos (set (m_var2row_ids s ! x)) ?b"
    using find_bound_inv_final[OF assms] .
  have f: "fst (find_bound s x is_pos) \<longleftrightarrow> bound_row_index ?b \<noteq> UINT_MAX"
    by (simp add: find_bound_def Let_def)
  show ?thesis
  proof (cases "bound_row_index ?b = UINT_MAX")
    case True
    with inv f show ?thesis by (auto simp: find_bound_inv_def Let_def)
  next
    case False
    with inv f show ?thesis unfolding find_bound_inv_def Let_def by auto
  qed
qed

theorem find_bound_spec_witness:
  "fst (find_bound lp_tableau 0 True) \<and>
   bound_row_index (snd (find_bound lp_tableau 0 True)) = 1 \<and>
   tightest lp_tableau 0 True 1 2 \<and> tightest lp_tableau 0 True 1 3"
proof -
  have h: "\<forall>i\<in>set (m_var2row_ids lp_tableau ! 0). i \<noteq> UINT_MAX"
    by (simp add: lp_tableau_def UINT_MAX_def)
  have c: "is_candidate lp_tableau 0 True 1" "is_candidate lp_tableau 0 True 2"
      "is_candidate lp_tableau 0 True 3"
    by (simp_all add: is_candidate_def lp_tableau_def eval_defs)
  have idx: "bound_row_index (snd (find_bound lp_tableau 0 True)) = 1"
    by (simp add: lp_tableau_def eval_defs)
  have ids: "m_var2row_ids lp_tableau ! 0 = [1, 2, 3]" by (simp add: lp_tableau_def)
  from find_bound_spec[OF h, of True] c idx show ?thesis
    by (auto simp: Let_def ids)
qed

section \<open>C7: an equality row on the projected variable is the pivot\<close>

text \<open>C7. If the index of \<open>x\<close> holds a live equality row with a non-zero coefficient on \<open>x\<close>,
  then \<^verbatim>\<open>project(x)\<close> is \<^verbatim>\<open>solve_for\<close> on the first such row \<open>r\<close>, whatever the other
  rows are (no lub/glb selection takes part in the result): row \<open>r\<close> is marked dead and is
  otherwise unchanged, every other live row of the index of \<open>x\<close> is replaced by its resolvent
  against \<open>r\<close>, every other row is left as it was, and afterwards every live constraint row has
  coefficient zero on \<open>x\<close>.\<close>

theorem project_equality_pivot:
  assumes "wf s" "tableau_invariant s" "x < length (m_var2value s)" "equality_rows s x \<noteq> []"
  shows "let r = hd (equality_rows s x); s' = project x s in
           is_equality s x r \<and> s' = solve_for r x s \<and>
           m_rows s' ! r = (m_rows s ! r)\<lparr>m_alive := False\<rparr> \<and>
           (\<forall>i<length (m_rows s). i \<noteq> r \<longrightarrow>
              m_rows s' ! i =
                (if i \<in> set (m_var2row_ids s ! x) \<and> m_alive (m_rows s ! i)
                 then resolve_row False (get_coefficient s r x) x (m_rows s ! r) (m_rows s ! i)
                 else m_rows s ! i) \<and>
              (0 < i \<and> m_alive (m_rows s' ! i) \<longrightarrow> get_coefficient s' i x = 0))"
proof -
  define r where "r = hd (equality_rows s x)"
  let ?s' = "project x s"
  let ?a = "get_coefficient s r x"
  note pe = project_equality[OF assms, folded r_def]
  note se = solve_for_effect[OF assms(1-3) pe(2) pe(3)]
  from se(2) obtain s1 where res: "resolved r ?a x (set (m_var2row_ids s ! x) - {r}) s s1"
    and k: "solve_for r x s = kill_row r s1" by blast
  from res have len1: "length (m_rows s1) = length (m_rows s)"
    and rows1: "\<And>i. i < length (m_rows s) \<Longrightarrow> m_rows s1 ! i =
          (if i \<in> set (m_var2row_ids s ! x) - {r} \<and> m_alive (m_rows s ! i)
           then resolve_row (i = m_objective_id) ?a x (m_rows s ! r) (m_rows s ! i)
           else m_rows s ! i)"
    by (simp_all add: resolved_def)
  from se(1) pe(1) have ok: "project_ok s x ?s'" by simp
  then have wf': "wf ?s'" and inv': "tableau_invariant ?s'"
    and len: "length (m_rows ?s') = length (m_rows s)"
    and nox: "\<forall>i<length (m_rows s). 0 < i \<and> m_alive (m_rows ?s' ! i) \<longrightarrow>
                 x \<notin> m_id ` set (m_vars (m_rows ?s' ! i))"
    unfolding project_ok_def by blast+
  have rr: "m_rows ?s' ! r = (m_rows s ! r)\<lparr>m_alive := False\<rparr>" using se(3) pe(1) by simp
  have other: "m_rows ?s' ! i =
      (if i \<in> set (m_var2row_ids s ! x) \<and> m_alive (m_rows s ! i)
       then resolve_row False ?a x (m_rows s ! r) (m_rows s ! i)
       else m_rows s ! i) \<and>
      (0 < i \<and> m_alive (m_rows ?s' ! i) \<longrightarrow> get_coefficient ?s' i x = 0)"
    if i: "i < length (m_rows s)" and ne: "i \<noteq> r" for i
  proof
    have "m_rows ?s' ! i = m_rows s1 ! i"
      using pe(1) k i ne len1 by (simp add: kill_row_nth)
    also have "\<dots> = (if i \<in> set (m_var2row_ids s ! x) - {r} \<and> m_alive (m_rows s ! i)
           then resolve_row (i = m_objective_id) ?a x (m_rows s ! r) (m_rows s ! i)
           else m_rows s ! i)" using rows1[OF i] .
    also have "\<dots> = (if i \<in> set (m_var2row_ids s ! x) \<and> m_alive (m_rows s ! i)
           then resolve_row False ?a x (m_rows s ! r) (m_rows s ! i)
           else m_rows s ! i)"
    proof (cases "i \<in> set (m_var2row_ids s ! x)")
      case True
      from wf_D(4)[OF assms(1,3) True] have "i \<noteq> m_objective_id" by (simp add: m_objective_id_def)
      with True ne show ?thesis by simp
    next
      case False
      then show ?thesis by simp
    qed
    finally show "m_rows ?s' ! i =
      (if i \<in> set (m_var2row_ids s ! x) \<and> m_alive (m_rows s ! i)
       then resolve_row False ?a x (m_rows s ! r) (m_rows s ! i)
       else m_rows s ! i)" .
    show "0 < i \<and> m_alive (m_rows ?s' ! i) \<longrightarrow> get_coefficient ?s' i x = 0"
    proof
      assume h: "0 < i \<and> m_alive (m_rows ?s' ! i)"
      from nox i h have n: "x \<notin> m_id ` set (m_vars (m_rows ?s' ! i))" by simp
      from h have al: "m_alive (m_rows ?s' ! i)" by simp
      from i len have i': "i < length (m_rows ?s')" by simp
      from tableau_invariant_D(1)[OF inv' i' al]
      have "sorted_wrt (<) (map m_id (m_vars (m_rows ?s' ! i)))"
        by (simp add: row_invariant_def vars_ok_def)
      then have "get_coefficient ?s' i x = coeff_of (m_vars (m_rows ?s' ! i)) x"
        by (rule get_coefficient_coeff_of)
      with n show "get_coefficient ?s' i x = 0" by (simp add: coeff_of_notin)
    qed
  qed
  from pe(3) pe(1) rr other show ?thesis unfolding Let_def r_def[symmetric] by blast
qed

theorem project_equality_pivot_witness:
  "wf equality_tableau \<and> tableau_invariant equality_tableau \<and>
   equality_rows equality_tableau 0 = [1] \<and>
   project 0 equality_tableau = solve_for 1 0 equality_tableau \<and>
   m_rows (project 0 equality_tableau) ! 1 = mk_row [mk_var 0 1, mk_var 1 (- 1)] 0 t_eq 0 False \<and>
   m_rows (project 0 equality_tableau) ! 2 =
     resolve_row False 1 0 (m_rows equality_tableau ! 1) (m_rows equality_tableau ! 2) \<and>
   get_coefficient (project 0 equality_tableau) 2 0 = 0"
proof -
  have l: "0 < length (m_var2value equality_tableau)" by (simp add: equality_tableau_def)
  have e: "equality_rows equality_tableau 0 \<noteq> []" by (simp add: equality_tableau_rows)
  have c: "get_coefficient equality_tableau 1 0 = 1"
    and i: "2 \<in> set (m_var2row_ids equality_tableau ! 0)" "m_alive (m_rows equality_tableau ! 2)"
    and n: "(2::nat) < length (m_rows equality_tableau)"
    and r1: "(m_rows equality_tableau ! 1)\<lparr>m_alive := False\<rparr> =
               mk_row [mk_var 0 1, mk_var 1 (- 1)] 0 t_eq 0 False"
    and a: "m_alive (m_rows (project 0 equality_tableau) ! 2)"
    by (simp_all add: equality_tableau_result equality_tableau_def eval_defs)
  have h: "hd (equality_rows equality_tableau 0) = 1" by (simp add: equality_tableau_rows)
  have ne: "(2::nat) \<noteq> 1" by simp
  note t = project_equality_pivot[OF equality_tableau_wf equality_tableau_invariant l e,
      unfolded Let_def h]
  note t2 = t[THEN conjunct2, THEN conjunct2, THEN conjunct2, rule_format, OF n ne]
  have p1: "project 0 equality_tableau = solve_for 1 0 equality_tableau"
    by (rule t[THEN conjunct2, THEN conjunct1])
  have p2: "m_rows (project 0 equality_tableau) ! 1 = mk_row [mk_var 0 1, mk_var 1 (- 1)] 0 t_eq 0 False"
    using t[THEN conjunct2, THEN conjunct2, THEN conjunct1] r1 by simp
  have p3: "m_rows (project 0 equality_tableau) ! 2 =
     resolve_row False 1 0 (m_rows equality_tableau ! 1) (m_rows equality_tableau ! 2)"
    using t2[THEN conjunct1] i c by simp
  have p4: "get_coefficient (project 0 equality_tableau) 2 0 = 0"
    using t2[THEN conjunct2] a by simp
  from equality_tableau_wf equality_tableau_invariant equality_tableau_rows p1 p2 p3 p4
  show ?thesis by (intro conjI)
qed

section \<open>Sparse linear combination: the contract of \<^verbatim>\<open>mul_add\<close>\<close>

text \<open>
  C8. \<^verbatim>\<open>mul_add(same_sign, row1, c, row2)\<close> is a no-op when \<open>c\<close> is zero. Otherwise, for
  rows whose variable lists are strictly sorted and free of zero coefficients, the new variable
  list of row1 is again strictly sorted and free of zero coefficients and its coefficient on
  every variable is the coefficient of row1 plus \<open>c\<close> times the coefficient of row2; the
  constant and the cached value are updated by the same linear combination; and the relation
  becomes \<open>Lt\<close> if \<open>same_sign\<close> is false and row2 is \<open>Lt\<close>, becomes \<open>Le\<close> if
  \<open>same_sign\<close> is true and both rows are \<open>Lt\<close>, and is unchanged otherwise.
\<close>

theorem mul_add_spec:
  "(c = 0 \<longrightarrow> mul_add same_sign row_id1 c row_id2 s = s) \<and>
   (c \<noteq> 0 \<and> row_id1 < length (m_rows s) \<and>
    vars_ok (m_vars (m_rows s ! row_id1)) \<and> vars_ok (m_vars (m_rows s ! row_id2)) \<longrightarrow>
    (let r1 = m_rows s ! row_id1; r2 = m_rows s ! row_id2;
         s' = mul_add same_sign row_id1 c row_id2 s; r1' = m_rows s' ! row_id1
     in vars_ok (m_vars r1') \<and>
        (\<forall>x. get_coefficient s' row_id1 x =
               get_coefficient s row_id1 x + c * get_coefficient s row_id2 x) \<and>
        row.m_coeff r1' = row.m_coeff r1 + c * row.m_coeff r2 \<and>
        m_value r1' = m_value r1 + c * m_value r2 \<and>
        m_type r1' =
          (if \<not> same_sign \<and> m_type r2 = t_lt then t_lt
           else if same_sign \<and> m_type r1 = t_lt \<and> m_type r2 = t_lt then t_le
           else m_type r1)))"
proof (intro conjI impI)
  assume "c = 0"
  then show "mul_add same_sign row_id1 c row_id2 s = s" by simp
next
  assume h: "c \<noteq> 0 \<and> row_id1 < length (m_rows s) \<and>
    vars_ok (m_vars (m_rows s ! row_id1)) \<and> vars_ok (m_vars (m_rows s ! row_id2))"
  let ?r1 = "m_rows s ! row_id1" and ?r2 = "m_rows s ! row_id2"
  let ?s' = "mul_add same_sign row_id1 c row_id2 s"
  have row: "m_rows ?s' ! row_id1 = mul_add_row same_sign c ?r1 ?r2"
    using h by (simp add: mul_add_nonzero)
  have ok: "vars_ok (m_vars (m_rows ?s' ! row_id1))"
    using h merge_vars_ok[of c "m_vars ?r1" "m_vars ?r2"] by (simp add: row)
  have co: "get_coefficient ?s' row_id1 x =
            get_coefficient s row_id1 x + c * get_coefficient s row_id2 x" for x
  proof -
    have "get_coefficient ?s' row_id1 x = coeff_of (m_vars (m_rows ?s' ! row_id1)) x"
      using ok by (intro get_coefficient_coeff_of) (simp add: vars_ok_def)
    also have "\<dots> = coeff_of (m_vars ?r1) x + c * coeff_of (m_vars ?r2) x"
      using h by (simp add: row merge_vars_coeff vars_ok_def)
    also have "\<dots> = get_coefficient s row_id1 x + c * get_coefficient s row_id2 x"
      using h by (simp add: get_coefficient_coeff_of vars_ok_def)
    finally show ?thesis .
  qed
  show "let r1 = m_rows s ! row_id1; r2 = m_rows s ! row_id2;
         s' = mul_add same_sign row_id1 c row_id2 s; r1' = m_rows s' ! row_id1
     in vars_ok (m_vars r1') \<and>
        (\<forall>x. get_coefficient s' row_id1 x =
               get_coefficient s row_id1 x + c * get_coefficient s row_id2 x) \<and>
        row.m_coeff r1' = row.m_coeff r1 + c * row.m_coeff r2 \<and>
        m_value r1' = m_value r1 + c * m_value r2 \<and>
        m_type r1' =
          (if \<not> same_sign \<and> m_type r2 = t_lt then t_lt
           else if same_sign \<and> m_type r1 = t_lt \<and> m_type r2 = t_lt then t_le
           else m_type r1)"
    unfolding Let_def using ok co by (simp add: row mul_add_type_def)
qed

theorem mul_add_spec_witness:
  "(- 1 \<noteq> (0::rat) \<and> 2 < length (m_rows lp_tableau) \<and>
    vars_ok (m_vars (m_rows lp_tableau ! 2)) \<and> vars_ok (m_vars (m_rows lp_tableau ! 1))) \<and>
   m_vars (m_rows (mul_add True 2 (- 1) 1 lp_tableau) ! 2) = [mk_var 1 1] \<and>
   m_value (m_rows (mul_add True 2 (- 1) 1 lp_tableau) ! 2) = - 5 \<and>
   get_coefficient (mul_add True 2 (- 1) 1 lp_tableau) 2 0 = 0"
proof -
  have h: "- 1 \<noteq> (0::rat) \<and> 2 < length (m_rows lp_tableau) \<and>
    vars_ok (m_vars (m_rows lp_tableau ! 2)) \<and> vars_ok (m_vars (m_rows lp_tableau ! 1))"
    by (simp add: lp_tableau_def mk_row_def mk_var_def vars_ok_def)
  have g: "get_coefficient lp_tableau 2 0 = 1" "get_coefficient lp_tableau (Suc 0) 0 = 1"
    by (simp_all add: lp_tableau_def mk_row_def mk_var_def get_coefficient_def bsearch.simps)
  have v: "m_vars (m_rows (mul_add True 2 (- 1) 1 lp_tableau) ! 2) = [mk_var 1 1]"
    by (simp add: lp_tableau_def mk_row_def mk_var_def mul_add_def scale_var_def push_row_id_def)
  from mul_add_spec[of "- 1" True 2 1 lp_tableau] h g v show ?thesis
    by (simp add: Let_def lp_tableau_def mk_row_def)
qed

section \<open>Back-substitution: \<^verbatim>\<open>update_values\<close> on a reachable trail\<close>

text \<open>
  C9. \<^verbatim>\<open>update_values\<close> processes the trail in reverse and, for a strict bound row,
  perturbs the new value by \<open>eps = min(1, |old - new| / 2)\<close> so that the strict row is
  strictly satisfied. On the tableau \<open>strict_tableau\<close> (built by the public operations, see
  \<open>strict_tableau_built\<close>) \<^verbatim>\<open>maximize\<close> eliminates \<open>x\<close> with the strict row 1 and then
  \<open>y\<close> with row 2; back-substitution sets \<open>y\<close> to 0, the boundary value for \<open>x\<close> is then 0,
  which is also the old value of \<open>x\<close>, so \<open>eps\<close> is 0 and the strict row 1 evaluates to 0 in
  the resulting model: the source's \<^verbatim>\<open>SASSERT(!eps.is_zero())\<close> fails.
\<close>

theorem update_values_strict_row_not_satisfied:
  "maximize strict_tableau = Some (inf_rational 0 (- 1), strict_tableau_final) \<and>
   m_var2value (update_values_entry 0 2 strict_tableau_2) ! 1 = 0 \<and>
   update_values_new_val (update_values_entry 0 2 strict_tableau_2) 1
     (m_rows (update_values_entry 0 2 strict_tableau_2) ! 1) = 0 \<and>
   update_values_eps 0 0 = 0 \<and>
   m_var2value strict_tableau_final = [0, 0] \<and>
   m_type (m_rows strict_tableau_final ! 1) = t_lt \<and>
   get_row_value strict_tableau_final (m_rows strict_tableau_final ! 1) = 0"
proof -
  have "m_var2value (update_values_entry 0 2 strict_tableau_2) ! 1 = 0"
    by (simp add: strict_tableau_2_def eval_defs)
  moreover have "update_values_new_val (update_values_entry 0 2 strict_tableau_2) 1
     (m_rows (update_values_entry 0 2 strict_tableau_2) ! 1) = 0"
    by (simp add: strict_tableau_2_def eval_defs)
  moreover have "update_values_eps 0 0 = 0"
    by (simp add: update_values_eps_def)
  moreover have "m_var2value strict_tableau_final = [0, 0]"
    "m_type (m_rows strict_tableau_final ! 1) = t_lt"
    "get_row_value strict_tableau_final (m_rows strict_tableau_final ! 1) = 0"
    by (simp_all add: strict_tableau_final_def eval_defs)
  ultimately show ?thesis using strict_maximize by simp
qed

end
